theory Spec2Isabelle
  imports Main "HOL-Library.Word" "HOL-Library.Monad_Syntax"
begin

unbundle bit_operations_syntax

section \<open>Tagged root pointers (ebtree.h)\<close>

text \<open>
  A \<^verbatim>\<open>struct eb_root *\<close> is the null pointer, the address of the tree's root, or
  the address of the \<^verbatim>\<open>branches\<close> member of a cell. \<^verbatim>\<open>branches\<close> is the first
  member of \<^verbatim>\<open>struct eb_node\<close>, which is the first member of \<^verbatim>\<open>struct eb32_node\<close>,
  so \<^verbatim>\<open>container_of\<close> subtracts offset 0 and a node pointer is the same address.
\<close>

datatype eb_root_ptr = Null | Root | Branches nat

text \<open>
  An \<^verbatim>\<open>eb_troot_t *\<close> is such an address with a tag in its lowest bit:
  the side (left 0, right 1) in \<^verbatim>\<open>node_p\<close> and \<^verbatim>\<open>leaf_p\<close>, the kind of the target
  (leaf 0, node 1) in \<^verbatim>\<open>b[]\<close>.
\<close>

type_synonym eb_troot = "eb_root_ptr \<times> bool"

abbreviation (input) EB_LEFT :: bool where "EB_LEFT \<equiv> False"
abbreviation (input) EB_RGHT :: bool where "EB_RGHT \<equiv> True"
abbreviation (input) EB_LEAF :: bool where "EB_LEAF \<equiv> False"
abbreviation (input) EB_NODE :: bool where "EB_NODE \<equiv> True"
abbreviation (input) NULL :: eb_troot where "NULL \<equiv> (Null, False)"

definition eb_dotag :: "eb_root_ptr \<Rightarrow> bool \<Rightarrow> eb_troot" where
  "eb_dotag root tag = (root, tag)"

text \<open>
  \<^verbatim>\<open>eb_untag(troot, tag)\<close> subtracts \<^verbatim>\<open>tag\<close> from the address. Every call site
  passes the tag it has just read with \<^verbatim>\<open>eb_gettag\<close> (or the one its loop condition
  has established), so the subtraction clears the tag bit.
\<close>

definition eb_untag :: "eb_troot \<Rightarrow> bool \<Rightarrow> eb_root_ptr" where
  "eb_untag troot tag = fst troot"

definition eb_gettag :: "eb_troot \<Rightarrow> bool" where
  "eb_gettag troot = snd troot"

definition eb_clrtag :: "eb_troot \<Rightarrow> eb_root_ptr" where
  "eb_clrtag troot = fst troot"

definition eb_root_to_node :: "eb_root_ptr \<Rightarrow> eb_root_ptr" where
  "eb_root_to_node root = root"

section \<open>Cells and the store\<close>

text \<open>
  A cell: \<^verbatim>\<open>struct eb_node\<close> with the key that a front end adds to it
  (\<^verbatim>\<open>struct eb32_node\<close>, \<^verbatim>\<open>struct eb64_node\<close>, \<^verbatim>\<open>struct eb128_node\<close>). It holds the two
  branches, the parent of the node part, the parent of the leaf part, the bit
  position (a \<^verbatim>\<open>short int\<close>; its values stay between minus the number of cells and
  the width of the key) and the key, of type \<open>'k\<close>.
\<close>

record 'k eb_cell =
  branches :: "bool \<Rightarrow> eb_troot"
  node_p :: eb_troot
  leaf_p :: eb_troot
  nbit :: int
  key :: 'k

type_synonym eb32_node = "32 word eb_cell"
type_synonym eb64_node = "64 word eb_cell"
type_synonym eb128_node = "128 word eb_cell"

text \<open>The memory: the tree's \<^verbatim>\<open>struct eb_root\<close> and the caller's cells, by index.\<close>

record 'k eb_store =
  eb_root :: "bool \<Rightarrow> eb_troot"
  cells :: "nat \<Rightarrow> 'k eb_cell"

type_synonym ebtree = "32 word eb_store"

text \<open>
  Reads and writes through a pointer. A null pointer cannot be dereferenced, and the
  root has branches only: \<open>None\<close> is the fault.
\<close>

definition load_b :: "'k eb_store \<Rightarrow> eb_root_ptr \<Rightarrow> bool \<Rightarrow> eb_troot option" where
  "load_b s p side =
     (case p of Null \<Rightarrow> None
      | Root \<Rightarrow> Some (eb_root s side)
      | Branches c \<Rightarrow> Some (branches (cells s c) side))"

definition load_node :: "'k eb_store \<Rightarrow> eb_root_ptr \<Rightarrow> ('k eb_cell \<Rightarrow> 'a) \<Rightarrow> 'a option" where
  "load_node s p f =
     (case p of Branches c \<Rightarrow> Some (f (cells s c)) | _ \<Rightarrow> None)"

definition store_node :: "'k eb_store \<Rightarrow> eb_root_ptr \<Rightarrow> ('k eb_cell \<Rightarrow> 'k eb_cell) \<Rightarrow> 'k eb_store option" where
  "store_node s p f =
     (case p of Branches c \<Rightarrow> Some (s\<lparr>cells := (cells s)(c := f (cells s c))\<rparr>)
      | _ \<Rightarrow> None)"

definition store_b :: "'k eb_store \<Rightarrow> eb_root_ptr \<Rightarrow> bool \<Rightarrow> eb_troot \<Rightarrow> 'k eb_store option" where
  "store_b s p side v =
     (case p of Null \<Rightarrow> None
      | Root \<Rightarrow> Some (s\<lparr>eb_root := (eb_root s)(side := v)\<rparr>)
      | Branches c \<Rightarrow>
          store_node s p (\<lambda>n. n\<lparr>branches := (branches n)(side := v)\<rparr>))"

section \<open>Generic primitives (ebtree.c)\<close>

partial_function (option) eb_walk_down :: "'k eb_store \<Rightarrow> eb_troot \<Rightarrow> bool \<Rightarrow> eb_root_ptr option" where
  "eb_walk_down s start side =
     (if eb_gettag start = EB_NODE
      then do { t \<leftarrow> load_b s (eb_untag start EB_NODE) side; eb_walk_down s t side }
      else Some (eb_root_to_node (eb_untag start EB_LEAF)))"

definition eb_first :: "'k eb_store \<Rightarrow> eb_root_ptr \<Rightarrow> eb_root_ptr option" where
  "eb_first s r = do { t \<leftarrow> load_b s r EB_LEFT; eb_walk_down s t EB_LEFT }"

definition eb_last :: "'k eb_store \<Rightarrow> eb_root_ptr \<Rightarrow> eb_root_ptr option" where
  "eb_last s r = do { t \<leftarrow> load_b s r EB_LEFT; eb_walk_down s t EB_RGHT }"

text \<open>The climbing loop of \<^verbatim>\<open>eb_prev\<close> and what follows it.\<close>

partial_function (option) eb_prev_from :: "'k eb_store \<Rightarrow> eb_troot \<Rightarrow> eb_root_ptr option" where
  "eb_prev_from s t =
     (if eb_gettag t = EB_LEFT
      then do {
        r \<leftarrow> load_b s (eb_untag t EB_LEFT) EB_RGHT;
        if eb_clrtag r = Null then Some Null
        else do {
          t' \<leftarrow> load_node s (eb_root_to_node (eb_untag t EB_LEFT)) node_p;
          eb_prev_from s t'
        }
      }
      else do {
        t' \<leftarrow> load_b s (eb_untag t EB_RGHT) EB_LEFT;
        eb_walk_down s t' EB_RGHT
      })"

definition eb_prev :: "'k eb_store \<Rightarrow> eb_root_ptr \<Rightarrow> eb_root_ptr option" where
  "eb_prev s node = do { t \<leftarrow> load_node s node leaf_p; eb_prev_from s t }"

text \<open>The climbing loop of \<^verbatim>\<open>eb_next\<close> and what follows it.\<close>

partial_function (option) eb_next_from :: "'k eb_store \<Rightarrow> eb_troot \<Rightarrow> eb_root_ptr option" where
  "eb_next_from s t =
     (if eb_gettag t \<noteq> EB_LEFT
      then do {
        t' \<leftarrow> load_node s (eb_root_to_node (eb_untag t EB_RGHT)) node_p;
        eb_next_from s t'
      }
      else do {
        t' \<leftarrow> load_b s (eb_untag t EB_LEFT) EB_RGHT;
        if eb_clrtag t' = Null then Some Null
        else eb_walk_down s t' EB_LEFT
      })"

definition eb_next :: "'k eb_store \<Rightarrow> eb_root_ptr \<Rightarrow> eb_root_ptr option" where
  "eb_next s node = do { t \<leftarrow> load_node s node leaf_p; eb_next_from s t }"

text \<open>
  \<^verbatim>\<open>eb_delete\<close>. The last loop of the source runs for \<^verbatim>\<open>pside\<close> 0 and 1;
  \<open>eb_delete_fix\<close> is its body.
\<close>

definition eb_delete_fix :: "'k eb_store \<Rightarrow> eb_root_ptr \<Rightarrow> bool \<Rightarrow> 'k eb_store option" where
  "eb_delete_fix s parent pside = do {
     t \<leftarrow> load_b s parent pside;
     if eb_gettag t = EB_NODE
     then store_node s (eb_root_to_node (eb_untag t EB_NODE))
            (\<lambda>n. n\<lparr>node_p := eb_dotag parent pside\<rparr>)
     else store_node s (eb_root_to_node (eb_untag t EB_LEAF))
            (\<lambda>n. n\<lparr>leaf_p := eb_dotag parent pside\<rparr>)
   }"

definition eb_delete :: "'k eb_store \<Rightarrow> eb_root_ptr \<Rightarrow> 'k eb_store option" where
  "eb_delete s node = do {
     lp \<leftarrow> load_node s node leaf_p;
     if lp = NULL then Some s
     else do {
       let pside = eb_gettag lp;
       let parent = eb_root_to_node (eb_untag lp pside);
       pr \<leftarrow> load_b s parent EB_RGHT;
       if eb_clrtag pr = Null
       then do {
         s1 \<leftarrow> store_b s parent EB_LEFT NULL;
         store_node s1 node (\<lambda>n. n\<lparr>leaf_p := NULL\<rparr>)
       }
       else do {
         pnp \<leftarrow> load_node s parent node_p;
         let gpside = eb_gettag pnp;
         let gparent = eb_untag pnp gpside;
         sib \<leftarrow> load_b s parent (\<not> pside);
         s1 \<leftarrow> store_b s gparent gpside sib;
         sib' \<leftarrow> load_b s1 gparent gpside;
         let sibtype = eb_gettag sib';
         s2 \<leftarrow> (if sibtype = EB_LEAF
                then store_node s1 (eb_root_to_node (eb_untag sib' EB_LEAF))
                       (\<lambda>n. n\<lparr>leaf_p := eb_dotag gparent gpside\<rparr>)
                else store_node s1 (eb_root_to_node (eb_untag sib' EB_NODE))
                       (\<lambda>n. n\<lparr>node_p := eb_dotag gparent gpside\<rparr>));
         s3 \<leftarrow> store_node s2 parent (\<lambda>n. n\<lparr>node_p := NULL\<rparr>);
         np \<leftarrow> load_node s3 node node_p;
         if np = NULL then store_node s3 node (\<lambda>n. n\<lparr>leaf_p := NULL\<rparr>)
         else do {
           s4 \<leftarrow> store_node s3 parent (\<lambda>n. n\<lparr>node_p := np\<rparr>);
           nb \<leftarrow> load_node s4 node branches;
           s5 \<leftarrow> store_node s4 parent (\<lambda>n. n\<lparr>branches := nb\<rparr>);
           nbt \<leftarrow> load_node s5 node nbit;
           s6 \<leftarrow> store_node s5 parent (\<lambda>n. n\<lparr>nbit := nbt\<rparr>);
           pnp' \<leftarrow> load_node s6 parent node_p;
           let gpside' = eb_gettag pnp';
           let gparent' = eb_untag pnp' gpside';
           s7 \<leftarrow> store_b s6 gparent' gpside' (eb_dotag parent EB_NODE);
           s8 \<leftarrow> eb_delete_fix s7 parent False;
           s9 \<leftarrow> eb_delete_fix s8 parent True;
           store_node s9 node (\<lambda>n. n\<lparr>leaf_p := NULL\<rparr>)
         }
       }
     }
   }"

text \<open>
  The inline loop \<^verbatim>\<open>while (eb_gettag(troot) != EB_LEAF) troot = (eb_untag(troot,
  EB_NODE))->b[side];\<close> of the lookup functions.
\<close>

partial_function (option) eb_descend :: "'k eb_store \<Rightarrow> eb_troot \<Rightarrow> bool \<Rightarrow> eb_troot option" where
  "eb_descend s troot side =
     (if eb_gettag troot \<noteq> EB_LEAF
      then do { t \<leftarrow> load_b s (eb_untag troot EB_NODE) side; eb_descend s t side }
      else Some troot)"

text \<open>
  \<^verbatim>\<open>eb_insert_dup\<close>. Its first loop looks for the deepest hole on the right
  branch; it returns the final \<^verbatim>\<open>head\<close> and \<^verbatim>\<open>sub\<close>.
\<close>

partial_function (option) eb_insert_dup_hole ::
  "'k eb_store \<Rightarrow> eb_root_ptr \<Rightarrow> eb_root_ptr \<Rightarrow> (eb_root_ptr \<times> eb_root_ptr) option" where
  "eb_insert_dup_hole s head sub = do {
     r \<leftarrow> load_b s head EB_RGHT;
     if eb_gettag r \<noteq> EB_LEAF
     then do {
       let last = head;
       let head' = eb_untag r EB_NODE;
       hb \<leftarrow> load_node s head' nbit;
       lb \<leftarrow> load_node s last nbit;
       eb_insert_dup_hole s head' (if hb > lb + 1 then head' else sub)
     }
     else Some (head, sub)
   }"

definition eb_insert_dup :: "'k eb_store \<Rightarrow> eb_root_ptr \<Rightarrow> eb_root_ptr \<Rightarrow> ('k eb_store \<times> eb_root_ptr) option" where
  "eb_insert_dup s sub0 new = do {
     let new_left = eb_dotag new EB_LEFT;
     let new_rght = eb_dotag new EB_RGHT;
     let new_leaf = eb_dotag new EB_LEAF;
     (head, sub) \<leftarrow> eb_insert_dup_hole s sub0 sub0;
     hb \<leftarrow> load_node s head nbit;
     if hb < -1
     then do {
       s \<leftarrow> store_node s new (\<lambda>n. n\<lparr>nbit := -1\<rparr>);
       r \<leftarrow> load_b s head EB_RGHT;
       let sub = eb_untag r EB_LEAF;
       s \<leftarrow> store_b s head EB_RGHT (eb_dotag new EB_NODE);
       slp \<leftarrow> load_node s sub leaf_p;
       s \<leftarrow> store_node s new (\<lambda>n. n\<lparr>node_p := slp\<rparr>);
       s \<leftarrow> store_node s new (\<lambda>n. n\<lparr>leaf_p := new_rght\<rparr>);
       s \<leftarrow> store_node s sub (\<lambda>n. n\<lparr>leaf_p := new_left\<rparr>);
       s \<leftarrow> store_b s new EB_LEFT (eb_dotag sub EB_LEAF);
       s \<leftarrow> store_b s new EB_RGHT new_leaf;
       Some (s, new)
     }
     else do {
       sb \<leftarrow> load_node s sub nbit;
       s \<leftarrow> store_node s new (\<lambda>n. n\<lparr>nbit := sb - 1\<rparr>);
       snp \<leftarrow> load_node s sub node_p;
       let side = eb_gettag snp;
       let head = eb_untag snp side;
       s \<leftarrow> store_b s head side (eb_dotag new EB_NODE);
       snp' \<leftarrow> load_node s sub node_p;
       s \<leftarrow> store_node s new (\<lambda>n. n\<lparr>node_p := snp'\<rparr>);
       s \<leftarrow> store_node s new (\<lambda>n. n\<lparr>leaf_p := new_rght\<rparr>);
       s \<leftarrow> store_node s sub (\<lambda>n. n\<lparr>node_p := new_left\<rparr>);
       s \<leftarrow> store_b s new EB_LEFT (eb_dotag sub EB_NODE);
       s \<leftarrow> store_b s new EB_RGHT new_leaf;
       Some (s, new)
     }
   }"

section \<open>32-bit keys (eb32tree.c)\<close>

text \<open>
  \<^verbatim>\<open>flsnz\<close>, by its portable branch: five masking steps, each keeping the upper
  half of the remaining bit positions when one of them is set. (The x86 branch is the
  \<^verbatim>\<open>bsrl\<close> instruction, which gives the same index for a non-zero argument.)
\<close>

definition flsnz_step :: "32 word \<Rightarrow> int \<Rightarrow> 32 word \<times> int \<Rightarrow> 32 word \<times> int" where
  "flsnz_step m n xr = (if fst xr AND m \<noteq> 0 then (fst xr AND m, snd xr + n) else xr)"

definition flsnz :: "32 word \<Rightarrow> int" where
  "flsnz x =
     snd (flsnz_step 0xaaaaaaaa 0x01
         (flsnz_step 0xcccccccc 0x02
         (flsnz_step 0xf0f0f0f0 0x04
         (flsnz_step 0xff00ff00 0x08
         (flsnz_step 0xffff0000 0x10 (x, 0)))))) + 1"

text \<open>
  \<^verbatim>\<open>w >> n\<close> on a 32-bit operand. C defines it for counts from 0 to 31 only; for
  any other count the model takes the result from the parameter \<open>ub\<close>, so that what
  is proved holds whatever the machine answers there.
\<close>

definition shr32 :: "(32 word \<Rightarrow> int \<Rightarrow> 32 word) \<Rightarrow> 32 word \<Rightarrow> int \<Rightarrow> 32 word" where
  "shr32 ub w n = (if 0 \<le> n \<and> n < 32 then drop_bit (nat n) w else ub w n)"

abbreviation (input) EB_NODE_BITS :: int where "EB_NODE_BITS \<equiv> 1"
abbreviation (input) EB_NODE_BRANCHES :: "32 word" where "EB_NODE_BRANCHES \<equiv> 2"
abbreviation (input) EB_NODE_BRANCH_MASK :: "32 word" where "EB_NODE_BRANCH_MASK \<equiv> 1"

text \<open>The descent of \<^verbatim>\<open>eb32_lookup\<close>.\<close>

partial_function (option) eb32_lookup_loop ::
  "(32 word \<Rightarrow> int \<Rightarrow> 32 word) \<Rightarrow> ebtree \<Rightarrow> eb_troot \<Rightarrow> 32 word \<Rightarrow> eb_root_ptr option" where
  "eb32_lookup_loop ub s troot x =
     (if eb_gettag troot = EB_LEAF
      then do {
        let node = eb_untag troot EB_LEAF;
        k \<leftarrow> load_node s node key;
        if k = x then Some node else Some Null
      }
      else do {
        let node = eb_untag troot EB_NODE;
        node_bit \<leftarrow> load_node s node nbit;
        k \<leftarrow> load_node s node key;
        let y = k XOR x;
        if y = 0
        then (if node_bit < 0
              then do {
                troot \<leftarrow> load_b s node EB_LEFT;
                troot \<leftarrow> eb_descend s troot EB_LEFT;
                Some (eb_untag troot EB_LEAF)
              }
              else Some node)
        else if shr32 ub y node_bit \<ge> EB_NODE_BRANCHES then Some Null
        else do {
          troot \<leftarrow> load_b s node (shr32 ub x node_bit AND EB_NODE_BRANCH_MASK \<noteq> 0);
          eb32_lookup_loop ub s troot x
        }
      })"

definition eb32_lookup ::
  "(32 word \<Rightarrow> int \<Rightarrow> 32 word) \<Rightarrow> ebtree \<Rightarrow> eb_root_ptr \<Rightarrow> 32 word \<Rightarrow> eb_root_ptr option" where
  "eb32_lookup ub s root x = do {
     troot \<leftarrow> load_b s root EB_LEFT;
     if troot = NULL then Some Null else eb32_lookup_loop ub s troot x
   }"

text \<open>
  \<^verbatim>\<open>eb32_insert\<close>. \<^verbatim>\<open>up_ptr\<close> is the address of \<^verbatim>\<open>old\<close>'s \<^verbatim>\<open>leaf_p\<close> or
  \<^verbatim>\<open>node_p\<close>.
\<close>

datatype up_ptr = Leaf_p_of eb_root_ptr | Node_p_of eb_root_ptr

definition store_up :: "'k eb_store \<Rightarrow> up_ptr \<Rightarrow> eb_troot \<Rightarrow> 'k eb_store option" where
  "store_up s up v =
     (case up of
        Leaf_p_of old \<Rightarrow> store_node s old (\<lambda>n. n\<lparr>leaf_p := v\<rparr>)
      | Node_p_of old \<Rightarrow> store_node s old (\<lambda>n. n\<lparr>node_p := v\<rparr>))"

text \<open>The descent: it ends at \<^verbatim>\<open>break\<close> with \<^verbatim>\<open>new->node.node_p\<close> written.\<close>

partial_function (option) eb32_insert_descend ::
  "(32 word \<Rightarrow> int \<Rightarrow> 32 word) \<Rightarrow> ebtree \<Rightarrow> eb_root_ptr \<Rightarrow> 32 word \<Rightarrow> eb_root_ptr \<Rightarrow> bool \<Rightarrow> eb_troot
     \<Rightarrow> (ebtree \<times> eb_root_ptr \<times> up_ptr \<times> eb_root_ptr \<times> bool \<times> eb_troot) option" where
  "eb32_insert_descend ub s new newkey root side troot =
     (if eb_gettag troot = EB_LEAF
      then do {
        let old = eb_untag troot EB_LEAF;
        olp \<leftarrow> load_node s old leaf_p;
        s \<leftarrow> store_node s new (\<lambda>n. n\<lparr>node_p := olp\<rparr>);
        Some (s, old, Leaf_p_of old, root, side, troot)
      }
      else do {
        let old = eb_untag troot EB_NODE;
        old_node_bit \<leftarrow> load_node s old nbit;
        nk \<leftarrow> load_node s new key;
        ok \<leftarrow> load_node s old key;
        if old_node_bit < 0 \<or> shr32 ub (nk XOR ok) old_node_bit \<ge> EB_NODE_BRANCHES
        then do {
          onp \<leftarrow> load_node s old node_p;
          s \<leftarrow> store_node s new (\<lambda>n. n\<lparr>node_p := onp\<rparr>);
          Some (s, old, Node_p_of old, root, side, troot)
        }
        else do {
          let root = old;
          let side = (shr32 ub newkey old_node_bit AND EB_NODE_BRANCH_MASK \<noteq> 0);
          troot \<leftarrow> load_b s root side;
          eb32_insert_descend ub s new newkey root side troot
        }
      })"

text \<open>Lines 278 to 298: the orientation by the keys and the parent's branch.\<close>

definition eb32_insert_link ::
  "ebtree \<Rightarrow> eb_root_ptr \<Rightarrow> eb_root_ptr \<Rightarrow> up_ptr \<Rightarrow> eb_root_ptr \<Rightarrow> bool \<Rightarrow> eb_troot
     \<Rightarrow> (ebtree \<times> eb_root_ptr) option" where
  "eb32_insert_link s new old up root side troot = do {
     let new_left = eb_dotag new EB_LEFT;
     let new_rght = eb_dotag new EB_RGHT;
     let new_leaf = eb_dotag new EB_LEAF;
     nk \<leftarrow> load_node s new key;
     ok \<leftarrow> load_node s old key;
     s \<leftarrow> (if nk \<ge> ok
           then do {
             s \<leftarrow> store_b s new EB_LEFT troot;
             s \<leftarrow> store_b s new EB_RGHT new_leaf;
             s \<leftarrow> store_node s new (\<lambda>n. n\<lparr>leaf_p := new_rght\<rparr>);
             store_up s up new_left
           }
           else do {
             s \<leftarrow> store_b s new EB_LEFT new_leaf;
             s \<leftarrow> store_b s new EB_RGHT troot;
             s \<leftarrow> store_node s new (\<lambda>n. n\<lparr>leaf_p := new_left\<rparr>);
             store_up s up new_rght
           });
     s \<leftarrow> store_b s root side (eb_dotag new EB_NODE);
     Some (s, new)
   }"

definition eb32_insert ::
  "(32 word \<Rightarrow> int \<Rightarrow> 32 word) \<Rightarrow> ebtree \<Rightarrow> eb_root_ptr \<Rightarrow> eb_root_ptr \<Rightarrow> (ebtree \<times> eb_root_ptr) option" where
  "eb32_insert ub s root new = do {
     let side = EB_LEFT;
     troot \<leftarrow> load_b s root EB_LEFT;
     root_right \<leftarrow> load_b s root EB_RGHT;
     if troot = NULL
     then do {
       s \<leftarrow> store_b s root EB_LEFT (eb_dotag new EB_LEAF);
       s \<leftarrow> store_node s new (\<lambda>n. n\<lparr>leaf_p := eb_dotag root EB_LEFT\<rparr>);
       s \<leftarrow> store_node s new (\<lambda>n. n\<lparr>node_p := NULL\<rparr>);
       Some (s, new)
     }
     else do {
       newkey \<leftarrow> load_node s new key;
       (s, old, up, root, side, troot) \<leftarrow> eb32_insert_descend ub s new newkey root side troot;
       nk \<leftarrow> load_node s new key;
       ok \<leftarrow> load_node s old key;
       s \<leftarrow> store_node s new (\<lambda>n. n\<lparr>nbit := flsnz (nk XOR ok) - EB_NODE_BITS\<rparr>);
       if nk = ok
       then do {
         s \<leftarrow> store_node s new (\<lambda>n. n\<lparr>nbit := -1\<rparr>);
         if eb_gettag root_right then Some (s, old)
         else if eb_gettag troot \<noteq> EB_LEAF then eb_insert_dup s old new
         else eb32_insert_link s new old up root side troot
       }
       else eb32_insert_link s new old up root side troot
     }
   }"

text \<open>
  \<^verbatim>\<open>eb32_lookup_le\<close>: the descent, which returns a cell or breaks to the climbing
  loop; that loop and what follows it are those of \<^verbatim>\<open>eb_prev\<close>.
\<close>

partial_function (option) eb32_lookup_le_loop ::
  "(32 word \<Rightarrow> int \<Rightarrow> 32 word) \<Rightarrow> ebtree \<Rightarrow> eb_troot \<Rightarrow> 32 word \<Rightarrow> eb_root_ptr option" where
  "eb32_lookup_le_loop ub s troot x =
     (if eb_gettag troot = EB_LEAF
      then do {
        let node = eb_untag troot EB_LEAF;
        k \<leftarrow> load_node s node key;
        if k \<le> x then Some node
        else do { troot \<leftarrow> load_node s node leaf_p; eb_prev_from s troot }
      }
      else do {
        let node = eb_untag troot EB_NODE;
        node_bit \<leftarrow> load_node s node nbit;
        k \<leftarrow> load_node s node key;
        if node_bit < 0
        then (if k \<le> x
              then do {
                troot \<leftarrow> load_b s node EB_RGHT;
                troot \<leftarrow> eb_descend s troot EB_RGHT;
                Some (eb_untag troot EB_LEAF)
              }
              else do { troot \<leftarrow> load_node s node node_p; eb_prev_from s troot })
        else if shr32 ub (x XOR k) node_bit \<ge> EB_NODE_BRANCHES
        then (if shr32 ub k node_bit < shr32 ub x node_bit
              then do { troot \<leftarrow> load_b s node EB_RGHT; eb_walk_down s troot EB_RGHT }
              else do { troot \<leftarrow> load_node s node node_p; eb_prev_from s troot })
        else do {
          troot \<leftarrow> load_b s node (shr32 ub x node_bit AND EB_NODE_BRANCH_MASK \<noteq> 0);
          eb32_lookup_le_loop ub s troot x
        }
      })"

definition eb32_lookup_le ::
  "(32 word \<Rightarrow> int \<Rightarrow> 32 word) \<Rightarrow> ebtree \<Rightarrow> eb_root_ptr \<Rightarrow> 32 word \<Rightarrow> eb_root_ptr option" where
  "eb32_lookup_le ub s root x = do {
     troot \<leftarrow> load_b s root EB_LEFT;
     if troot = NULL then Some Null else eb32_lookup_le_loop ub s troot x
   }"

text \<open>\<^verbatim>\<open>eb32_lookup_ge\<close>, with the climbing loop of \<^verbatim>\<open>eb_next\<close>.\<close>

partial_function (option) eb32_lookup_ge_loop ::
  "(32 word \<Rightarrow> int \<Rightarrow> 32 word) \<Rightarrow> ebtree \<Rightarrow> eb_troot \<Rightarrow> 32 word \<Rightarrow> eb_root_ptr option" where
  "eb32_lookup_ge_loop ub s troot x =
     (if eb_gettag troot = EB_LEAF
      then do {
        let node = eb_untag troot EB_LEAF;
        k \<leftarrow> load_node s node key;
        if k \<ge> x then Some node
        else do { troot \<leftarrow> load_node s node leaf_p; eb_next_from s troot }
      }
      else do {
        let node = eb_untag troot EB_NODE;
        node_bit \<leftarrow> load_node s node nbit;
        k \<leftarrow> load_node s node key;
        if node_bit < 0
        then (if k \<ge> x
              then do {
                troot \<leftarrow> load_b s node EB_LEFT;
                troot \<leftarrow> eb_descend s troot EB_LEFT;
                Some (eb_untag troot EB_LEAF)
              }
              else do { troot \<leftarrow> load_node s node node_p; eb_next_from s troot })
        else if shr32 ub (x XOR k) node_bit \<ge> EB_NODE_BRANCHES
        then (if shr32 ub k node_bit > shr32 ub x node_bit
              then do { troot \<leftarrow> load_b s node EB_LEFT; eb_walk_down s troot EB_LEFT }
              else do { troot \<leftarrow> load_node s node node_p; eb_next_from s troot })
        else do {
          troot \<leftarrow> load_b s node (shr32 ub x node_bit AND EB_NODE_BRANCH_MASK \<noteq> 0);
          eb32_lookup_ge_loop ub s troot x
        }
      })"

definition eb32_lookup_ge ::
  "(32 word \<Rightarrow> int \<Rightarrow> 32 word) \<Rightarrow> ebtree \<Rightarrow> eb_root_ptr \<Rightarrow> 32 word \<Rightarrow> eb_root_ptr option" where
  "eb32_lookup_ge ub s root x = do {
     troot \<leftarrow> load_b s root EB_LEFT;
     if troot = NULL then Some Null else eb32_lookup_ge_loop ub s troot x
   }"

section \<open>128-bit helpers (eb128tree.c)\<close>

definition eb128_compose_264 :: "64 word \<Rightarrow> 64 word \<Rightarrow> 128 word" where
  "eb128_compose_264 lo hi = push_bit 64 (ucast hi) OR ucast lo"

text \<open>
  \<^verbatim>\<open>return (a >= b)? a >= b : -1;\<close> The inner comparison is the \<^verbatim>\<open>int\<close> 1 or 0.
\<close>

definition eb128_cmp_264 :: "64 word \<Rightarrow> 64 word \<Rightarrow> 64 word \<Rightarrow> 64 word \<Rightarrow> int" where
  "eb128_cmp_264 alo ahi blo bhi =
     (let a = eb128_compose_264 alo ahi; b = eb128_compose_264 blo bhi
      in if a \<ge> b then (if a \<ge> b then 1 else 0) else -1)"

text \<open>
  The signed variant takes \<^verbatim>\<open>int64_t\<close> high halves, composes with the unsigned
  \<^verbatim>\<open>eb128_compose_264\<close> and compares the results as \<^verbatim>\<open>int128_t\<close>.
\<close>

definition eb128i_cmp_264 :: "64 word \<Rightarrow> 64 word \<Rightarrow> 64 word \<Rightarrow> 64 word \<Rightarrow> int" where
  "eb128i_cmp_264 alo ahi blo bhi =
     (let a = eb128_compose_264 alo ahi; b = eb128_compose_264 blo bhi
      in if sint a \<ge> sint b then (if sint a \<ge> sint b then 1 else 0) else -1)"

text \<open>
  A right shift of a 64-bit operand, as C defines it: the result is undefined
  (\<open>None\<close>) when the count is negative or not less than the width.
\<close>

definition shr64 :: "64 word \<Rightarrow> int \<Rightarrow> 64 word option" where
  "shr64 w n = (if 0 \<le> n \<and> n < 64 then Some (drop_bit (nat n) w) else None)"

text \<open>
  The side selection of \<^verbatim>\<open>eb128_insert\<close> and \<^verbatim>\<open>eb128i_insert\<close> where \<^verbatim>\<open>long\<close>
  has 64 bits (the \<^verbatim>\<open>#elif\<close> branch); \<^verbatim>\<open>side\<close> is a \<^verbatim>\<open>uint64_t\<close>.
\<close>

definition eb128_insert_side :: "128 word \<Rightarrow> int \<Rightarrow> 64 word option" where
  "eb128_insert_side newkey old_node_bit = do {
     let side = (ucast newkey :: 64 word);
     side \<leftarrow> shr64 side old_node_bit;
     side \<leftarrow> (if old_node_bit \<ge> 0x40
              then do {
                let side = (ucast (drop_bit 0x40 newkey) :: 64 word);
                shr64 side (old_node_bit AND 0x3FF)
              }
              else Some side);
     Some (side AND 1)
   }"

section \<open>Signed 32-bit keys (eb32tree.c)\<close>

text \<open>
  \<^verbatim>\<open>w >> n\<close> on an \<^verbatim>\<open>int\<close> operand, as gcc and clang compile it (an arithmetic
  shift) for counts from 0 to 31; for any other count the result comes from \<open>ub\<close>.
\<close>

definition sar32 :: "(32 word \<Rightarrow> int \<Rightarrow> 32 word) \<Rightarrow> 32 word \<Rightarrow> int \<Rightarrow> 32 word" where
  "sar32 ub w n = (if 0 \<le> n \<and> n < 32 then signed_drop_bit (nat n) w else ub w n)"

text \<open>
  \<^verbatim>\<open>eb32i_lookup\<close>: \<^verbatim>\<open>x\<close> is compared with the stored keys as it is, and
  \<^verbatim>\<open>key = x ^ 0x80000000\<close> selects the branches.
\<close>

partial_function (option) eb32i_lookup_loop ::
  "(32 word \<Rightarrow> int \<Rightarrow> 32 word) \<Rightarrow> 32 word eb_store \<Rightarrow> eb_troot \<Rightarrow> 32 word \<Rightarrow> 32 word \<Rightarrow> eb_root_ptr option" where
  "eb32i_lookup_loop ub s troot x key' =
     (if eb_gettag troot = EB_LEAF
      then do {
        let node = eb_untag troot EB_LEAF;
        k \<leftarrow> load_node s node key;
        if k = x then Some node else Some Null
      }
      else do {
        let node = eb_untag troot EB_NODE;
        node_bit \<leftarrow> load_node s node nbit;
        k \<leftarrow> load_node s node key;
        let y = k XOR x;
        if y = 0
        then (if node_bit < 0
              then do {
                troot \<leftarrow> load_b s node EB_LEFT;
                troot \<leftarrow> eb_descend s troot EB_LEFT;
                Some (eb_untag troot EB_LEAF)
              }
              else Some node)
        else if shr32 ub y node_bit \<ge> 2 then Some Null
        else do {
          troot \<leftarrow> load_b s node (shr32 ub key' node_bit AND 1 \<noteq> 0);
          eb32i_lookup_loop ub s troot x key'
        }
      })"

definition eb32i_lookup ::
  "(32 word \<Rightarrow> int \<Rightarrow> 32 word) \<Rightarrow> 32 word eb_store \<Rightarrow> eb_root_ptr \<Rightarrow> 32 word \<Rightarrow> eb_root_ptr option" where
  "eb32i_lookup ub s root x = do {
     troot \<leftarrow> load_b s root EB_LEFT;
     let key' = x XOR 0x80000000;
     if troot = NULL then Some Null else eb32i_lookup_loop ub s troot x key'
   }"

text \<open>
  \<^verbatim>\<open>eb32i_insert\<close>: the text of \<^verbatim>\<open>eb32_insert\<close> with \<^verbatim>\<open>int newkey = new->key + 0x80000000\<close>
  selecting the branches and the keys compared as \<^verbatim>\<open>int32_t\<close> in the last test.
\<close>

partial_function (option) eb32i_insert_descend ::
  "(32 word \<Rightarrow> int \<Rightarrow> 32 word) \<Rightarrow> ebtree \<Rightarrow> eb_root_ptr \<Rightarrow> 32 word \<Rightarrow> eb_root_ptr \<Rightarrow> bool \<Rightarrow> eb_troot
     \<Rightarrow> (ebtree \<times> eb_root_ptr \<times> up_ptr \<times> eb_root_ptr \<times> bool \<times> eb_troot) option" where
  "eb32i_insert_descend ub s new newkey root side troot =
     (if eb_gettag troot = EB_LEAF
      then do {
        let old = eb_untag troot EB_LEAF;
        olp \<leftarrow> load_node s old leaf_p;
        s \<leftarrow> store_node s new (\<lambda>n. n\<lparr>node_p := olp\<rparr>);
        Some (s, old, Leaf_p_of old, root, side, troot)
      }
      else do {
        let old = eb_untag troot EB_NODE;
        old_node_bit \<leftarrow> load_node s old nbit;
        nk \<leftarrow> load_node s new key;
        ok \<leftarrow> load_node s old key;
        if old_node_bit < 0 \<or> shr32 ub (nk XOR ok) old_node_bit \<ge> EB_NODE_BRANCHES
        then do {
          onp \<leftarrow> load_node s old node_p;
          s \<leftarrow> store_node s new (\<lambda>n. n\<lparr>node_p := onp\<rparr>);
          Some (s, old, Node_p_of old, root, side, troot)
        }
        else do {
          let root = old;
          let side = (sar32 ub newkey old_node_bit AND EB_NODE_BRANCH_MASK \<noteq> 0);
          troot \<leftarrow> load_b s root side;
          eb32i_insert_descend ub s new newkey root side troot
        }
      })"

definition eb32i_insert_link ::
  "ebtree \<Rightarrow> eb_root_ptr \<Rightarrow> eb_root_ptr \<Rightarrow> up_ptr \<Rightarrow> eb_root_ptr \<Rightarrow> bool \<Rightarrow> eb_troot
     \<Rightarrow> (ebtree \<times> eb_root_ptr) option" where
  "eb32i_insert_link s new old up root side troot = do {
     let new_left = eb_dotag new EB_LEFT;
     let new_rght = eb_dotag new EB_RGHT;
     let new_leaf = eb_dotag new EB_LEAF;
     nk \<leftarrow> load_node s new key;
     ok \<leftarrow> load_node s old key;
     s \<leftarrow> (if sint nk \<ge> sint ok
           then do {
             s \<leftarrow> store_b s new EB_LEFT troot;
             s \<leftarrow> store_b s new EB_RGHT new_leaf;
             s \<leftarrow> store_node s new (\<lambda>n. n\<lparr>leaf_p := new_rght\<rparr>);
             store_up s up new_left
           }
           else do {
             s \<leftarrow> store_b s new EB_LEFT new_leaf;
             s \<leftarrow> store_b s new EB_RGHT troot;
             s \<leftarrow> store_node s new (\<lambda>n. n\<lparr>leaf_p := new_left\<rparr>);
             store_up s up new_rght
           });
     s \<leftarrow> store_b s root side (eb_dotag new EB_NODE);
     Some (s, new)
   }"

definition eb32i_insert ::
  "(32 word \<Rightarrow> int \<Rightarrow> 32 word) \<Rightarrow> ebtree \<Rightarrow> eb_root_ptr \<Rightarrow> eb_root_ptr \<Rightarrow> (ebtree \<times> eb_root_ptr) option" where
  "eb32i_insert ub s root new = do {
     let side = EB_LEFT;
     troot \<leftarrow> load_b s root EB_LEFT;
     root_right \<leftarrow> load_b s root EB_RGHT;
     if troot = NULL
     then do {
       s \<leftarrow> store_b s root EB_LEFT (eb_dotag new EB_LEAF);
       s \<leftarrow> store_node s new (\<lambda>n. n\<lparr>leaf_p := eb_dotag root EB_LEFT\<rparr>);
       s \<leftarrow> store_node s new (\<lambda>n. n\<lparr>node_p := NULL\<rparr>);
       Some (s, new)
     }
     else do {
       nk \<leftarrow> load_node s new key;
       let newkey = nk + 0x80000000;
       (s, old, up, root, side, troot) \<leftarrow> eb32i_insert_descend ub s new newkey root side troot;
       nk \<leftarrow> load_node s new key;
       ok \<leftarrow> load_node s old key;
       s \<leftarrow> store_node s new (\<lambda>n. n\<lparr>nbit := flsnz (nk XOR ok) - EB_NODE_BITS\<rparr>);
       if nk = ok
       then do {
         s \<leftarrow> store_node s new (\<lambda>n. n\<lparr>nbit := -1\<rparr>);
         if eb_gettag root_right then Some (s, old)
         else if eb_gettag troot \<noteq> EB_LEAF then eb_insert_dup s old new
         else eb32i_insert_link s new old up root side troot
       }
       else eb32i_insert_link s new old up root side troot
     }
   }"


section \<open>64-bit keys (eb64tree.c)\<close>

text \<open>
  \<^verbatim>\<open>w >> n\<close> on an unsigned operand of any width: defined by C for counts from 0 to
  the width less one; for any other count the result comes from \<open>ub\<close>.
\<close>

definition shrw :: "('a::len word \<Rightarrow> int \<Rightarrow> 'a word) \<Rightarrow> 'a word \<Rightarrow> int \<Rightarrow> 'a word" where
  "shrw ub w n = (if 0 \<le> n \<and> n < int LENGTH('a) then drop_bit (nat n) w else ub w n)"

text \<open>
  \<^verbatim>\<open>fls64\<close> by its portable branch, which passes a half to \<^verbatim>\<open>flsnz\<close>. (The x86-64
  branch is the \<^verbatim>\<open>bsrq\<close> instruction, which gives the same index for a non-zero
  argument.)
\<close>

definition fls64 :: "64 word \<Rightarrow> int" where
  "fls64 x = (let h = (ucast (drop_bit 0x20 x) :: 32 word)
              in if h \<noteq> 0 then flsnz h + 0x20 else flsnz (ucast x))"

text \<open>\<^verbatim>\<open>eb64_lookup\<close> and \<^verbatim>\<open>eb64i_lookup\<close>, with \<^verbatim>\<open>key = x ^ (1ULL << 63)\<close>.\<close>

partial_function (option) eb64_lookup_loop ::
  "(64 word \<Rightarrow> int \<Rightarrow> 64 word) \<Rightarrow> 64 word eb_store \<Rightarrow> eb_troot \<Rightarrow> 64 word \<Rightarrow> eb_root_ptr option" where
  "eb64_lookup_loop ub s troot x =
     (if eb_gettag troot = EB_LEAF
      then do {
        let node = eb_untag troot EB_LEAF;
        k \<leftarrow> load_node s node key;
        if k = x then Some node else Some Null
      }
      else do {
        let node = eb_untag troot EB_NODE;
        node_bit \<leftarrow> load_node s node nbit;
        k \<leftarrow> load_node s node key;
        let y = k XOR x;
        if y = 0
        then (if node_bit < 0
              then do {
                troot \<leftarrow> load_b s node EB_LEFT;
                troot \<leftarrow> eb_descend s troot EB_LEFT;
                Some (eb_untag troot EB_LEAF)
              }
              else Some node)
        else if shrw ub y node_bit \<ge> 2 then Some Null
        else do {
          troot \<leftarrow> load_b s node (shrw ub x node_bit AND 1 \<noteq> 0);
          eb64_lookup_loop ub s troot x
        }
      })"

definition eb64_lookup ::
  "(64 word \<Rightarrow> int \<Rightarrow> 64 word) \<Rightarrow> 64 word eb_store \<Rightarrow> eb_root_ptr \<Rightarrow> 64 word \<Rightarrow> eb_root_ptr option" where
  "eb64_lookup ub s root x = do {
     troot \<leftarrow> load_b s root EB_LEFT;
     if troot = NULL then Some Null else eb64_lookup_loop ub s troot x
   }"

partial_function (option) eb64i_lookup_loop ::
  "(64 word \<Rightarrow> int \<Rightarrow> 64 word) \<Rightarrow> 64 word eb_store \<Rightarrow> eb_troot \<Rightarrow> 64 word \<Rightarrow> 64 word \<Rightarrow> eb_root_ptr option" where
  "eb64i_lookup_loop ub s troot x key' =
     (if eb_gettag troot = EB_LEAF
      then do {
        let node = eb_untag troot EB_LEAF;
        k \<leftarrow> load_node s node key;
        if k = x then Some node else Some Null
      }
      else do {
        let node = eb_untag troot EB_NODE;
        node_bit \<leftarrow> load_node s node nbit;
        k \<leftarrow> load_node s node key;
        let y = k XOR x;
        if y = 0
        then (if node_bit < 0
              then do {
                troot \<leftarrow> load_b s node EB_LEFT;
                troot \<leftarrow> eb_descend s troot EB_LEFT;
                Some (eb_untag troot EB_LEAF)
              }
              else Some node)
        else if shrw ub y node_bit \<ge> 2 then Some Null
        else do {
          troot \<leftarrow> load_b s node (shrw ub key' node_bit AND 1 \<noteq> 0);
          eb64i_lookup_loop ub s troot x key'
        }
      })"

definition eb64i_lookup ::
  "(64 word \<Rightarrow> int \<Rightarrow> 64 word) \<Rightarrow> 64 word eb_store \<Rightarrow> eb_root_ptr \<Rightarrow> 64 word \<Rightarrow> eb_root_ptr option" where
  "eb64i_lookup ub s root x = do {
     troot \<leftarrow> load_b s root EB_LEFT;
     let key' = x XOR push_bit 63 1;
     if troot = NULL then Some Null else eb64i_lookup_loop ub s troot x key'
   }"

text \<open>
  The loop of \<^verbatim>\<open>eb64_insert\<close> ends in a \<^verbatim>\<open>return\<close> or in a \<^verbatim>\<open>break\<close>, after
  which \<^verbatim>\<open>old\<close>, \<^verbatim>\<open>root\<close> and \<^verbatim>\<open>side\<close> are still used.
\<close>

datatype 'k ins_exit =
    Returned "'k eb_store" eb_root_ptr
  | Broke "'k eb_store" eb_root_ptr eb_root_ptr bool

text \<open>
  \<^verbatim>\<open>eb64_insert\<close> where \<^verbatim>\<open>long\<close> has 64 bits (the \<^verbatim>\<open>#if\<close> branch of the side
  selection). The keys are read once in each case: no store changes a key.
\<close>

partial_function (option) eb64_insert_loop ::
  "(64 word \<Rightarrow> int \<Rightarrow> 64 word) \<Rightarrow> 64 word eb_store \<Rightarrow> eb_root_ptr \<Rightarrow> 64 word \<Rightarrow> eb_root_ptr \<Rightarrow> bool
     \<Rightarrow> eb_troot \<Rightarrow> eb_troot \<Rightarrow> 64 word ins_exit option" where
  "eb64_insert_loop ub s new newkey root side root_right troot =
     (if eb_gettag troot = EB_LEAF
      then do {
        let old = eb_untag troot EB_LEAF;
        let new_left = eb_dotag new EB_LEFT;
        let new_rght = eb_dotag new EB_RGHT;
        let new_leaf = eb_dotag new EB_LEAF;
        let old_leaf = eb_dotag old EB_LEAF;
        olp \<leftarrow> load_node s old leaf_p;
        s \<leftarrow> store_node s new (\<lambda>n. n\<lparr>node_p := olp\<rparr>);
        nk \<leftarrow> load_node s new key;
        ok \<leftarrow> load_node s old key;
        if nk < ok
        then do {
          s \<leftarrow> store_node s new (\<lambda>n. n\<lparr>leaf_p := new_left\<rparr>);
          s \<leftarrow> store_node s old (\<lambda>n. n\<lparr>leaf_p := new_rght\<rparr>);
          s \<leftarrow> store_b s new EB_LEFT new_leaf;
          s \<leftarrow> store_b s new EB_RGHT old_leaf;
          Some (Broke s old root side)
        }
        else if nk = ok \<and> eb_gettag root_right then Some (Returned s old)
        else do {
          s \<leftarrow> store_node s old (\<lambda>n. n\<lparr>leaf_p := new_left\<rparr>);
          s \<leftarrow> store_node s new (\<lambda>n. n\<lparr>leaf_p := new_rght\<rparr>);
          s \<leftarrow> store_b s new EB_LEFT old_leaf;
          s \<leftarrow> store_b s new EB_RGHT new_leaf;
          if nk = ok
          then do {
            s \<leftarrow> store_node s new (\<lambda>n. n\<lparr>nbit := -1\<rparr>);
            s \<leftarrow> store_b s root side (eb_dotag new EB_NODE);
            Some (Returned s new)
          }
          else Some (Broke s old root side)
        }
      }
      else do {
        let old = eb_untag troot EB_NODE;
        old_node_bit \<leftarrow> load_node s old nbit;
        nk \<leftarrow> load_node s new key;
        ok \<leftarrow> load_node s old key;
        if old_node_bit < 0 \<or> shrw ub (nk XOR ok) old_node_bit \<ge> 2
        then do {
          let new_left = eb_dotag new EB_LEFT;
          let new_rght = eb_dotag new EB_RGHT;
          let new_leaf = eb_dotag new EB_LEAF;
          let old_node = eb_dotag old EB_NODE;
          onp \<leftarrow> load_node s old node_p;
          s \<leftarrow> store_node s new (\<lambda>n. n\<lparr>node_p := onp\<rparr>);
          if nk < ok
          then do {
            s \<leftarrow> store_node s new (\<lambda>n. n\<lparr>leaf_p := new_left\<rparr>);
            s \<leftarrow> store_node s old (\<lambda>n. n\<lparr>node_p := new_rght\<rparr>);
            s \<leftarrow> store_b s new EB_LEFT new_leaf;
            s \<leftarrow> store_b s new EB_RGHT old_node;
            Some (Broke s old root side)
          }
          else if nk > ok
          then do {
            s \<leftarrow> store_node s old (\<lambda>n. n\<lparr>node_p := new_left\<rparr>);
            s \<leftarrow> store_node s new (\<lambda>n. n\<lparr>leaf_p := new_rght\<rparr>);
            s \<leftarrow> store_b s new EB_LEFT old_node;
            s \<leftarrow> store_b s new EB_RGHT new_leaf;
            Some (Broke s old root side)
          }
          else do {
            (s, ret) \<leftarrow> eb_insert_dup s old new;
            Some (Returned s ret)
          }
        }
        else do {
          let root = old;
          let side = (shrw ub newkey old_node_bit AND 1 \<noteq> 0);
          troot \<leftarrow> load_b s root side;
          eb64_insert_loop ub s new newkey root side root_right troot
        }
      })"

definition eb64_insert ::
  "(64 word \<Rightarrow> int \<Rightarrow> 64 word) \<Rightarrow> 64 word eb_store \<Rightarrow> eb_root_ptr \<Rightarrow> eb_root_ptr
     \<Rightarrow> (64 word eb_store \<times> eb_root_ptr) option" where
  "eb64_insert ub s root new = do {
     let side = EB_LEFT;
     troot \<leftarrow> load_b s root EB_LEFT;
     root_right \<leftarrow> load_b s root EB_RGHT;
     if troot = NULL
     then do {
       s \<leftarrow> store_b s root EB_LEFT (eb_dotag new EB_LEAF);
       s \<leftarrow> store_node s new (\<lambda>n. n\<lparr>leaf_p := eb_dotag root EB_LEFT\<rparr>);
       s \<leftarrow> store_node s new (\<lambda>n. n\<lparr>node_p := NULL\<rparr>);
       Some (s, new)
     }
     else do {
       newkey \<leftarrow> load_node s new key;
       ex \<leftarrow> eb64_insert_loop ub s new newkey root side root_right troot;
       case ex of
         Returned s ret \<Rightarrow> Some (s, ret)
       | Broke s old root side \<Rightarrow> do {
           nk \<leftarrow> load_node s new key;
           ok \<leftarrow> load_node s old key;
           s \<leftarrow> store_node s new (\<lambda>n. n\<lparr>nbit := fls64 (nk XOR ok) - EB_NODE_BITS\<rparr>);
           s \<leftarrow> store_b s root side (eb_dotag new EB_NODE);
           Some (s, new)
         }
     }
   }"

text \<open>
  \<^verbatim>\<open>eb64i_insert\<close>: \<^verbatim>\<open>newkey = new->key ^ (1ULL << 63)\<close> selects the branches and
  the keys are ordered as \<^verbatim>\<open>int64_t\<close>.
\<close>

partial_function (option) eb64i_insert_loop ::
  "(64 word \<Rightarrow> int \<Rightarrow> 64 word) \<Rightarrow> 64 word eb_store \<Rightarrow> eb_root_ptr \<Rightarrow> 64 word \<Rightarrow> eb_root_ptr \<Rightarrow> bool
     \<Rightarrow> eb_troot \<Rightarrow> eb_troot \<Rightarrow> 64 word ins_exit option" where
  "eb64i_insert_loop ub s new newkey root side root_right troot =
     (if eb_gettag troot = EB_LEAF
      then do {
        let old = eb_untag troot EB_LEAF;
        let new_left = eb_dotag new EB_LEFT;
        let new_rght = eb_dotag new EB_RGHT;
        let new_leaf = eb_dotag new EB_LEAF;
        let old_leaf = eb_dotag old EB_LEAF;
        olp \<leftarrow> load_node s old leaf_p;
        s \<leftarrow> store_node s new (\<lambda>n. n\<lparr>node_p := olp\<rparr>);
        nk \<leftarrow> load_node s new key;
        ok \<leftarrow> load_node s old key;
        if sint nk < sint ok
        then do {
          s \<leftarrow> store_node s new (\<lambda>n. n\<lparr>leaf_p := new_left\<rparr>);
          s \<leftarrow> store_node s old (\<lambda>n. n\<lparr>leaf_p := new_rght\<rparr>);
          s \<leftarrow> store_b s new EB_LEFT new_leaf;
          s \<leftarrow> store_b s new EB_RGHT old_leaf;
          Some (Broke s old root side)
        }
        else if nk = ok \<and> eb_gettag root_right then Some (Returned s old)
        else do {
          s \<leftarrow> store_node s old (\<lambda>n. n\<lparr>leaf_p := new_left\<rparr>);
          s \<leftarrow> store_node s new (\<lambda>n. n\<lparr>leaf_p := new_rght\<rparr>);
          s \<leftarrow> store_b s new EB_LEFT old_leaf;
          s \<leftarrow> store_b s new EB_RGHT new_leaf;
          if nk = ok
          then do {
            s \<leftarrow> store_node s new (\<lambda>n. n\<lparr>nbit := -1\<rparr>);
            s \<leftarrow> store_b s root side (eb_dotag new EB_NODE);
            Some (Returned s new)
          }
          else Some (Broke s old root side)
        }
      }
      else do {
        let old = eb_untag troot EB_NODE;
        old_node_bit \<leftarrow> load_node s old nbit;
        nk \<leftarrow> load_node s new key;
        ok \<leftarrow> load_node s old key;
        if old_node_bit < 0 \<or> shrw ub (nk XOR ok) old_node_bit \<ge> 2
        then do {
          let new_left = eb_dotag new EB_LEFT;
          let new_rght = eb_dotag new EB_RGHT;
          let new_leaf = eb_dotag new EB_LEAF;
          let old_node = eb_dotag old EB_NODE;
          onp \<leftarrow> load_node s old node_p;
          s \<leftarrow> store_node s new (\<lambda>n. n\<lparr>node_p := onp\<rparr>);
          if sint nk < sint ok
          then do {
            s \<leftarrow> store_node s new (\<lambda>n. n\<lparr>leaf_p := new_left\<rparr>);
            s \<leftarrow> store_node s old (\<lambda>n. n\<lparr>node_p := new_rght\<rparr>);
            s \<leftarrow> store_b s new EB_LEFT new_leaf;
            s \<leftarrow> store_b s new EB_RGHT old_node;
            Some (Broke s old root side)
          }
          else if sint nk > sint ok
          then do {
            s \<leftarrow> store_node s old (\<lambda>n. n\<lparr>node_p := new_left\<rparr>);
            s \<leftarrow> store_node s new (\<lambda>n. n\<lparr>leaf_p := new_rght\<rparr>);
            s \<leftarrow> store_b s new EB_LEFT old_node;
            s \<leftarrow> store_b s new EB_RGHT new_leaf;
            Some (Broke s old root side)
          }
          else do {
            (s, ret) \<leftarrow> eb_insert_dup s old new;
            Some (Returned s ret)
          }
        }
        else do {
          let root = old;
          let side = (shrw ub newkey old_node_bit AND 1 \<noteq> 0);
          troot \<leftarrow> load_b s root side;
          eb64i_insert_loop ub s new newkey root side root_right troot
        }
      })"

definition eb64i_insert ::
  "(64 word \<Rightarrow> int \<Rightarrow> 64 word) \<Rightarrow> 64 word eb_store \<Rightarrow> eb_root_ptr \<Rightarrow> eb_root_ptr
     \<Rightarrow> (64 word eb_store \<times> eb_root_ptr) option" where
  "eb64i_insert ub s root new = do {
     let side = EB_LEFT;
     troot \<leftarrow> load_b s root EB_LEFT;
     root_right \<leftarrow> load_b s root EB_RGHT;
     if troot = NULL
     then do {
       s \<leftarrow> store_b s root EB_LEFT (eb_dotag new EB_LEAF);
       s \<leftarrow> store_node s new (\<lambda>n. n\<lparr>leaf_p := eb_dotag root EB_LEFT\<rparr>);
       s \<leftarrow> store_node s new (\<lambda>n. n\<lparr>node_p := NULL\<rparr>);
       Some (s, new)
     }
     else do {
       nk \<leftarrow> load_node s new key;
       let newkey = nk XOR push_bit 63 1;
       ex \<leftarrow> eb64i_insert_loop ub s new newkey root side root_right troot;
       case ex of
         Returned s ret \<Rightarrow> Some (s, ret)
       | Broke s old root side \<Rightarrow> do {
           nk \<leftarrow> load_node s new key;
           ok \<leftarrow> load_node s old key;
           s \<leftarrow> store_node s new (\<lambda>n. n\<lparr>nbit := fls64 (nk XOR ok) - EB_NODE_BITS\<rparr>);
           s \<leftarrow> store_b s root side (eb_dotag new EB_NODE);
           Some (s, new)
         }
     }
   }"

section \<open>128-bit keys (eb128tree.c)\<close>

text \<open>\<^verbatim>\<open>fls128\<close>.\<close>

definition fls128 :: "128 word \<Rightarrow> int" where
  "fls128 x = (let h = (ucast (drop_bit 0x40 x) :: 64 word)
               in if h \<noteq> 0 then fls64 h + 0x40 else fls64 (ucast x))"

text \<open>
  \<^verbatim>\<open>eb128_lookup\<close> and \<^verbatim>\<open>eb128i_lookup\<close>, with
  \<^verbatim>\<open>key = x ^ (((int128_t) 1) << 0x7F)\<close>.
\<close>

partial_function (option) eb128_lookup_loop ::
  "(128 word \<Rightarrow> int \<Rightarrow> 128 word) \<Rightarrow> 128 word eb_store \<Rightarrow> eb_troot \<Rightarrow> 128 word \<Rightarrow> eb_root_ptr option" where
  "eb128_lookup_loop ub s troot x =
     (if eb_gettag troot = EB_LEAF
      then do {
        let node = eb_untag troot EB_LEAF;
        k \<leftarrow> load_node s node key;
        if k = x then Some node else Some Null
      }
      else do {
        let node = eb_untag troot EB_NODE;
        node_bit \<leftarrow> load_node s node nbit;
        k \<leftarrow> load_node s node key;
        let y = k XOR x;
        if y = 0
        then (if node_bit < 0
              then do {
                troot \<leftarrow> load_b s node EB_LEFT;
                troot \<leftarrow> eb_descend s troot EB_LEFT;
                Some (eb_untag troot EB_LEAF)
              }
              else Some node)
        else if shrw ub y node_bit \<ge> 2 then Some Null
        else do {
          troot \<leftarrow> load_b s node (shrw ub x node_bit AND 1 \<noteq> 0);
          eb128_lookup_loop ub s troot x
        }
      })"

definition eb128_lookup ::
  "(128 word \<Rightarrow> int \<Rightarrow> 128 word) \<Rightarrow> 128 word eb_store \<Rightarrow> eb_root_ptr \<Rightarrow> 128 word \<Rightarrow> eb_root_ptr option" where
  "eb128_lookup ub s root x = do {
     troot \<leftarrow> load_b s root EB_LEFT;
     if troot = NULL then Some Null else eb128_lookup_loop ub s troot x
   }"

partial_function (option) eb128i_lookup_loop ::
  "(128 word \<Rightarrow> int \<Rightarrow> 128 word) \<Rightarrow> 128 word eb_store \<Rightarrow> eb_troot \<Rightarrow> 128 word \<Rightarrow> 128 word \<Rightarrow> eb_root_ptr option" where
  "eb128i_lookup_loop ub s troot x key' =
     (if eb_gettag troot = EB_LEAF
      then do {
        let node = eb_untag troot EB_LEAF;
        k \<leftarrow> load_node s node key;
        if k = x then Some node else Some Null
      }
      else do {
        let node = eb_untag troot EB_NODE;
        node_bit \<leftarrow> load_node s node nbit;
        k \<leftarrow> load_node s node key;
        let y = k XOR x;
        if y = 0
        then (if node_bit < 0
              then do {
                troot \<leftarrow> load_b s node EB_LEFT;
                troot \<leftarrow> eb_descend s troot EB_LEFT;
                Some (eb_untag troot EB_LEAF)
              }
              else Some node)
        else if shrw ub y node_bit \<ge> 2 then Some Null
        else do {
          troot \<leftarrow> load_b s node (shrw ub key' node_bit AND 1 \<noteq> 0);
          eb128i_lookup_loop ub s troot x key'
        }
      })"

definition eb128i_lookup ::
  "(128 word \<Rightarrow> int \<Rightarrow> 128 word) \<Rightarrow> 128 word eb_store \<Rightarrow> eb_root_ptr \<Rightarrow> 128 word \<Rightarrow> eb_root_ptr option" where
  "eb128i_lookup ub s root x = do {
     troot \<leftarrow> load_b s root EB_LEFT;
     let key' = x XOR push_bit 0x7F 1;
     if troot = NULL then Some Null else eb128i_lookup_loop ub s troot x key'
   }"



text \<open>
  \<^verbatim>\<open>eb128i_insert\<close>: \<^verbatim>\<open>newkey = new->key ^ ((int128_t) 1 << 127)\<close> and the keys
  ordered as \<^verbatim>\<open>int128_t\<close>.
\<close>

partial_function (option) eb128i_insert_loop ::
  "(128 word \<Rightarrow> int \<Rightarrow> 128 word) \<Rightarrow> 128 word eb_store \<Rightarrow> eb_root_ptr \<Rightarrow> 128 word \<Rightarrow> eb_root_ptr \<Rightarrow> bool
     \<Rightarrow> eb_troot \<Rightarrow> eb_troot \<Rightarrow> 128 word ins_exit option" where
  "eb128i_insert_loop ub s new newkey root side root_right troot =
     (if eb_gettag troot = EB_LEAF
      then do {
        let old = eb_untag troot EB_LEAF;
        let new_left = eb_dotag new EB_LEFT;
        let new_rght = eb_dotag new EB_RGHT;
        let new_leaf = eb_dotag new EB_LEAF;
        let old_leaf = eb_dotag old EB_LEAF;
        olp \<leftarrow> load_node s old leaf_p;
        s \<leftarrow> store_node s new (\<lambda>n. n\<lparr>node_p := olp\<rparr>);
        nk \<leftarrow> load_node s new key;
        ok \<leftarrow> load_node s old key;
        if sint nk < sint ok
        then do {
          s \<leftarrow> store_node s new (\<lambda>n. n\<lparr>leaf_p := new_left\<rparr>);
          s \<leftarrow> store_node s old (\<lambda>n. n\<lparr>leaf_p := new_rght\<rparr>);
          s \<leftarrow> store_b s new EB_LEFT new_leaf;
          s \<leftarrow> store_b s new EB_RGHT old_leaf;
          Some (Broke s old root side)
        }
        else if nk = ok \<and> eb_gettag root_right then Some (Returned s old)
        else do {
          s \<leftarrow> store_node s old (\<lambda>n. n\<lparr>leaf_p := new_left\<rparr>);
          s \<leftarrow> store_node s new (\<lambda>n. n\<lparr>leaf_p := new_rght\<rparr>);
          s \<leftarrow> store_b s new EB_LEFT old_leaf;
          s \<leftarrow> store_b s new EB_RGHT new_leaf;
          if nk = ok
          then do {
            s \<leftarrow> store_node s new (\<lambda>n. n\<lparr>nbit := -1\<rparr>);
            s \<leftarrow> store_b s root side (eb_dotag new EB_NODE);
            Some (Returned s new)
          }
          else Some (Broke s old root side)
        }
      }
      else do {
        let old = eb_untag troot EB_NODE;
        old_node_bit \<leftarrow> load_node s old nbit;
        nk \<leftarrow> load_node s new key;
        ok \<leftarrow> load_node s old key;
        if old_node_bit < 0 \<or> shrw ub (nk XOR ok) old_node_bit \<ge> 2
        then do {
          let new_left = eb_dotag new EB_LEFT;
          let new_rght = eb_dotag new EB_RGHT;
          let new_leaf = eb_dotag new EB_LEAF;
          let old_node = eb_dotag old EB_NODE;
          onp \<leftarrow> load_node s old node_p;
          s \<leftarrow> store_node s new (\<lambda>n. n\<lparr>node_p := onp\<rparr>);
          if sint nk < sint ok
          then do {
            s \<leftarrow> store_node s new (\<lambda>n. n\<lparr>leaf_p := new_left\<rparr>);
            s \<leftarrow> store_node s old (\<lambda>n. n\<lparr>node_p := new_rght\<rparr>);
            s \<leftarrow> store_b s new EB_LEFT new_leaf;
            s \<leftarrow> store_b s new EB_RGHT old_node;
            Some (Broke s old root side)
          }
          else if sint nk > sint ok
          then do {
            s \<leftarrow> store_node s old (\<lambda>n. n\<lparr>node_p := new_left\<rparr>);
            s \<leftarrow> store_node s new (\<lambda>n. n\<lparr>leaf_p := new_rght\<rparr>);
            s \<leftarrow> store_b s new EB_LEFT old_node;
            s \<leftarrow> store_b s new EB_RGHT new_leaf;
            Some (Broke s old root side)
          }
          else do {
            (s, ret) \<leftarrow> eb_insert_dup s old new;
            Some (Returned s ret)
          }
        }
        else do {
          let root = old;
          sd \<leftarrow> eb128_insert_side newkey old_node_bit;
          let side = (sd \<noteq> 0);
          troot \<leftarrow> load_b s root side;
          eb128i_insert_loop ub s new newkey root side root_right troot
        }
      })"

definition eb128i_insert ::
  "(128 word \<Rightarrow> int \<Rightarrow> 128 word) \<Rightarrow> 128 word eb_store \<Rightarrow> eb_root_ptr \<Rightarrow> eb_root_ptr
     \<Rightarrow> (128 word eb_store \<times> eb_root_ptr) option" where
  "eb128i_insert ub s root new = do {
     let side = EB_LEFT;
     troot \<leftarrow> load_b s root EB_LEFT;
     root_right \<leftarrow> load_b s root EB_RGHT;
     if troot = NULL
     then do {
       s \<leftarrow> store_b s root EB_LEFT (eb_dotag new EB_LEAF);
       s \<leftarrow> store_node s new (\<lambda>n. n\<lparr>leaf_p := eb_dotag root EB_LEFT\<rparr>);
       s \<leftarrow> store_node s new (\<lambda>n. n\<lparr>node_p := NULL\<rparr>);
       Some (s, new)
     }
     else do {
       nk \<leftarrow> load_node s new key;
       let newkey = nk XOR push_bit 127 1;
       ex \<leftarrow> eb128i_insert_loop ub s new newkey root side root_right troot;
       case ex of
         Returned s ret \<Rightarrow> Some (s, ret)
       | Broke s old root side \<Rightarrow> do {
           nk \<leftarrow> load_node s new key;
           ok \<leftarrow> load_node s old key;
           s \<leftarrow> store_node s new (\<lambda>n. n\<lparr>nbit := fls128 (nk XOR ok) - EB_NODE_BITS\<rparr>);
           s \<leftarrow> store_b s root side (eb_dotag new EB_NODE);
           Some (s, new)
         }
     }
   }"

section \<open>Initial trees\<close>

text \<open>\<^verbatim>\<open>EB_ROOT\<close> and \<^verbatim>\<open>EB_ROOT_UNIQUE\<close>: both branches null, the right one tagged
  when the tree holds unique keys.\<close>

definition EB_ROOT :: "bool \<Rightarrow> eb_troot" where
  "EB_ROOT = (\<lambda>side. NULL)"

definition EB_ROOT_UNIQUE :: "bool \<Rightarrow> eb_troot" where
  "EB_ROOT_UNIQUE = (\<lambda>side. if side = EB_RGHT then (Null, True) else NULL)"

text \<open>A cell of zeroed memory, and a store holding an empty tree and zeroed cells.\<close>

definition zero_node :: "'k::zero eb_cell" where
  "zero_node = \<lparr>branches = (\<lambda>side. NULL), node_p = NULL, leaf_p = NULL, nbit = 0, key = 0\<rparr>"

definition eb_init :: "bool \<Rightarrow> 'k::zero eb_store" where
  "eb_init unique = \<lparr>eb_root = (if unique then EB_ROOT_UNIQUE else EB_ROOT), cells = (\<lambda>c. zero_node)\<rparr>"

section \<open>The tree a store holds\<close>

text \<open>
  The shape of a tree: a leaf is the leaf part of a cell, a node the node part of a
  cell with its two branches. Cells are named by their index in the store.
\<close>

datatype tree = Leaf nat | Node nat tree tree

text \<open>
  The leaf cells from left to right, and the node cells.
\<close>

fun leaves :: "tree \<Rightarrow> nat list" where
  "leaves (Leaf c) = [c]"
| "leaves (Node c l r) = leaves l @ leaves r"

fun nodes :: "tree \<Rightarrow> nat list" where
  "nodes (Leaf c) = []"
| "nodes (Node c l r) = c # nodes l @ nodes r"

text \<open>
  The tagged pointer to the top of a tree.
\<close>

fun tree_ref :: "tree \<Rightarrow> eb_troot" where
  "tree_ref (Leaf c) = (Branches c, EB_LEAF)"
| "tree_ref (Node c l r) = (Branches c, EB_NODE)"

text \<open>
  A slot is a branch of the root or of a cell, named by the tagged pointer that a
  \<^verbatim>\<open>leaf_p\<close> or \<^verbatim>\<open>node_p\<close> below it holds: \<open>slot_val\<close> reads the slot.
\<close>

definition slot_val :: "'k eb_store \<Rightarrow> eb_troot \<Rightarrow> eb_troot" where
  "slot_val s sl =
     (case fst sl of Null \<Rightarrow> NULL
      | Root \<Rightarrow> eb_root s (snd sl)
      | Branches c \<Rightarrow> branches (cells s c) (snd sl))"

text \<open>
  The parent pointer of the top of a tree.
\<close>

fun up_of :: "'k eb_store \<Rightarrow> tree \<Rightarrow> eb_troot" where
  "up_of s (Leaf c) = leaf_p (cells s c)"
| "up_of s (Node c l r) = node_p (cells s c)"

text \<open>
  The store holds tree \<open>t\<close> in slot \<open>sl\<close>: every branch points to the child and every
  \<^verbatim>\<open>leaf_p\<close> and \<^verbatim>\<open>node_p\<close> points back to the slot.
\<close>

fun repr :: "'k eb_store \<Rightarrow> eb_troot \<Rightarrow> tree \<Rightarrow> bool" where
  "repr s sl (Leaf c) = (slot_val s sl = (Branches c, EB_LEAF) \<and> leaf_p (cells s c) = sl)"
| "repr s sl (Node c l r) =
     (slot_val s sl = (Branches c, EB_NODE) \<and> node_p (cells s c) = sl
      \<and> repr s (Branches c, EB_LEFT) l \<and> repr s (Branches c, EB_RGHT) r)"

fun root_id :: "tree \<Rightarrow> nat" where
  "root_id (Leaf c) = c"
| "root_id (Node c l r) = c"

text \<open>
  The element that follows \<open>c\<close> in a list.
\<close>

fun succ_in :: "nat list \<Rightarrow> nat \<Rightarrow> nat option" where
  "succ_in [] c = None"
| "succ_in [x] c = None"
| "succ_in (x # y # ys) c = (if x = c then Some y else succ_in (y # ys) c)"

text \<open>
  The sub-tree that hangs in slot \<open>sl\<close> of the tree in slot \<open>sl0\<close>, and the tree
  with that sub-tree replaced by its image under \<open>g\<close>.
\<close>

fun subtree_at :: "eb_troot \<Rightarrow> tree \<Rightarrow> eb_troot \<Rightarrow> tree option" where
  "subtree_at sl0 (Leaf c) sl = (if sl = sl0 then Some (Leaf c) else None)"
| "subtree_at sl0 (Node c l r) sl =
     (if sl = sl0 then Some (Node c l r)
      else case subtree_at (Branches c, EB_LEFT) l sl of
             Some x \<Rightarrow> Some x
           | None \<Rightarrow> subtree_at (Branches c, EB_RGHT) r sl)"

fun graft :: "eb_troot \<Rightarrow> tree \<Rightarrow> eb_troot \<Rightarrow> (tree \<Rightarrow> tree) \<Rightarrow> tree" where
  "graft sl0 (Leaf c) sl g = (if sl = sl0 then g (Leaf c) else Leaf c)"
| "graft sl0 (Node c l r) sl g =
     (if sl = sl0 then g (Node c l r)
      else case subtree_at (Branches c, EB_LEFT) l sl of
             Some x \<Rightarrow> Node c (graft (Branches c, EB_LEFT) l sl g) r
           | None \<Rightarrow> Node c l (graft (Branches c, EB_RGHT) r sl g))"

section \<open>Stores after a write\<close>

text \<open>
  A write to a cell, to a slot, and to the parent pointer of the top of a tree.
\<close>

definition upd_cell :: "'k eb_store \<Rightarrow> nat \<Rightarrow> ('k eb_cell \<Rightarrow> 'k eb_cell) \<Rightarrow> 'k eb_store" where
  "upd_cell s c f = s\<lparr>cells := (cells s)(c := f (cells s c))\<rparr>"

definition upd_slot :: "'k eb_store \<Rightarrow> eb_troot \<Rightarrow> eb_troot \<Rightarrow> 'k eb_store" where
  "upd_slot s sl v =
     (case fst sl of Null \<Rightarrow> s
      | Root \<Rightarrow> s\<lparr>eb_root := (eb_root s)(snd sl := v)\<rparr>
      | Branches c \<Rightarrow> upd_cell s c (\<lambda>n. n\<lparr>branches := (branches n)(snd sl := v)\<rparr>))"

text \<open>
  The nodes and leaves strictly below the top.
\<close>

fun inner_nodes :: "tree \<Rightarrow> nat list" where
  "inner_nodes (Leaf c) = []"
| "inner_nodes (Node c l r) = nodes l @ nodes r"

fun inner_leaves :: "tree \<Rightarrow> nat list" where
  "inner_leaves (Leaf c) = []"
| "inner_leaves (Node c l r) = leaves l @ leaves r"

fun up_ptr_of :: "tree \<Rightarrow> up_ptr" where
  "up_ptr_of (Leaf c) = Leaf_p_of (Branches c)"
| "up_ptr_of (Node c l r) = Node_p_of (Branches c)"

text \<open>
  The slot and sub-tree where the descent of \<^verbatim>\<open>eb32_insert\<close> for key \<open>k\<close> stops.
\<close>

fun ins_pos :: "(32 word \<Rightarrow> int \<Rightarrow> 32 word) \<Rightarrow> ebtree \<Rightarrow> 32 word \<Rightarrow> eb_troot \<Rightarrow> tree \<Rightarrow> eb_troot \<times> tree" where
  "ins_pos ub s k sl (Leaf c) = (sl, Leaf c)"
| "ins_pos ub s k sl (Node c l r) =
     (if nbit (cells s c) < 0 \<or> shr32 ub (k XOR key (cells s c)) (nbit (cells s c)) \<ge> 2
      then (sl, Node c l r)
      else if shr32 ub k (nbit (cells s c)) AND 1 \<noteq> 0
      then ins_pos ub s k (Branches c, EB_RGHT) r
      else ins_pos ub s k (Branches c, EB_LEFT) l)"

fun upd_up :: "'k eb_store \<Rightarrow> tree \<Rightarrow> eb_troot \<Rightarrow> 'k eb_store" where
  "upd_up s (Leaf c) v = upd_cell s c (\<lambda>n. n\<lparr>leaf_p := v\<rparr>)"
| "upd_up s (Node c l r) v = upd_cell s c (\<lambda>n. n\<lparr>node_p := v\<rparr>)"

text \<open>
  The store after \<^verbatim>\<open>eb32_insert\<close> or \<^verbatim>\<open>eb_insert_dup\<close> has linked \<open>new\<close> above
  \<open>sub\<close> in slot \<open>sl\<close>, its leaf on side \<open>ns\<close>; and the tree with the new node.
\<close>

definition linked :: "'k eb_store \<Rightarrow> nat \<Rightarrow> tree \<Rightarrow> eb_troot \<Rightarrow> bool \<Rightarrow> 'k eb_store" where
  "linked s new sub sl ns =
     upd_slot (upd_up (upd_cell s new
        (\<lambda>n. n\<lparr>branches := (\<lambda>sd. if sd = ns then (Branches new, EB_LEAF) else tree_ref sub),
                leaf_p := (Branches new, ns)\<rparr>)) sub (Branches new, \<not> ns)) sl (Branches new, EB_NODE)"

definition above_new :: "nat \<Rightarrow> bool \<Rightarrow> tree \<Rightarrow> tree" where
  "above_new new ns t = (if ns then Node new t (Leaf new) else Node new (Leaf new) t)"

text \<open>
  The sub-trees along the right branches, with their slots; \<open>dup_hole\<close> follows the
  first loop of \<^verbatim>\<open>eb_insert_dup\<close> on the tree.
\<close>

fun rspine :: "eb_troot \<Rightarrow> tree \<Rightarrow> (eb_troot \<times> tree) list" where
  "rspine sl (Leaf c) = [(sl, Leaf c)]"
| "rspine sl (Node c l r) = (sl, Node c l r) # rspine (Branches c, EB_RGHT) r"

fun dup_hole :: "'k eb_store \<Rightarrow> tree \<Rightarrow> nat \<Rightarrow> nat \<times> nat" where
  "dup_hole s (Leaf x) sb = (x, sb)"
| "dup_hole s (Node h l (Leaf x)) sb = (h, sb)"
| "dup_hole s (Node h l (Node h' l' r')) sb =
     dup_hole s (Node h' l' r') (if nbit (cells s h') > nbit (cells s h) + 1 then h' else sb)"

fun is_leaf :: "tree \<Rightarrow> bool" where
  "is_leaf (Leaf c) = True"
| "is_leaf (Node c l r) = False"

text \<open>
  The stores of \<^verbatim>\<open>eb_delete\<close>: after the parent \<open>p\<close> of the removed leaf has been
  replaced by the sibling \<open>sibt\<close>, and after \<open>p\<close> has taken the place of the node of
  the removed cell \<open>c\<close>.
\<close>

definition spliced :: "'k eb_store \<Rightarrow> nat \<Rightarrow> tree \<Rightarrow> eb_troot \<Rightarrow> 'k eb_store" where
  "spliced s p sibt slp =
     upd_cell (upd_up (upd_slot s slp (tree_ref sibt)) sibt slp) p (\<lambda>n. n\<lparr>node_p := NULL\<rparr>)"

definition moved :: "'k eb_store \<Rightarrow> nat \<Rightarrow> nat \<Rightarrow> tree \<Rightarrow> tree \<Rightarrow> eb_troot \<Rightarrow> 'k eb_store" where
  "moved s c p lc rc slc =
     upd_up (upd_up (upd_slot (upd_cell s p
        (\<lambda>n. n\<lparr>node_p := slc, branches := branches (cells s c), nbit := nbit (cells s c)\<rparr>))
        slc (Branches p, EB_NODE)) lc (Branches p, EB_LEFT)) rc (Branches p, EB_RGHT)"

text \<open>
  The tree operations of \<^verbatim>\<open>eb_delete\<close>: keep the sibling of leaf \<open>c\<close>; give the
  top node to cell \<open>p\<close>.
\<close>

fun sibling_of :: "nat \<Rightarrow> tree \<Rightarrow> tree" where
  "sibling_of c (Leaf x) = Leaf x"
| "sibling_of c (Node d l r) = (if l = Leaf c then r else l)"

fun renamed :: "nat \<Rightarrow> tree \<Rightarrow> tree" where
  "renamed p (Leaf x) = Leaf x"
| "renamed p (Node d l r) = Node p l r"

text \<open>
  The loop invariant of \<open>flsnz\<close>.
\<close>

definition fls_inv :: "nat \<Rightarrow> nat \<Rightarrow> 32 word \<times> int \<Rightarrow> bool" where
  "fls_inv D h xr =
     (bit (fst xr) h \<and> 0 \<le> snd xr
      \<and> (\<forall>n. bit (fst xr) n \<longrightarrow> n \<le> h \<and> (n div D) * D = nat (snd xr)))"

fun node_above :: "tree \<Rightarrow> bool" where
  "node_above (Leaf c) = True"
| "node_above (Node d l r) = (d \<in> set (leaves l) \<union> set (leaves r) \<and> node_above l \<and> node_above r)"

text \<open>
  The keys below a node. With a negative bit all keys below are the key of the
  node's cell (duplicates). Otherwise the keys below agree with it above the bit, and
  the bit is clear in the left branch and set in the right one.
\<close>

definition node_ok :: "'a::len word eb_store \<Rightarrow> nat \<Rightarrow> nat list \<Rightarrow> nat list \<Rightarrow> bool" where
  "node_ok s d ls rs =
     (if nbit (cells s d) < 0
      then (\<forall>x \<in> set ls \<union> set rs. key (cells s x) = key (cells s d))
      else nbit (cells s d) < int LENGTH('a)
        \<and> (\<forall>x \<in> set ls. \<not> bit (key (cells s x)) (nat (nbit (cells s d))))
        \<and> (\<forall>x \<in> set rs. bit (key (cells s x)) (nat (nbit (cells s d))))
        \<and> (\<forall>x \<in> set ls \<union> set rs.
              drop_bit (Suc (nat (nbit (cells s d)))) (key (cells s x))
              = drop_bit (Suc (nat (nbit (cells s d)))) (key (cells s d))))"

fun radix :: "'a::len word eb_store \<Rightarrow> tree \<Rightarrow> bool" where
  "radix s (Leaf c) = True"
| "radix s (Node d l r) = (node_ok s d (leaves l) (leaves r) \<and> radix s l \<and> radix s r)"

definition tree_inv :: "'a::len word eb_store \<Rightarrow> tree \<Rightarrow> bool" where
  "tree_inv s t =
     (repr s (Root, False) t \<and> distinct (leaves t) \<and> distinct (nodes t)
      \<and> node_above t \<and> radix s t
      \<and> (\<forall>c. c \<notin> set (leaves t) \<longrightarrow> leaf_p (cells s c) = NULL)
      \<and> (\<forall>c. c \<in> set (leaves t) \<longrightarrow> c \<notin> set (nodes t) \<longrightarrow> node_p (cells s c) = NULL)
      \<and> fst (eb_root s True) = Null)"

definition inv_empty :: "'k eb_store \<Rightarrow> bool" where
  "inv_empty s =
     (eb_root s False = NULL \<and> fst (eb_root s True) = Null
      \<and> (\<forall>c. leaf_p (cells s c) = NULL))"

text \<open>
  The leaves after an insertion of \<open>new\<close>: among the cells of each key the order is
  kept and \<open>new\<close> comes last among those of its key.
\<close>

definition ins_leaves :: "'a::len word eb_store \<Rightarrow> nat \<Rightarrow> nat list \<Rightarrow> nat list \<Rightarrow> bool" where
  "ins_leaves s new xs ys =
     (\<forall>k. filter (\<lambda>c. key (cells s c) = k) ys =
          filter (\<lambda>c. key (cells s c) = k) xs @ (if key (cells s new) = k then [new] else []))"

section \<open>Reachable stores\<close>

text \<open>
  The stores reached from an empty tree by insertions and deletions, with the log of
  the linked cells in the order of their insertion. An insertion takes a cell that
  is not linked, with any contents (its key among them) and a null \<^verbatim>\<open>leaf_p\<close>; the
  cell enters the log when \<^verbatim>\<open>eb32_insert\<close> returns it. A deletion removes the cell
  from the log.
\<close>

inductive eb_reach :: "(32 word \<Rightarrow> int \<Rightarrow> 32 word) \<Rightarrow> ebtree \<Rightarrow> nat list \<Rightarrow> bool"
  for ub :: "32 word \<Rightarrow> int \<Rightarrow> 32 word" where
  reach_init: "eb_reach ub (eb_init unique) []"
| reach_insert:
    "eb_reach ub s lg \<Longrightarrow> leaf_p (cells s c) = NULL \<Longrightarrow> leaf_p n = NULL \<Longrightarrow>
     eb32_insert ub (s\<lparr>cells := (cells s)(c := n)\<rparr>) Root (Branches c) = Some (s', r) \<Longrightarrow>
     eb_reach ub s' (if r = Branches c then lg @ [c] else lg)"
| reach_delete:
    "eb_reach ub s lg \<Longrightarrow> eb_delete s (Branches c) = Some s' \<Longrightarrow>
     eb_reach ub s' (removeAll c lg)"

text \<open>
  The cells of a list that hold key \<open>k\<close>.
\<close>

definition keyed :: "'k eb_store \<Rightarrow> 'k \<Rightarrow> nat list \<Rightarrow> nat list" where
  "keyed s k xs = filter (\<lambda>c. key (cells s c) = k) xs"

text \<open>
  What holds of a reachable store and its log: the tree, in which the cells of each
  key stand in the order of the log; and no key twice when the root is tagged
  unique.
\<close>

definition reach_inv :: "'a::len word eb_store \<Rightarrow> nat list \<Rightarrow> bool" where
  "reach_inv s lg =
     ((if lg = [] then inv_empty s
       else \<exists>t. tree_inv s t \<and> (\<forall>k. keyed s k (leaves t) = keyed s k lg))
      \<and> (snd (eb_root s True) \<longrightarrow> (\<forall>k. length (keyed s k lg) \<le> 1)))"

section \<open>Traversals and sequences of operations\<close>

text \<open>
  The loops of a caller: \<^verbatim>\<open>for (n = eb_first(root); n; n = eb_next(n))\<close> and the
  same from \<^verbatim>\<open>eb_last\<close> with \<^verbatim>\<open>eb_prev\<close>. They return the cells visited.
\<close>

partial_function (option) eb_walk_next :: "'k eb_store \<Rightarrow> eb_root_ptr \<Rightarrow> eb_root_ptr list option" where
  "eb_walk_next s node =
     (if node = Null then Some []
      else do { n \<leftarrow> eb_next s node; rest \<leftarrow> eb_walk_next s n; Some (node # rest) })"

partial_function (option) eb_walk_prev :: "'k eb_store \<Rightarrow> eb_root_ptr \<Rightarrow> eb_root_ptr list option" where
  "eb_walk_prev s node =
     (if node = Null then Some []
      else do { n \<leftarrow> eb_prev s node; rest \<leftarrow> eb_walk_prev s n; Some (node # rest) })"

definition eb_traverse :: "'k eb_store \<Rightarrow> eb_root_ptr list option" where
  "eb_traverse s = do { n \<leftarrow> eb_first s Root; eb_walk_next s n }"

definition eb_traverse_back :: "'k eb_store \<Rightarrow> eb_root_ptr list option" where
  "eb_traverse_back s = do { n \<leftarrow> eb_last s Root; eb_walk_prev s n }"

text \<open>
  The cells of a list with a key at most \<open>x\<close>, and at least \<open>x\<close>.
\<close>

definition le_list :: "'a::len word eb_store \<Rightarrow> 'a word \<Rightarrow> nat list \<Rightarrow> nat list" where
  "le_list s x xs = filter (\<lambda>c. key (cells s c) \<le> x) xs"

definition ge_list :: "'a::len word eb_store \<Rightarrow> 'a word \<Rightarrow> nat list \<Rightarrow> nat list" where
  "ge_list s x xs = filter (\<lambda>c. x \<le> key (cells s c)) xs"

text \<open>
  A cell is linked when its \<^verbatim>\<open>leaf_p\<close> is not null.
\<close>

definition is_linked :: "'k eb_store \<Rightarrow> nat \<Rightarrow> bool" where
  "is_linked s c = (leaf_p (cells s c) \<noteq> NULL)"

text \<open>
  A caller that sets the key of each cell and inserts it, and one that deletes the
  cells of a list.
\<close>

fun insert_all :: "(32 word \<Rightarrow> int \<Rightarrow> 32 word) \<Rightarrow> ebtree \<Rightarrow> (nat \<times> 32 word) list \<Rightarrow> ebtree option" where
  "insert_all ub s [] = Some s"
| "insert_all ub s ((c, k) # cks) = do {
     (s', r) \<leftarrow> eb32_insert ub (s\<lparr>cells := (cells s)(c := (cells s c)\<lparr>key := k\<rparr>)\<rparr>) Root (Branches c);
     insert_all ub s' cks
   }"

fun delete_all :: "'k eb_store \<Rightarrow> nat list \<Rightarrow> 'k eb_store option" where
  "delete_all s [] = Some s"
| "delete_all s (c # cs) = do { s' \<leftarrow> eb_delete s (Branches c); delete_all s' cs }"

definition map_keys :: "('k \<Rightarrow> 'k) \<Rightarrow> 'k eb_store \<Rightarrow> 'k eb_store" where
  "map_keys f s = s\<lparr>cells := (\<lambda>c. (cells s c)\<lparr>key := f (key (cells s c))\<rparr>)\<rparr>"

section \<open>Example stores\<close>

text \<open>
  A machine where a shift by a count out of range gives 0, and four stores: cell 0
  with key 5 alone; then cell 1 with key 3; then cell 2 with key 5 again; and cell 0
  with key 5 alone under a root tagged unique.
\<close>

definition ub0 :: "32 word \<Rightarrow> int \<Rightarrow> 32 word" where
  "ub0 = (\<lambda>w n. 0)"

definition ex1 :: ebtree where
  "ex1 = \<lparr>eb_root = (\<lambda>side. if side then NULL else (Branches 0, EB_LEAF)),
          cells = (\<lambda>c. if c = 0 then zero_node\<lparr>leaf_p := (Root, EB_LEFT), key := 5\<rparr>
                        else zero_node)\<rparr>"

definition ex2 :: ebtree where
  "ex2 = \<lparr>eb_root = (\<lambda>side. if side then NULL else (Branches 1, EB_NODE)),
          cells = (\<lambda>c. if c = 0 then zero_node\<lparr>leaf_p := (Branches 1, EB_RGHT), key := 5\<rparr>
                   else if c = 1 then
                     \<lparr>branches = (\<lambda>side. if side then (Branches 0, EB_LEAF) else (Branches 1, EB_LEAF)),
                      node_p = (Root, EB_LEFT), leaf_p = (Branches 1, EB_LEFT), nbit = 2, key = 3\<rparr>
                   else zero_node)\<rparr>"

definition ex3 :: ebtree where
  "ex3 = \<lparr>eb_root = (\<lambda>side. if side then NULL else (Branches 1, EB_NODE)),
          cells = (\<lambda>c. if c = 0 then zero_node\<lparr>leaf_p := (Branches 2, EB_LEFT), key := 5\<rparr>
                   else if c = 1 then
                     \<lparr>branches = (\<lambda>side. if side then (Branches 2, EB_NODE) else (Branches 1, EB_LEAF)),
                      node_p = (Root, EB_LEFT), leaf_p = (Branches 1, EB_LEFT), nbit = 2, key = 3\<rparr>
                   else if c = 2 then
                     \<lparr>branches = (\<lambda>side. if side then (Branches 2, EB_LEAF) else (Branches 0, EB_LEAF)),
                      node_p = (Branches 1, EB_RGHT), leaf_p = (Branches 2, EB_RGHT), nbit = -1, key = 5\<rparr>
                   else zero_node)\<rparr>"

definition exu1 :: ebtree where
  "exu1 = \<lparr>eb_root = (\<lambda>side. if side then (Null, True) else (Branches 0, EB_LEAF)),
          cells = (\<lambda>c. if c = 0 then zero_node\<lparr>leaf_p := (Root, EB_LEFT), key := 5\<rparr>
                        else zero_node)\<rparr>"



section \<open>Loads and stores\<close>

lemma load_b_simps [simp]:
  "load_b s Null side = None"
  "load_b s Root side = Some (eb_root s side)"
  "load_b s (Branches c) side = Some (branches (cells s c) side)"
  by (simp_all add: load_b_def)

lemma load_node_simps [simp]:
  "load_node s Null f = None"
  "load_node s Root f = None"
  "load_node s (Branches c) f = Some (f (cells s c))"
  by (simp_all add: load_node_def)

lemma store_node_simps [simp]:
  "store_node s Null g = None"
  "store_node s Root g = None"
  "store_node s (Branches c) g = Some (s\<lparr>cells := (cells s)(c := g (cells s c))\<rparr>)"
  by (simp_all add: store_node_def)

lemma store_b_simps [simp]:
  "store_b s Null side v = None"
  "store_b s Root side v = Some (s\<lparr>eb_root := (eb_root s)(side := v)\<rparr>)"
  "store_b s (Branches c) side v =
     Some (s\<lparr>cells := (cells s)(c := (cells s c)\<lparr>branches := (branches (cells s c))(side := v)\<rparr>)\<rparr>)"
  by (simp_all add: store_b_def)

lemma tag_simps [simp]:
  "eb_dotag p t = (p, t)"
  "eb_untag troot t' = fst troot"
  "eb_gettag troot = snd troot"
  "eb_clrtag troot = fst troot"
  "eb_root_to_node p = p"
  by (simp_all add: eb_dotag_def eb_untag_def eb_gettag_def eb_clrtag_def eb_root_to_node_def)

section \<open>Walking a represented tree\<close>

lemma slot_val_simps [simp]:
  "slot_val s (Null, side) = NULL"
  "slot_val s (Root, side) = eb_root s side"
  "slot_val s (Branches c, side) = branches (cells s c) side"
  by (simp_all add: slot_val_def)

lemma tree_ref_fst [simp]: "fst (tree_ref t) = Branches (root_id t)"
  by (cases t) auto

lemma leaves_nonempty [simp]: "leaves t \<noteq> []"
  by (induction t) auto

lemma repr_top: "repr s sl t \<Longrightarrow> slot_val s sl = tree_ref t \<and> up_of s t = sl"
  by (cases t) auto

lemma repr_frame:
  assumes "slot_val s' sl = slot_val s sl"
    and "\<forall>c \<in> set (nodes t). node_p (cells s' c) = node_p (cells s c)
            \<and> branches (cells s' c) = branches (cells s c)"
    and "\<forall>c \<in> set (leaves t). leaf_p (cells s' c) = leaf_p (cells s c)"
  shows "repr s' sl t = repr s sl t"
  using assms
proof (induction t arbitrary: sl)
  case (Leaf c)
  then show ?case by simp
next
  case (Node c l r)
  have "repr s' (Branches c, False) l = repr s (Branches c, False) l"
    using Node.prems by (intro Node.IH(1)) auto
  moreover have "repr s' (Branches c, True) r = repr s (Branches c, True) r"
    using Node.prems by (intro Node.IH(2)) auto
  ultimately show ?case using Node.prems by simp
qed

lemma eb_walk_down_repr:
  "repr s sl t \<Longrightarrow>
   eb_walk_down s (tree_ref t) side = Some (Branches (if side then last (leaves t) else hd (leaves t)))"
proof (induction t arbitrary: sl)
  case (Leaf c)
  then show ?case by (simp add: eb_walk_down.simps)
next
  case (Node c l r)
  from Node.prems have l: "repr s (Branches c, False) l" and r: "repr s (Branches c, True) r"
    by simp_all
  show ?case
  proof (cases side)
    case True
    with Node.IH(2)[OF r] repr_top[OF r] show ?thesis
      by (subst eb_walk_down.simps) simp
  next
    case False
    with Node.IH(1)[OF l] repr_top[OF l] show ?thesis
      by (subst eb_walk_down.simps) simp
  qed
qed

lemma eb_descend_repr:
  "repr s sl t \<Longrightarrow>
   eb_descend s (tree_ref t) side = Some (Branches (if side then last (leaves t) else hd (leaves t)), EB_LEAF)"
proof (induction t arbitrary: sl)
  case (Leaf c)
  then show ?case by (simp add: eb_descend.simps)
next
  case (Node c l r)
  from Node.prems have l: "repr s (Branches c, False) l" and r: "repr s (Branches c, True) r"
    by simp_all
  show ?case
  proof (cases side)
    case True
    with Node.IH(2)[OF r] repr_top[OF r] show ?thesis
      by (subst eb_descend.simps) simp
  next
    case False
    with Node.IH(1)[OF l] repr_top[OF l] show ?thesis
      by (subst eb_descend.simps) simp
  qed
qed

lemma succ_in_notin: "c \<notin> set xs \<Longrightarrow> succ_in xs c = None"
  by (induction xs c rule: succ_in.induct) auto

lemma succ_in_append_left:
  "c \<in> set xs \<Longrightarrow> distinct xs \<Longrightarrow>
   succ_in (xs @ ys) c = (case succ_in xs c of Some d \<Rightarrow> Some d
                           | None \<Rightarrow> (case ys of [] \<Rightarrow> None | y # _ \<Rightarrow> Some y))"
proof (induction xs c rule: succ_in.induct)
  case (1 c)
  then show ?case by simp
next
  case (2 x c)
  then show ?case by (cases ys) auto
next
  case (3 x y ys' c)
  then show ?case by (auto simp: succ_in_notin)
qed

lemma succ_in_append_right:
  "c \<notin> set xs \<Longrightarrow> succ_in (xs @ ys) c = succ_in ys c"
proof (induction xs c rule: succ_in.induct)
  case (1 c)
  then show ?case by simp
next
  case (2 x c)
  then show ?case by (cases ys) auto
next
  case (3 x y ys' c)
  then show ?case by auto
qed

lemma succ_in_split:
  "distinct (pre @ c # rest) \<Longrightarrow>
   succ_in (pre @ c # rest) c = (case rest of [] \<Rightarrow> None | d # _ \<Rightarrow> Some d)"
  by (cases rest) (auto simp: succ_in_append_right)

lemma eb_next_from_repr:
  "repr s sl t \<Longrightarrow> distinct (leaves t) \<Longrightarrow> c \<in> set (leaves t) \<Longrightarrow>
   eb_next_from s (leaf_p (cells s c)) =
     (case succ_in (leaves t) c of Some d \<Rightarrow> Some (Branches d) | None \<Rightarrow> eb_next_from s sl)"
proof (induction t arbitrary: sl)
  case (Leaf d)
  then show ?case by simp
next
  case (Node d l r)
  from Node.prems have l: "repr s (Branches d, False) l" and r: "repr s (Branches d, True) r"
    and np: "node_p (cells s d) = sl"
    and dl: "distinct (leaves l)" and dr: "distinct (leaves r)"
    and disj: "set (leaves l) \<inter> set (leaves r) = {}"
    by auto
  show ?case
  proof (cases "c \<in> set (leaves l)")
    case True
    have up: "eb_next_from s (Branches d, False) = Some (Branches (hd (leaves r)))"
      using repr_top[OF r] eb_walk_down_repr[OF r, of False]
      by (subst eb_next_from.simps) simp
    obtain y ys where ys: "leaves r = y # ys" by (cases "leaves r") auto
    show ?thesis
      using Node.IH(1)[OF l dl True] True dl up ys
      by (simp add: succ_in_append_left split: option.splits)
  next
    case False
    with Node.prems have cr: "c \<in> set (leaves r)" by auto
    have up: "eb_next_from s (Branches d, True) = eb_next_from s sl"
      using np by (subst eb_next_from.simps) simp
    show ?thesis
      using Node.IH(2)[OF r dr cr] False up
      by (simp add: succ_in_append_right split: option.splits)
  qed
qed

lemma eb_prev_from_repr:
  "repr s sl t \<Longrightarrow> distinct (leaves t) \<Longrightarrow> c \<in> set (leaves t) \<Longrightarrow>
   eb_prev_from s (leaf_p (cells s c)) =
     (case succ_in (rev (leaves t)) c of Some d \<Rightarrow> Some (Branches d) | None \<Rightarrow> eb_prev_from s sl)"
proof (induction t arbitrary: sl)
  case (Leaf d)
  then show ?case by simp
next
  case (Node d l r)
  from Node.prems have l: "repr s (Branches d, False) l" and r: "repr s (Branches d, True) r"
    and np: "node_p (cells s d) = sl"
    and dl: "distinct (leaves l)" and dr: "distinct (leaves r)"
    and disj: "set (leaves l) \<inter> set (leaves r) = {}"
    by auto
  show ?case
  proof (cases "c \<in> set (leaves r)")
    case True
    have up: "eb_prev_from s (Branches d, True) = Some (Branches (last (leaves l)))"
      using repr_top[OF l] eb_walk_down_repr[OF l, of True]
      by (subst eb_prev_from.simps) simp
    obtain y ys where ys: "rev (leaves l) = y # ys" by (cases "rev (leaves l)") auto
    then have "last (leaves l) = y"
      by (metis last_rev list.sel(1) rev_rev_ident)
    then show ?thesis
      using Node.IH(2)[OF r dr True] True dr up ys
      by (simp add: succ_in_append_left split: option.splits)
  next
    case False
    with Node.prems have cl: "c \<in> set (leaves l)" by auto
    have rr: "slot_val s (Branches d, True) = tree_ref r" using repr_top[OF r] by simp
    then have "fst (branches (cells s d) True) \<noteq> Null" by (cases r) auto
    then have up: "eb_prev_from s (Branches d, False) = eb_prev_from s sl"
      using np by (subst eb_prev_from.simps) simp
    show ?thesis
      using Node.IH(1)[OF l dl cl] False up
      by (simp add: succ_in_append_right split: option.splits)
  qed
qed

section \<open>Sub-trees and replacement\<close>

lemma subtree_at_self [simp]: "subtree_at sl t sl = Some t"
  by (cases t) auto

lemma subtree_at_slot:
  "subtree_at sl0 t sl = Some sub \<Longrightarrow> sl = sl0 \<or> fst sl \<in> Branches ` set (nodes t)"
  by (induction sl0 t sl rule: subtree_at.induct) (auto split: if_splits option.splits)

lemma subtree_at_node:
  "c \<in> set (nodes t) \<Longrightarrow> \<exists>sub. subtree_at sl0 t (Branches c, side) = Some sub"
proof (induction sl0 t "(Branches c, side)" rule: subtree_at.induct)
  case (1 sl0 d)
  then show ?case by simp
next
  case (2 sl0 d l r)
  show ?case
  proof (cases "(Branches c, side) = sl0")
    case True
    then show ?thesis by simp
  next
    case False
    show ?thesis
    proof (cases "subtree_at (Branches d, False) l (Branches c, side)")
      case None
      show ?thesis
      proof (cases "c = d")
        case True
        with None have "side" by (cases side) auto
        with True None False show ?thesis by simp
      next
        case cd: False
        have "c \<notin> set (nodes l)" using 2(1)[OF False] None by auto
        with cd have "c \<in> set (nodes r)" using 2(3) by auto
        from 2(2)[OF False None this] None False show ?thesis by simp
      qed
    next
      case (Some x)
      with False show ?thesis by simp
    qed
  qed
qed

lemma subtree_at_None:
  "subtree_at sl0 t sl = None \<Longrightarrow> sl \<noteq> sl0 \<and> fst sl \<notin> Branches ` set (nodes t)"
  using subtree_at_node[of _ t sl0 "snd sl"]
  by (cases sl) force

lemma subtree_at_subset:
  "subtree_at sl0 t sl = Some sub \<Longrightarrow>
   set (nodes sub) \<subseteq> set (nodes t) \<and> set (leaves sub) \<subseteq> set (leaves t)"
  by (induction sl0 t sl rule: subtree_at.induct) (auto split: if_splits option.splits)

lemma subtree_at_repr:
  "subtree_at sl0 t sl = Some sub \<Longrightarrow> repr s sl0 t \<Longrightarrow> repr s sl sub"
  by (induction sl0 t sl rule: subtree_at.induct) (auto split: if_splits option.splits)

lemma graft_leaves:
  "subtree_at sl0 t sl = Some sub \<Longrightarrow>
   \<exists>pre post. leaves t = pre @ leaves sub @ post
      \<and> (\<forall>g. leaves (graft sl0 t sl g) = pre @ leaves (g sub) @ post)"
proof (induction t arbitrary: sl0)
  case (Leaf c)
  then show ?case by (auto split: if_splits intro: exI[of _ "[]"])
next
  case (Node c l r)
  show ?case
  proof (cases "sl = sl0")
    case True
    with Node.prems show ?thesis by (auto intro: exI[of _ "[]"])
  next
    case False
    show ?thesis
    proof (cases "subtree_at (Branches c, False) l sl")
      case None
      with False Node.prems have "subtree_at (Branches c, True) r sl = Some sub" by simp
      from Node.IH(2)[OF this] obtain pre post where
        "leaves r = pre @ leaves sub @ post"
        "\<forall>g. leaves (graft (Branches c, True) r sl g) = pre @ leaves (g sub) @ post" by blast
      with None False show ?thesis
        by (intro exI[of _ "leaves l @ pre"] exI[of _ post]) simp
    next
      case (Some x)
      with False Node.prems have "subtree_at (Branches c, False) l sl = Some sub" by simp
      from Node.IH(1)[OF this] obtain pre post where
        "leaves l = pre @ leaves sub @ post"
        "\<forall>g. leaves (graft (Branches c, False) l sl g) = pre @ leaves (g sub) @ post" by blast
      with Some False show ?thesis
        by (intro exI[of _ pre] exI[of _ "post @ leaves r"]) simp
    qed
  qed
qed

lemma graft_nodes:
  "subtree_at sl0 t sl = Some sub \<Longrightarrow>
   \<exists>pre post. nodes t = pre @ nodes sub @ post
      \<and> (\<forall>g. nodes (graft sl0 t sl g) = pre @ nodes (g sub) @ post)"
proof (induction t arbitrary: sl0)
  case (Leaf c)
  then show ?case by (auto split: if_splits intro: exI[of _ "[]"])
next
  case (Node c l r)
  show ?case
  proof (cases "sl = sl0")
    case True
    with Node.prems show ?thesis by (auto intro: exI[of _ "[]"])
  next
    case False
    show ?thesis
    proof (cases "subtree_at (Branches c, False) l sl")
      case None
      with False Node.prems have "subtree_at (Branches c, True) r sl = Some sub" by simp
      from Node.IH(2)[OF this] obtain pre post where
        "nodes r = pre @ nodes sub @ post"
        "\<forall>g. nodes (graft (Branches c, True) r sl g) = pre @ nodes (g sub) @ post" by blast
      with None False show ?thesis
        by (intro exI[of _ "c # nodes l @ pre"] exI[of _ post]) simp
    next
      case (Some x)
      with False Node.prems have "subtree_at (Branches c, False) l sl = Some sub" by simp
      from Node.IH(1)[OF this] obtain pre post where
        "nodes l = pre @ nodes sub @ post"
        "\<forall>g. nodes (graft (Branches c, False) l sl g) = pre @ nodes (g sub) @ post" by blast
      with Some False show ?thesis
        by (intro exI[of _ "c # pre"] exI[of _ "post @ nodes r"]) simp
    qed
  qed
qed

lemma graft_self [simp]: "graft sl t sl g = g t"
  by (cases t) auto

text \<open>The part of the store a tree does not depend on may change.\<close>

lemma graft_repr:
  assumes "repr s sl0 t" and "subtree_at sl0 t sl = Some sub"
    and "distinct (nodes t)" and "distinct (leaves t)"
    and "repr s' sl (g sub)"
    and "sl \<noteq> sl0 \<longrightarrow> slot_val s' sl0 = slot_val s sl0"
    and "\<forall>c \<in> set (nodes t) - set (nodes sub).
           node_p (cells s' c) = node_p (cells s c)
           \<and> (\<forall>side. (Branches c, side) \<noteq> sl \<longrightarrow>
                 branches (cells s' c) side = branches (cells s c) side)"
    and "\<forall>c \<in> set (leaves t) - set (leaves sub). leaf_p (cells s' c) = leaf_p (cells s c)"
  shows "repr s' sl0 (graft sl0 t sl g)"
  using assms
proof (induction t arbitrary: sl0)
  case (Leaf c)
  then show ?case by (auto split: if_splits)
next
  case (Node c l r)
  show ?case
  proof (cases "sl = sl0")
    case True
    with Node.prems show ?thesis by simp
  next
    case False
    from Node.prems have rl: "repr s (Branches c, False) l" and rr: "repr s (Branches c, True) r"
      and top: "slot_val s sl0 = (Branches c, True)" "node_p (cells s c) = sl0"
      by simp_all
    from Node.prems have dn: "c \<notin> set (nodes l)" "c \<notin> set (nodes r)"
      "set (nodes l) \<inter> set (nodes r) = {}" "distinct (nodes l)" "distinct (nodes r)"
      and dl: "set (leaves l) \<inter> set (leaves r) = {}" "distinct (leaves l)" "distinct (leaves r)"
      by auto
    show ?thesis
    proof (cases "subtree_at (Branches c, False) l sl")
      case None
      with False Node.prems have sr: "subtree_at (Branches c, True) r sl = Some sub" by simp
      note ss = subtree_at_subset[OF sr] subtree_at_slot[OF sr] subtree_at_None[OF None]
      have cs: "c \<notin> set (nodes sub)" using ss dn by auto
      have c7: "node_p (cells s' c) = node_p (cells s c)"
        "\<And>side. (Branches c, side) \<noteq> sl \<Longrightarrow>
                 branches (cells s' c) side = branches (cells s c) side"
        using Node.prems(7) cs by auto
      have slF: "sl \<noteq> (Branches c, False)" using ss by auto
      have 1: "repr s' (Branches c, True) (graft (Branches c, True) r sl g)"
      proof (rule Node.IH(2)[OF rr sr])
        show "distinct (nodes r)" "distinct (leaves r)" by fact+
        show "repr s' sl (g sub)" by fact
        show "sl \<noteq> (Branches c, True) \<longrightarrow>
              slot_val s' (Branches c, True) = slot_val s (Branches c, True)"
          using c7(2)[of True] by auto
        show "\<forall>c\<in>set (nodes r) - set (nodes sub).
           node_p (cells s' c) = node_p (cells s c) \<and>
           (\<forall>side. (Branches c, side) \<noteq> sl \<longrightarrow>
                   branches (cells s' c) side = branches (cells s c) side)"
          using Node.prems(7) by auto
        show "\<forall>c\<in>set (leaves r) - set (leaves sub). leaf_p (cells s' c) = leaf_p (cells s c)"
          using Node.prems(8) by auto
      qed
      have 2: "repr s' (Branches c, False) l = repr s (Branches c, False) l"
      proof (rule repr_frame)
        show "slot_val s' (Branches c, False) = slot_val s (Branches c, False)"
          using c7(2)[of False] slF by auto
        show "\<forall>c\<in>set (nodes l).
           node_p (cells s' c) = node_p (cells s c) \<and>
           branches (cells s' c) = branches (cells s c)"
        proof
          fix d assume d: "d \<in> set (nodes l)"
          then have "d \<in> set (nodes (Node c l r)) - set (nodes sub)" using ss dn by auto
          moreover have "\<And>side. (Branches d, side) \<noteq> sl" using ss d by (auto simp: image_iff)
          ultimately show "node_p (cells s' d) = node_p (cells s d) \<and>
             branches (cells s' d) = branches (cells s d)"
            using Node.prems(7) by (auto intro!: ext)
        qed
        show "\<forall>c\<in>set (leaves l). leaf_p (cells s' c) = leaf_p (cells s c)"
          using Node.prems(8) ss dl by auto
      qed
      show ?thesis using None False 1 2 rl top Node.prems(6) c7(1) by simp
    next
      case (Some x)
      with False Node.prems have sr: "subtree_at (Branches c, False) l sl = Some sub" by simp
      note ss = subtree_at_subset[OF sr] subtree_at_slot[OF sr]
      have cs: "c \<notin> set (nodes sub)" using ss dn by auto
      have c7: "node_p (cells s' c) = node_p (cells s c)"
        "\<And>side. (Branches c, side) \<noteq> sl \<Longrightarrow>
                 branches (cells s' c) side = branches (cells s c) side"
        using Node.prems(7) cs by auto
      have slT: "sl \<noteq> (Branches c, True)" using ss dn by (auto simp: image_iff)
      have 1: "repr s' (Branches c, False) (graft (Branches c, False) l sl g)"
      proof (rule Node.IH(1)[OF rl sr])
        show "distinct (nodes l)" "distinct (leaves l)" by fact+
        show "repr s' sl (g sub)" by fact
        show "sl \<noteq> (Branches c, False) \<longrightarrow>
              slot_val s' (Branches c, False) = slot_val s (Branches c, False)"
          using c7(2)[of False] by auto
        show "\<forall>c\<in>set (nodes l) - set (nodes sub).
           node_p (cells s' c) = node_p (cells s c) \<and>
           (\<forall>side. (Branches c, side) \<noteq> sl \<longrightarrow>
                   branches (cells s' c) side = branches (cells s c) side)"
          using Node.prems(7) by auto
        show "\<forall>c\<in>set (leaves l) - set (leaves sub). leaf_p (cells s' c) = leaf_p (cells s c)"
          using Node.prems(8) by auto
      qed
      have 2: "repr s' (Branches c, True) r = repr s (Branches c, True) r"
      proof (rule repr_frame)
        show "slot_val s' (Branches c, True) = slot_val s (Branches c, True)"
          using c7(2)[of True] slT by auto
        show "\<forall>c\<in>set (nodes r).
           node_p (cells s' c) = node_p (cells s c) \<and>
           branches (cells s' c) = branches (cells s c)"
        proof
          fix d assume d: "d \<in> set (nodes r)"
          then have "d \<in> set (nodes (Node c l r)) - set (nodes sub)" using ss dn by auto
          moreover have "\<And>side. (Branches d, side) \<noteq> sl" using ss d dn by (auto simp: image_iff)
          ultimately show "node_p (cells s' d) = node_p (cells s d) \<and>
             branches (cells s' d) = branches (cells s d)"
            using Node.prems(7) by (auto intro!: ext)
        qed
        show "\<forall>c\<in>set (leaves r). leaf_p (cells s' c) = leaf_p (cells s c)"
          using Node.prems(8) ss dl by auto
      qed
      show ?thesis using Some False 1 2 rr top Node.prems(6) c7(1) by simp
    qed
  qed
qed

section \<open>Reading a store after a write\<close>

declare store_node_simps [simp del] store_b_simps [simp del]

lemma store_node_upd [simp]:
  "store_node s Null g = None"
  "store_node s Root g = None"
  "store_node s (Branches c) g = Some (upd_cell s c g)"
  by (simp_all add: store_node_def upd_cell_def)

lemma store_b_upd [simp]:
  "store_b s Null side v = None"
  "p \<noteq> Null \<Longrightarrow> store_b s p side v = Some (upd_slot s (p, side) v)"
  by (cases p; simp add: store_b_def upd_slot_def upd_cell_def store_node_def)+

lemma load_b_slot: "p \<noteq> Null \<Longrightarrow> load_b s p side = Some (slot_val s (p, side))"
  by (cases p) auto

lemma upd_cell_reads [simp]:
  "cells (upd_cell s c f) d = (if d = c then f (cells s c) else cells s d)"
  "eb_root (upd_cell s c f) = eb_root s"
  "slot_val (upd_cell s c f) sl =
     (if fst sl = Branches c then branches (f (cells s c)) (snd sl) else slot_val s sl)"
  by (auto simp: upd_cell_def slot_val_def split: eb_root_ptr.splits)

lemma upd_slot_reads [simp]:
  "node_p (cells (upd_slot s sl v) d) = node_p (cells s d)"
  "leaf_p (cells (upd_slot s sl v) d) = leaf_p (cells s d)"
  "nbit (cells (upd_slot s sl v) d) = nbit (cells s d)"
  "key (cells (upd_slot s sl v) d) = key (cells s d)"
  "branches (cells (upd_slot s sl v) d) side =
     (if sl = (Branches d, side) then v else branches (cells s d) side)"
  "eb_root (upd_slot s sl v) side = (if sl = (Root, side) then v else eb_root s side)"
  "slot_val (upd_slot s sl v) sl' = (if sl' = sl \<and> fst sl \<noteq> Null then v else slot_val s sl')"
  by (cases sl; cases sl'; auto simp: upd_slot_def upd_cell_def slot_val_def split: eb_root_ptr.splits)+

lemma repr_move:
  assumes "repr s sl t" and "slot_val s' sl' = tree_ref t" and "up_of s' t = sl'"
    and "\<forall>c \<in> set (nodes t). branches (cells s' c) = branches (cells s c)"
    and "\<forall>c \<in> set (inner_nodes t). node_p (cells s' c) = node_p (cells s c)"
    and "\<forall>c \<in> set (inner_leaves t). leaf_p (cells s' c) = leaf_p (cells s c)"
  shows "repr s' sl' t"
proof (cases t)
  case (Leaf c)
  with assms show ?thesis by simp
next
  case (Node c l r)
  have "repr s' (Branches c, False) l = repr s (Branches c, False) l"
    using assms Node by (intro repr_frame) auto
  moreover have "repr s' (Branches c, True) r = repr s (Branches c, True) r"
    using assms Node by (intro repr_frame) auto
  ultimately show ?thesis using assms Node by simp
qed

lemma repr_slot_nonnull: "repr s sl t \<Longrightarrow> sl \<noteq> NULL \<Longrightarrow> True"
  by simp

section \<open>The descent of the insertion\<close>

lemma ins_pos_subtree:
  "distinct (nodes t) \<Longrightarrow> fst sl0 \<notin> Branches ` set (nodes t) \<Longrightarrow>
   ins_pos ub s k sl0 t = (sl, sub) \<Longrightarrow> subtree_at sl0 t sl = Some sub"
proof (induction t arbitrary: sl0)
  case (Leaf c)
  then show ?case by auto
next
  case (Node c l r)
  show ?case
  proof (cases "nbit (cells s c) < 0 \<or> shr32 ub (k XOR key (cells s c)) (nbit (cells s c)) \<ge> 2")
    case True
    with Node.prems show ?thesis by auto
  next
    case False
    show ?thesis
    proof (cases "shr32 ub k (nbit (cells s c)) AND 1 \<noteq> 0")
      case True
      with False Node.prems have ip: "ins_pos ub s k (Branches c, True) r = (sl, sub)" by simp
      have sr: "subtree_at (Branches c, True) r sl = Some sub"
        using Node.prems by (intro Node.IH(2)[OF _ _ ip]) auto
      from subtree_at_slot[OF sr] Node.prems have ne: "sl \<noteq> sl0" by auto
      have "subtree_at (Branches c, False) l sl = None"
      proof (cases "subtree_at (Branches c, False) l sl")
        case (Some x)
        from subtree_at_slot[OF Some] subtree_at_slot[OF sr] Node.prems show ?thesis by auto
      qed simp
      with sr ne show ?thesis by simp
    next
      case F2: False
      with False Node.prems have ip: "ins_pos ub s k (Branches c, False) l = (sl, sub)" by simp
      have sr: "subtree_at (Branches c, False) l sl = Some sub"
        using Node.prems by (intro Node.IH(1)[OF _ _ ip]) auto
      from subtree_at_slot[OF sr] Node.prems have ne: "sl \<noteq> sl0" by auto
      with sr show ?thesis by simp
    qed
  qed
qed

lemma ins_pos_nonnull: "fst sl0 \<noteq> Null \<Longrightarrow> ins_pos ub s k sl0 t = (sl, sub) \<Longrightarrow> fst sl \<noteq> Null"
  by (induction ub s k sl0 t rule: ins_pos.induct) (auto split: if_splits)

lemma eb32_insert_descend_repr:
  assumes "repr s sl0 t" and "new \<notin> set (nodes t)" and "new \<notin> set (leaves t)"
    and "k = key (cells s new)"
  shows "eb32_insert_descend ub s (Branches new) k (fst sl0) (snd sl0) (tree_ref t) =
     (case ins_pos ub s k sl0 t of (sl, sub) \<Rightarrow>
        Some (upd_cell s new (\<lambda>n. n\<lparr>node_p := sl\<rparr>), Branches (root_id sub), up_ptr_of sub,
              fst sl, snd sl, tree_ref sub))"
  using assms
proof (induction t arbitrary: sl0)
  case (Leaf c)
  then show ?case by (subst eb32_insert_descend.simps) (simp add: Let_def)
next
  case (Node c l r)
  from Node.prems have rl: "repr s (Branches c, False) l" and rr: "repr s (Branches c, True) r"
    by simp_all
  show ?case
  proof (cases "nbit (cells s c) < 0 \<or> shr32 ub (k XOR key (cells s c)) (nbit (cells s c)) \<ge> 2")
    case True
    with Node.prems show ?thesis by (subst eb32_insert_descend.simps) (auto simp: Let_def)
  next
    case False
    show ?thesis
    proof (cases "shr32 ub k (nbit (cells s c)) AND 1 \<noteq> 0")
      case True
      have "eb32_insert_descend ub s (Branches new) k (Branches c) True (tree_ref r) =
       (case ins_pos ub s k (Branches c, True) r of (sl, sub) \<Rightarrow>
        Some (upd_cell s new (\<lambda>n. n\<lparr>node_p := sl\<rparr>), Branches (root_id sub), up_ptr_of sub,
              fst sl, snd sl, tree_ref sub))"
        using Node.IH(2)[OF rr] Node.prems by simp
      with True False Node.prems repr_top[OF rr] show ?thesis
        by (subst eb32_insert_descend.simps) (auto simp: Let_def)
    next
      case F2: False
      have "eb32_insert_descend ub s (Branches new) k (Branches c) False (tree_ref l) =
       (case ins_pos ub s k (Branches c, False) l of (sl, sub) \<Rightarrow>
        Some (upd_cell s new (\<lambda>n. n\<lparr>node_p := sl\<rparr>), Branches (root_id sub), up_ptr_of sub,
              fst sl, snd sl, tree_ref sub))"
        using Node.IH(1)[OF rl] Node.prems by simp
      with F2 False Node.prems repr_top[OF rl] show ?thesis
        by (subst eb32_insert_descend.simps) (auto simp: Let_def)
    qed
  qed
qed

lemma store_up_upd [simp]: "store_up s (up_ptr_of sub) v = Some (upd_up s sub v)"
  by (cases sub) (simp_all add: store_up_def)

lemma upd_up_reads [simp]:
  "up_of (upd_up s sub v) sub = v"
  "slot_val (upd_up s sub v) sl = slot_val s sl"
  "branches (cells (upd_up s sub v) c) = branches (cells s c)"
  "nbit (cells (upd_up s sub v) c) = nbit (cells s c)"
  "key (cells (upd_up s sub v) c) = key (cells s c)"
  "eb_root (upd_up s sub v) = eb_root s"
  "c \<noteq> root_id sub \<Longrightarrow> cells (upd_up s sub v) c = cells s c"
  by (cases sub; auto simp: slot_val_def split: eb_root_ptr.splits)+

lemma upd_up_leaf_p:
  "leaf_p (cells (upd_up s sub v) c) = (if sub = Leaf c then v else leaf_p (cells s c))"
  by (cases sub) auto

lemma upd_up_node_p:
  "node_p (cells (upd_up s sub v) c) =
     (if c = root_id sub \<and> sub \<noteq> Leaf c then v else node_p (cells s c))"
  by (cases sub) auto

lemma eb32_insert_link_linked:
  assumes "fst sl \<noteq> Null" and "new \<noteq> root_id sub"
  shows "eb32_insert_link s (Branches new) (Branches (root_id sub)) (up_ptr_of sub)
           (fst sl) (snd sl) (tree_ref sub) =
         Some (linked s new sub sl (key (cells s new) \<ge> key (cells s (root_id sub))), Branches new)"
proof -
  have e: "\<And>f g. (f = g) = (\<forall>x. f x = g x)" by auto
  show ?thesis
    using assms
    apply (simp add: eb32_insert_link_def linked_def Let_def)
    apply (intro conjI impI)
     apply (rule arg_cong[where f="\<lambda>x. upd_slot x sl (Branches new, True)"])
     apply (rule arg_cong[where f="\<lambda>x. upd_up x sub (Branches new, False)"])
     apply (simp add: upd_slot_def upd_cell_def fun_eq_iff)
    apply (rule arg_cong[where f="\<lambda>x. upd_slot x sl (Branches new, True)"])
    apply (rule arg_cong[where f="\<lambda>x. upd_up x sub (Branches new, True)"])
    apply (simp add: upd_slot_def upd_cell_def fun_eq_iff)
    done
qed

lemma subtree_at_slot_outside:
  "subtree_at sl0 t sl = Some sub \<Longrightarrow> distinct (nodes t) \<Longrightarrow>
   fst sl0 \<notin> Branches ` set (nodes t) \<Longrightarrow> fst sl \<notin> Branches ` set (nodes sub)"
proof (induction sl0 t sl rule: subtree_at.induct)
  case (1 sl0 c sl)
  then show ?case by (auto split: if_splits)
next
  case (2 sl0 c l r sl)
  show ?case
  proof (cases "sl = sl0")
    case True
    with 2 show ?thesis by auto
  next
    case False
    show ?thesis
    proof (cases "subtree_at (Branches c, False) l sl")
      case None
      with False 2 show ?thesis by auto
    next
      case (Some x)
      with False 2 show ?thesis by auto
    qed
  qed
qed

lemma subtree_at_distinct:
  assumes "subtree_at sl0 t sl = Some sub"
  shows "distinct (nodes t) \<Longrightarrow> distinct (nodes sub)"
    and "distinct (leaves t) \<Longrightarrow> distinct (leaves sub)"
  using graft_nodes[OF assms] graft_leaves[OF assms] by auto

lemma linked_reads [simp]:
  "key (cells (linked s new sub sl ns) c) = key (cells s c)"
  "nbit (cells (linked s new sub sl ns) c) = nbit (cells s c)"
  "leaf_p (cells (linked s new sub sl ns) c) =
     (if sub = Leaf c then (Branches new, \<not> ns) else if c = new then (Branches new, ns)
      else leaf_p (cells s c))"
  "node_p (cells (linked s new sub sl ns) c) =
     (if c = root_id sub \<and> sub \<noteq> Leaf c then (Branches new, \<not> ns) else node_p (cells s c))"
  "eb_root (linked s new sub sl ns) side =
     (if sl = (Root, side) then (Branches new, EB_NODE) else eb_root s side)"
  by (cases sub; auto simp: linked_def)+

lemma linked_branches:
  "branches (cells (linked s new sub sl ns) c) side =
     (if sl = (Branches c, side) then (Branches new, EB_NODE)
      else if c = new then (if side = ns then (Branches new, EB_LEAF) else tree_ref sub)
      else branches (cells s c) side)"
  by (cases sub; auto simp: linked_def)

lemma linked_slot_val:
  "fst sl \<noteq> Null \<Longrightarrow> slot_val (linked s new sub sl ns) sl' =
     (if sl' = sl then (Branches new, EB_NODE)
      else if fst sl' = Branches new then (if snd sl' = ns then (Branches new, EB_LEAF) else tree_ref sub)
      else slot_val s sl')"
  by (cases sl'; cases sub; auto simp: linked_def)

lemma linked_repr:
  assumes r: "repr s sl0 t" and sub: "subtree_at sl0 t sl = Some sub"
    and d: "distinct (nodes t)" "distinct (leaves t)"
    and new: "new \<notin> set (nodes t)" "new \<notin> set (leaves t)" "fst sl0 \<noteq> Branches new"
    and sl0: "fst sl0 \<notin> Branches ` set (nodes t)" "fst sl0 \<noteq> Null"
    and np: "node_p (cells s new) = sl"
  shows "repr (linked s new sub sl ns) sl0 (graft sl0 t sl (above_new new ns))"
proof (rule graft_repr[OF r sub d])
  let ?s' = "linked s new sub sl ns"
  note ss = subtree_at_subset[OF sub] subtree_at_slot[OF sub] subtree_at_slot_outside[OF sub d(1) sl0(1)]
  have slnn: "fst sl \<noteq> Null" using ss sl0 by auto
  have slnew: "fst sl \<noteq> Branches new" using ss new by auto
  have newsub: "new \<noteq> root_id sub" "sub \<noteq> Leaf new" using ss new by (cases sub; auto)+
  have rs: "repr s sl sub" by (rule subtree_at_repr[OF sub r])
  have mv: "repr ?s' (Branches new, \<not> ns) sub"
  proof (rule repr_move[OF rs])
    show "slot_val ?s' (Branches new, \<not> ns) = tree_ref sub"
      using slnn slnew by (auto simp: linked_branches)
    show "up_of ?s' sub = (Branches new, \<not> ns)" by (cases sub) auto
    show "\<forall>c\<in>set (nodes sub). branches (cells ?s' c) = branches (cells s c)"
      using ss new by (auto simp: linked_branches fun_eq_iff image_iff)
    show "\<forall>c\<in>set (inner_nodes sub). node_p (cells ?s' c) = node_p (cells s c)"
      using subtree_at_distinct(1)[OF sub d(1)] by (cases sub) auto
    show "\<forall>c\<in>set (inner_leaves sub). leaf_p (cells ?s' c) = leaf_p (cells s c)"
      using new ss by (cases sub) auto
  qed
  have lf: "repr ?s' (Branches new, ns) (Leaf new)"
    using slnn slnew newsub by (auto simp: linked_branches)
  have top: "slot_val ?s' sl = (Branches new, True)" "node_p (cells ?s' new) = sl"
    using slnn newsub np by (auto simp: linked_slot_val)
  show "repr ?s' sl (above_new new ns sub)"
    using mv lf top by (cases ns) (auto simp: above_new_def)
  show "sl \<noteq> sl0 \<longrightarrow> slot_val ?s' sl0 = slot_val s sl0"
    using slnn new by (auto simp: linked_slot_val)
  show "\<forall>c\<in>set (nodes t) - set (nodes sub).
       node_p (cells ?s' c) = node_p (cells s c) \<and>
       (\<forall>side. (Branches c, side) \<noteq> sl \<longrightarrow>
               branches (cells ?s' c) side = branches (cells s c) side)"
    using new by (cases sub) (auto simp: linked_branches)
  show "\<forall>c\<in>set (leaves t) - set (leaves sub). leaf_p (cells ?s' c) = leaf_p (cells s c)"
    using new by (cases sub) auto
qed

section \<open>Insertion among duplicates\<close>

lemma graft_trans:
  "subtree_at sl0 t sl1 = Some t1 \<Longrightarrow> subtree_at sl1 t1 sl2 = Some t2 \<Longrightarrow>
   distinct (nodes t) \<Longrightarrow> fst sl0 \<notin> Branches ` set (nodes t) \<Longrightarrow>
   subtree_at sl0 t sl2 = Some t2 \<and> graft sl0 t sl2 g = graft sl0 t sl1 (\<lambda>u. graft sl1 u sl2 g)"
proof (induction sl0 t sl1 rule: subtree_at.induct)
  case (1 sl0 c sl)
  then show ?case by (auto split: if_splits)
next
  case (2 sl0 c l r sl)
  show ?case
  proof (cases "sl = sl0")
    case True
    with 2 show ?thesis by auto
  next
    case False
    show ?thesis
    proof (cases "subtree_at (Branches c, False) l sl")
      case None
      with False 2 have s1: "subtree_at (Branches c, True) r sl = Some t1" by simp
      have IH: "subtree_at (Branches c, True) r sl2 = Some t2 \<and>
         graft (Branches c, True) r sl2 g = graft (Branches c, True) r sl (\<lambda>u. graft sl u sl2 g)"
        using 2(2)[OF False None s1 2(4)] 2(5,6) by auto
      note ss = subtree_at_slot[OF s1] subtree_at_subset[OF s1] subtree_at_slot[OF 2(4)]
      have ne: "sl2 \<noteq> sl0" using ss False 2(5,6) by auto
      have "subtree_at (Branches c, False) l sl2 = None"
      proof (cases "subtree_at (Branches c, False) l sl2")
        case (Some x)
        from subtree_at_slot[OF Some] ss None 2(5,6) show ?thesis by auto
      qed simp
      with IH ne None False show ?thesis by simp
    next
      case (Some x)
      with False 2 have s1: "subtree_at (Branches c, False) l sl = Some t1" by simp
      have IH: "subtree_at (Branches c, False) l sl2 = Some t2 \<and>
         graft (Branches c, False) l sl2 g = graft (Branches c, False) l sl (\<lambda>u. graft sl u sl2 g)"
        using 2(1)[OF False s1 2(4)] 2(5,6) by auto
      note ss = subtree_at_slot[OF s1] subtree_at_subset[OF s1] subtree_at_slot[OF 2(4)]
      have ne: "sl2 \<noteq> sl0" using ss False 2(5,6) by auto
      with IH Some False show ?thesis by simp
    qed
  qed
qed

lemma rspine_subtree:
  "(sl, sub) \<in> set (rspine sl0 t) \<Longrightarrow> distinct (nodes t) \<Longrightarrow>
   fst sl0 \<notin> Branches ` set (nodes t) \<Longrightarrow>
   subtree_at sl0 t sl = Some sub
   \<and> (\<exists>pre. leaves t = pre @ leaves sub \<and> (\<forall>g. leaves (graft sl0 t sl g) = pre @ leaves (g sub)))"
proof (induction t arbitrary: sl0)
  case (Leaf c)
  then show ?case by auto
next
  case (Node c l r)
  show ?case
  proof (cases "(sl, sub) = (sl0, Node c l r)")
    case True
    then show ?thesis by auto
  next
    case False
    with Node.prems have m: "(sl, sub) \<in> set (rspine (Branches c, True) r)" by auto
    have IH: "subtree_at (Branches c, True) r sl = Some sub
      \<and> (\<exists>pre. leaves r = pre @ leaves sub
            \<and> (\<forall>g. leaves (graft (Branches c, True) r sl g) = pre @ leaves (g sub)))"
      using Node.prems by (intro Node.IH(2)[OF m]) auto
    then have sr: "subtree_at (Branches c, True) r sl = Some sub" by simp
    note ss = subtree_at_slot[OF sr]
    have ne: "sl \<noteq> sl0" using ss Node.prems by auto
    have n: "subtree_at (Branches c, False) l sl = None"
    proof (cases "subtree_at (Branches c, False) l sl")
      case (Some x)
      from subtree_at_slot[OF Some] ss Node.prems show ?thesis by auto
    qed simp
    from IH obtain pre where "leaves r = pre @ leaves sub"
      "\<forall>g. leaves (graft (Branches c, True) r sl g) = pre @ leaves (g sub)" by blast
    with sr ne n show ?thesis
      by (auto intro!: exI[of _ "leaves l @ pre"])
  qed
qed

lemma eb_insert_dup_hole_repr:
  "repr s sl (Node h l r) \<Longrightarrow>
   eb_insert_dup_hole s (Branches h) (Branches sb) =
     (case dup_hole s (Node h l r) sb of (hf, sf) \<Rightarrow> Some (Branches hf, Branches sf))"
proof (induction s "Node h l r" sb arbitrary: sl h l r rule: dup_hole.induct)
  case (2 s h l x sb)
  then show ?case by (subst eb_insert_dup_hole.simps) simp
next
  case (3 s h l h' l' r' sb)
  from 3(2) have rr: "repr s (Branches h, True) (Node h' l' r')" by simp
  show ?case
    using 3(1)[OF rr] 3(2)
    by (subst eb_insert_dup_hole.simps) (auto simp add: Let_def split: if_splits)
qed

lemma dup_hole_spine:
  "dup_hole s (Node h l r) sb = (hf, sf) \<Longrightarrow>
   (\<exists>x. ((Branches hf, True), Leaf x) \<in> set (rspine sl (Node h l r)))
   \<and> (\<exists>hl hr hsl. (hsl, Node hf hl hr) \<in> set (rspine sl (Node h l r)))
   \<and> (sf = sb \<or> (\<exists>sl' l' r'. (sl', Node sf l' r') \<in> set (rspine sl (Node h l r))))"
proof (induction s "Node h l r" sb arbitrary: sl h l r rule: dup_hole.induct)
  case (2 s h l x sb)
  then show ?case by auto
next
  case (3 s h l h' l' r' sb)
  from 3(1)[of "(Branches h, True)"] 3(2) show ?case
    by (auto split: if_splits)
qed

lemma ebtree_eqI:
  fixes a b :: "'k eb_store"
  assumes "\<And>side. eb_root a side = eb_root b side"
    and "\<And>c side. branches (cells a c) side = branches (cells b c) side"
    and "\<And>c. node_p (cells a c) = node_p (cells b c)"
    and "\<And>c. leaf_p (cells a c) = leaf_p (cells b c)"
    and "\<And>c. nbit (cells a c) = nbit (cells b c)"
    and "\<And>c. key (cells a c) = key (cells b c)"
  shows "a = b"
proof -
  have "cells a c = cells b c" for c
    using assms(2-6)[of c] by (intro eb_cell.equality) (auto simp: fun_eq_iff)
  then have "cells a = cells b" by (simp add: fun_eq_iff)
  moreover have "eb_root a = eb_root b" using assms(1) by (simp add: fun_eq_iff)
  ultimately show ?thesis by (intro eb_store.equality) auto
qed

lemma rspine_repr:
  assumes "(sl, sub) \<in> set (rspine sl0 t)" and "repr s sl0 t"
  shows "repr s sl sub"
  using assms by (induction sl0 t rule: rspine.induct) auto

lemma rspine_slot:
  "(sl, sub) \<in> set (rspine sl0 t) \<Longrightarrow> sl = sl0 \<or> fst sl \<in> Branches ` set (nodes t)"
  by (induction sl0 t rule: rspine.induct) auto

lemma rspine_subset:
  "(sl, sub) \<in> set (rspine sl0 t) \<Longrightarrow>
   set (nodes sub) \<subseteq> set (nodes t) \<and> set (leaves sub) \<subseteq> set (leaves t)"
  by (induction sl0 t rule: rspine.induct) auto

lemma eb_insert_dup_linked:
  assumes r: "repr s sl1 (Node h l r)" and sl1: "fst sl1 \<noteq> Null" "fst sl1 \<noteq> Branches new"
    and new: "new \<notin> set (nodes (Node h l r))" "new \<notin> set (leaves (Node h l r))"
  shows "\<exists>sl2 sub2 b. eb_insert_dup s (Branches h) (Branches new) =
           Some (linked (upd_cell s new (\<lambda>n. n\<lparr>nbit := b, node_p := sl2\<rparr>)) new sub2 sl2 True,
                 Branches new)
         \<and> (sl2, sub2) \<in> set (rspine sl1 (Node h l r))
         \<and> (b = -1 \<or> (\<exists>c \<in> set (nodes (Node h l r)). b = nbit (cells s c) - 1))"
proof -
  let ?th = "Node h l r"
  obtain hf sf where dh: "dup_hole s ?th h = (hf, sf)" by (cases "dup_hole s ?th h")
  have top: "(sl1, ?th) \<in> set (rspine sl1 ?th)" by simp
  from dup_hole_spine[OF dh, of sl1] top
  have "\<exists>sl' l' r'. (sl', Node sf l' r') \<in> set (rspine sl1 ?th)" by blast
  with dup_hole_spine[OF dh, of sl1] obtain x hl hr hsl sl' l' r' where
    sx: "((Branches hf, True), Leaf x) \<in> set (rspine sl1 ?th)"
    and shf: "(hsl, Node hf hl hr) \<in> set (rspine sl1 ?th)"
    and ssf: "(sl', Node sf l' r') \<in> set (rspine sl1 ?th)"
    by blast
  have loop: "eb_insert_dup_hole s (Branches h) (Branches h) = Some (Branches hf, Branches sf)"
    using eb_insert_dup_hole_repr[OF r, of h] dh by simp
  from rspine_repr[OF sx r] have rx: "branches (cells s hf) True = (Branches x, False)"
    "leaf_p (cells s x) = (Branches hf, True)" by auto
  from rspine_repr[OF ssf r] have rsf: "node_p (cells s sf) = sl'" "slot_val s sl' = (Branches sf, True)"
    by auto
  from rspine_subset[OF sx] rspine_subset[OF shf] rspine_subset[OF ssf] new
  have ne: "x \<noteq> new" "hf \<noteq> new" "sf \<noteq> new" by auto
  from rspine_slot[OF ssf] sl1 new have sl'n: "fst sl' \<noteq> Null" "fst sl' \<noteq> Branches new" by auto
  show ?thesis
  proof (cases "nbit (cells s hf) < -1")
    case True
    have "eb_insert_dup s (Branches h) (Branches new) =
        Some (linked (upd_cell s new (\<lambda>n. n\<lparr>nbit := -1, node_p := (Branches hf, True)\<rparr>)) new (Leaf x)
                (Branches hf, True) True, Branches new)"
      using loop True rx ne
      apply (simp add: eb_insert_dup_def Let_def)
      apply (rule ebtree_eqI)
           apply (auto simp: linked_branches)
      done
    with sx show ?thesis by blast
  next
    case False
    have "eb_insert_dup s (Branches h) (Branches new) =
        Some (linked (upd_cell s new (\<lambda>n. n\<lparr>nbit := nbit (cells s sf) - 1, node_p := sl'\<rparr>)) new
                (Node sf l' r') sl' True, Branches new)"
      using loop False rsf ne sl'n
      apply (simp add: eb_insert_dup_def Let_def)
      apply (rule ebtree_eqI)
           apply (auto simp: linked_branches)
      done
    moreover have "sf \<in> set (nodes ?th)" using rspine_subset[OF ssf] by auto
    ultimately show ?thesis using ssf by blast
  qed
qed

section \<open>The result of an insertion\<close>

lemma upd_cell_twice [simp]:
  "upd_cell (upd_cell s c f) c g = upd_cell s c (\<lambda>n. g (f n))"
  by (simp add: upd_cell_def)

lemma linked_cong_cell:
  "cells s1 = cells s2 \<Longrightarrow> eb_root s1 = eb_root s2 \<Longrightarrow> (s1 :: ebtree) = s2"
  by (cases s1; cases s2) auto

lemma rspine_repr_frame:
  assumes "repr s sl t" "new \<notin> set (nodes t)" "new \<notin> set (leaves t)" "fst sl \<noteq> Branches new"
  shows "repr (upd_cell s new f) sl t"
proof -
  have "repr (upd_cell s new f) sl t = repr s sl t"
    using assms by (intro repr_frame) auto
  with assms show ?thesis by simp
qed

lemma eb32_insert_prelude:
  assumes r: "repr s (Root, False) t" and d: "distinct (nodes t)"
    and new: "new \<notin> set (nodes t)" "new \<notin> set (leaves t)"
    and ip: "ins_pos ub s (key (cells s new)) (Root, False) t = (sl1, sub1)"
  shows "subtree_at (Root, False) t sl1 = Some sub1"
    and "fst sl1 \<noteq> Null" and "fst sl1 \<noteq> Branches new" and "root_id sub1 \<noteq> new"
    and "eb_root s False = tree_ref t" and "eb_root s False \<noteq> NULL"
    and "eb32_insert_descend ub s (Branches new) (key (cells s new)) Root False (tree_ref t) =
      Some (upd_cell s new (\<lambda>n. n\<lparr>node_p := sl1\<rparr>), Branches (root_id sub1), up_ptr_of sub1,
              fst sl1, snd sl1, tree_ref sub1)"
proof -
  have wf0: "fst (Root, False) \<notin> Branches ` set (nodes t)" by auto
  show sub: "subtree_at (Root, False) t sl1 = Some sub1"
    by (rule ins_pos_subtree[OF d wf0 ip])
  note ss = subtree_at_subset[OF sub] subtree_at_slot[OF sub]
  show "fst sl1 \<noteq> Null" "fst sl1 \<noteq> Branches new" using ss new by auto
  show "root_id sub1 \<noteq> new" using ss new by (cases sub1) auto
  show top: "eb_root s False = tree_ref t" using repr_top[OF r] by simp
  then show "eb_root s False \<noteq> NULL" by (cases t) auto
  show "eb32_insert_descend ub s (Branches new) (key (cells s new)) Root False (tree_ref t) =
      Some (upd_cell s new (\<lambda>n. n\<lparr>node_p := sl1\<rparr>), Branches (root_id sub1), up_ptr_of sub1,
              fst sl1, snd sl1, tree_ref sub1)"
    using eb32_insert_descend_repr[OF r new refl, of ub] ip by simp
qed

lemma eb32_insert_unique:
  assumes r: "repr s (Root, False) t" and d: "distinct (nodes t)"
    and new: "new \<notin> set (nodes t)" "new \<notin> set (leaves t)"
    and ip: "ins_pos ub s (key (cells s new)) (Root, False) t = (sl1, sub1)"
    and eq: "key (cells s new) = key (cells s (root_id sub1))" and u: "snd (eb_root s True)"
  shows "eb32_insert ub s Root (Branches new) =
           Some (upd_cell s new (\<lambda>n. n\<lparr>node_p := sl1, nbit := -1\<rparr>), Branches (root_id sub1))"
  using eb32_insert_prelude[OF r d new ip] eq u
  by (simp add: eb32_insert_def Let_def)

lemma eb32_insert_link:
  assumes r: "repr s (Root, False) t" and d: "distinct (nodes t)"
    and new: "new \<notin> set (nodes t)" "new \<notin> set (leaves t)"
    and ip: "ins_pos ub s (key (cells s new)) (Root, False) t = (sl1, sub1)"
    and c: "key (cells s new) \<noteq> key (cells s (root_id sub1))
            \<or> is_leaf sub1 \<and> \<not> snd (eb_root s True)"
  shows "eb32_insert ub s Root (Branches new) =
       Some (linked (upd_cell s new (\<lambda>n. n\<lparr>node_p := sl1,
                nbit := (if key (cells s new) = key (cells s (root_id sub1)) then -1
                         else flsnz (key (cells s new) XOR key (cells s (root_id sub1))) - 1)\<rparr>))
               new sub1 sl1 (key (cells s new) \<ge> key (cells s (root_id sub1))), Branches new)"
proof (cases "key (cells s new) = key (cells s (root_id sub1))")
  case False
  with eb32_insert_prelude[OF r d new ip] show ?thesis
    by (simp add: eb32_insert_def Let_def eb32_insert_link_linked)
next
  case True
  with c obtain x where x: "sub1 = Leaf x" and nu: "\<not> snd (eb_root s True)" by (cases sub1) auto
  from eb32_insert_prelude[OF r d new ip] True nu x show ?thesis
    by (simp add: eb32_insert_def Let_def eb32_insert_link_linked[where sub="Leaf x", simplified])
qed

lemma eb32_insert_dup:
  assumes r: "repr s (Root, False) t" and d: "distinct (nodes t)"
    and new: "new \<notin> set (nodes t)" "new \<notin> set (leaves t)"
    and ip: "ins_pos ub s (key (cells s new)) (Root, False) t = (sl1, sub1)"
    and eq: "key (cells s new) = key (cells s (root_id sub1))" and nu: "\<not> snd (eb_root s True)"
    and nl: "\<not> is_leaf sub1"
  shows "\<exists>sl2 sub2 b. eb32_insert ub s Root (Branches new) =
           Some (linked (upd_cell s new (\<lambda>n. n\<lparr>nbit := b, node_p := sl2\<rparr>)) new sub2 sl2 True,
                 Branches new)
         \<and> (sl2, sub2) \<in> set (rspine sl1 sub1)
         \<and> (b = -1 \<or> (\<exists>c \<in> set (nodes sub1). b = nbit (cells s c) - 1))"
proof -
  note p = eb32_insert_prelude[OF r d new ip]
  note ss = subtree_at_subset[OF p(1)]
  from nl obtain h l' r' where Node: "sub1 = Node h l' r'" by (cases sub1) auto
  let ?s2 = "upd_cell s new (\<lambda>n. n\<lparr>node_p := sl1, nbit := -1\<rparr>)"
  have rs: "repr s sl1 (Node h l' r')" using subtree_at_repr[OF p(1) r] Node by simp
  have rs2: "repr ?s2 sl1 (Node h l' r')"
    using ss new p(3) Node by (intro rspine_repr_frame[OF rs]) auto
  have nn: "new \<notin> set (nodes (Node h l' r'))" "new \<notin> set (leaves (Node h l' r'))"
    using ss new Node by auto
  from eb_insert_dup_linked[OF rs2 p(2,3) nn]
  obtain sl2 sub2 b where
    dup: "eb_insert_dup ?s2 (Branches h) (Branches new) =
       Some (linked (upd_cell ?s2 new (\<lambda>n. n\<lparr>nbit := b, node_p := sl2\<rparr>)) new sub2 sl2 True,
           Branches new)"
    and sp: "(sl2, sub2) \<in> set (rspine sl1 (Node h l' r'))"
    and b: "b = -1 \<or> (\<exists>c \<in> set (nodes (Node h l' r')). b = nbit (cells ?s2 c) - 1)"
    by blast
  have "eb32_insert ub s Root (Branches new) =
     Some (linked (upd_cell s new (\<lambda>n. n\<lparr>nbit := b, node_p := sl2\<rparr>)) new sub2 sl2 True,
           Branches new)"
    using p eq nu Node dup
    by (simp add: eb32_insert_def Let_def)
  moreover have "b = -1 \<or> (\<exists>c \<in> set (nodes sub1). b = nbit (cells s c) - 1)"
    using b nn Node by auto
  ultimately show ?thesis using Node sp by blast
qed

lemma eb32_insert_empty:
  assumes "eb_root s False = NULL"
  shows "eb32_insert ub s Root (Branches new) =
     Some (upd_cell (upd_slot s (Root, False) (Branches new, False)) new
             (\<lambda>n. n\<lparr>leaf_p := (Root, False), node_p := NULL\<rparr>), Branches new)"
  using assms by (simp add: eb32_insert_def)

section \<open>The result of a deletion\<close>

lemma subtree_at_lift:
  assumes "subtree_at (Branches c, side) u sl = Some sub"
    and "distinct (nodes (Node c l r))" and "fst sl0 \<notin> Branches ` set (nodes (Node c l r))"
    and "side = False \<and> u = l \<or> side = True \<and> u = r"
  shows "subtree_at sl0 (Node c l r) sl = Some sub"
proof -
  note ss = subtree_at_slot[OF assms(1)]
  have ne: "sl \<noteq> sl0" using ss assms by auto
  show ?thesis
  proof (cases side)
    case True
    have "subtree_at (Branches c, False) l sl = None"
    proof (cases "subtree_at (Branches c, False) l sl")
      case (Some x)
      from subtree_at_slot[OF Some] ss assms True show ?thesis by auto
    qed simp
    with ne assms True show ?thesis by simp
  next
    case False
    with ne assms show ?thesis by simp
  qed
qed

lemma node_position:
  "repr s sl0 t \<Longrightarrow> c \<in> set (nodes t) \<Longrightarrow> distinct (nodes t) \<Longrightarrow>
   fst sl0 \<notin> Branches ` set (nodes t) \<Longrightarrow>
   \<exists>l r. subtree_at sl0 t (node_p (cells s c)) = Some (Node c l r)"
proof (induction t arbitrary: sl0)
  case (Leaf d)
  then show ?case by simp
next
  case (Node d l r)
  show ?case
  proof (cases "c = d")
    case True
    with Node.prems show ?thesis by auto
  next
    case False
    show ?thesis
    proof (cases "c \<in> set (nodes l)")
      case True
      from Node.prems have "repr s (Branches d, False) l" by simp
      from Node.IH(1)[OF this True] Node.prems obtain l' r' where
        "subtree_at (Branches d, False) l (node_p (cells s c)) = Some (Node c l' r')" by auto
      from subtree_at_lift[OF this Node.prems(3,4)] show ?thesis by auto
    next
      case F: False
      with False Node.prems have cr: "c \<in> set (nodes r)" by auto
      from Node.prems have "repr s (Branches d, True) r" by simp
      from Node.IH(2)[OF this cr] Node.prems obtain l' r' where
        "subtree_at (Branches d, True) r (node_p (cells s c)) = Some (Node c l' r')" by auto
      from subtree_at_lift[OF this Node.prems(3,4)] show ?thesis by auto
    qed
  qed
qed

lemma leaf_parent:
  "repr s sl0 t \<Longrightarrow> c \<in> set (leaves t) \<Longrightarrow> t \<noteq> Leaf c \<Longrightarrow> distinct (nodes t) \<Longrightarrow>
   distinct (leaves t) \<Longrightarrow> fst sl0 \<notin> Branches ` set (nodes t) \<Longrightarrow>
   \<exists>p l r. leaf_p (cells s c) = (Branches p, l \<noteq> Leaf c)
      \<and> subtree_at sl0 t (node_p (cells s p)) = Some (Node p l r)
      \<and> (l = Leaf c \<or> r = Leaf c)"
proof (induction t arbitrary: sl0)
  case (Leaf d)
  then show ?case by simp
next
  case (Node d l r)
  from Node.prems have rl: "repr s (Branches d, False) l" and rr: "repr s (Branches d, True) r"
    and np: "node_p (cells s d) = sl0" by auto
  show ?case
  proof (cases "l = Leaf c \<or> r = Leaf c")
    case True
    have "leaf_p (cells s c) = (Branches d, l \<noteq> Leaf c)"
      using True rl rr Node.prems by (cases "l = Leaf c") auto
    with np True show ?thesis by auto
  next
    case False
    show ?thesis
    proof (cases "c \<in> set (leaves l)")
      case True
      from Node.IH(1)[OF rl True] False Node.prems obtain p l' r' where
        p: "leaf_p (cells s c) = (Branches p, l' \<noteq> Leaf c)"
        "subtree_at (Branches d, False) l (node_p (cells s p)) = Some (Node p l' r')"
        "l' = Leaf c \<or> r' = Leaf c" by auto
      from subtree_at_lift[OF p(2) Node.prems(4,6)] p show ?thesis by auto
    next
      case F: False
      with Node.prems have cr: "c \<in> set (leaves r)" by auto
      from Node.IH(2)[OF rr cr] False Node.prems obtain p l' r' where
        p: "leaf_p (cells s c) = (Branches p, l' \<noteq> Leaf c)"
        "subtree_at (Branches d, True) r (node_p (cells s p)) = Some (Node p l' r')"
        "l' = Leaf c \<or> r' = Leaf c" by auto
      from subtree_at_lift[OF p(2) Node.prems(4,6)] p show ?thesis by auto
    qed
  qed
qed

lemma eb_delete_fix_upd:
  "branches (cells s p) pside = tree_ref u \<Longrightarrow>
   eb_delete_fix s (Branches p) pside = Some (upd_up s u (Branches p, pside))"
  by (cases u) (simp_all add: eb_delete_fix_def)

lemma store_up_tree_ref:
  "(if snd (tree_ref u) = False
    then store_node s (fst (tree_ref u)) (\<lambda>n. n\<lparr>leaf_p := v\<rparr>)
    else store_node s (fst (tree_ref u)) (\<lambda>n. n\<lparr>node_p := v\<rparr>)) = Some (upd_up s u v)"
  by (cases u) simp_all

lemma eb_delete_root_leaf:
  assumes "leaf_p (cells s c) = (Root, False)" and "fst (eb_root s True) = Null"
  shows "eb_delete s (Branches c) =
     Some (upd_cell (upd_slot s (Root, False) NULL) c (\<lambda>n. n\<lparr>leaf_p := NULL\<rparr>))"
  using assms by (simp add: eb_delete_def Let_def)

lemma eb_delete_splice_phase:
  assumes lp: "leaf_p (cells s c) = (Branches p, pside)"
    and br: "fst (branches (cells s p) True) \<noteq> Null"
    and sib: "branches (cells s p) (\<not> pside) = tree_ref sibt"
    and slp: "node_p (cells s p) = slp" "fst slp \<noteq> Null"
  shows "eb_delete s (Branches c) =
     (let s3 = spliced s p sibt slp; np = node_p (cells s3 c) in
      if np = NULL then Some (upd_cell s3 c (\<lambda>n. n\<lparr>leaf_p := NULL\<rparr>))
      else do {
        s4 \<leftarrow> store_node s3 (Branches p) (\<lambda>n. n\<lparr>node_p := np\<rparr>);
        nb \<leftarrow> load_node s4 (Branches c) branches;
        s5 \<leftarrow> store_node s4 (Branches p) (\<lambda>n. n\<lparr>branches := nb\<rparr>);
        nbt \<leftarrow> load_node s5 (Branches c) nbit;
        s6 \<leftarrow> store_node s5 (Branches p) (\<lambda>n. n\<lparr>nbit := nbt\<rparr>);
        pnp' \<leftarrow> load_node s6 (Branches p) node_p;
        s7 \<leftarrow> store_b s6 (fst pnp') (snd pnp') (Branches p, EB_NODE);
        s8 \<leftarrow> eb_delete_fix s7 (Branches p) False;
        s9 \<leftarrow> eb_delete_fix s8 (Branches p) True;
        store_node s9 (Branches c) (\<lambda>n. n\<lparr>leaf_p := NULL\<rparr>)
      })"
proof -
  have 1: "store_b s (fst slp) (snd slp) (tree_ref sibt) = Some (upd_slot s slp (tree_ref sibt))"
    using slp(2) by simp
  have 2: "load_b (upd_slot s slp (tree_ref sibt)) (fst slp) (snd slp) = Some (tree_ref sibt)"
    using slp(2) by (simp add: load_b_slot)
  have ne: "(Branches p, pside) \<noteq> NULL" by simp
  show ?thesis
    unfolding eb_delete_def
    apply (simp only: load_node_simps lp Option.bind.simps ne if_False Let_def tag_simps fst_conv snd_conv
        load_b_simps br sib slp(1) 1 2)
    apply (cases sibt)
     apply (simp_all add: spliced_def del: upd_cell_twice)
    done
qed

lemma eb_delete_spliced:
  assumes lp: "leaf_p (cells s c) = (Branches p, pside)"
    and br: "fst (branches (cells s p) True) \<noteq> Null"
    and sib: "branches (cells s p) (\<not> pside) = tree_ref sibt"
    and slp: "node_p (cells s p) = slp" "fst slp \<noteq> Null"
    and np: "node_p (cells (spliced s p sibt slp) c) = NULL"
  shows "eb_delete s (Branches c) =
     Some (upd_cell (spliced s p sibt slp) c (\<lambda>n. n\<lparr>leaf_p := NULL\<rparr>))"
  using np by (simp add: eb_delete_splice_phase[OF lp br sib slp] Let_def)

lemma eb_delete_moved:
  assumes lp: "leaf_p (cells s c) = (Branches p, pside)"
    and br: "fst (branches (cells s p) True) \<noteq> Null"
    and sib: "branches (cells s p) (\<not> pside) = tree_ref sibt"
    and slp: "node_p (cells s p) = slp" "fst slp \<noteq> Null"
    and np: "node_p (cells (spliced s p sibt slp) c) = slc" "slc \<noteq> NULL" "fst slc \<noteq> Null"
      "fst slc \<noteq> Branches p"
    and cp: "c \<noteq> p"
    and ch: "branches (cells (spliced s p sibt slp) c) False = tree_ref lc"
      "branches (cells (spliced s p sibt slp) c) True = tree_ref rc"
  shows "eb_delete s (Branches c) =
     Some (upd_cell (moved (spliced s p sibt slp) c p lc rc slc) c (\<lambda>n. n\<lparr>leaf_p := NULL\<rparr>))"
proof -
  let ?s3 = "spliced s p sibt slp"
  let ?s6 = "upd_cell ?s3 p
        (\<lambda>n. n\<lparr>node_p := slc, branches := branches (cells ?s3 c), nbit := nbit (cells ?s3 c)\<rparr>)"
  let ?s7 = "upd_slot ?s6 slc (Branches p, True)"
  have 3: "store_b ?s6 (fst slc) (snd slc) (Branches p, True) = Some ?s7"
    using np(3) by simp
  have 4: "eb_delete_fix ?s7 (Branches p) False = Some (upd_up ?s7 lc (Branches p, False))"
    using ch np(4) by (intro eb_delete_fix_upd) auto
  have 5: "eb_delete_fix (upd_up ?s7 lc (Branches p, False)) (Branches p) True
      = Some (upd_up (upd_up ?s7 lc (Branches p, False)) rc (Branches p, True))"
    using ch np(4) by (intro eb_delete_fix_upd) auto
  show ?thesis
    using np(1,2) cp
    by (simp add: eb_delete_splice_phase[OF lp br sib slp] Let_def 3 4 5 moved_def)
qed

lemma spliced_reads [simp]:
  "key (cells (spliced s p sibt slp) d) = key (cells s d)"
  "nbit (cells (spliced s p sibt slp) d) = nbit (cells s d)"
  "leaf_p (cells (spliced s p sibt slp) d) = (if sibt = Leaf d then slp else leaf_p (cells s d))"
  "node_p (cells (spliced s p sibt slp) d) =
     (if d = p then NULL else if d = root_id sibt \<and> sibt \<noteq> Leaf d then slp
      else node_p (cells s d))"
  "branches (cells (spliced s p sibt slp) d) side =
     (if slp = (Branches d, side) then tree_ref sibt else branches (cells s d) side)"
  "eb_root (spliced s p sibt slp) side =
     (if slp = (Root, side) then tree_ref sibt else eb_root s side)"
  by (cases sibt; auto simp: spliced_def)+

lemma spliced_slot_val:
  "fst slp \<noteq> Null \<Longrightarrow>
   slot_val (spliced s p sibt slp) sl = (if sl = slp then tree_ref sibt else slot_val s sl)"
  by (cases sl; cases "fst sl"; auto)

lemma spliced_repr:
  assumes r: "repr s sl0 t" and sub: "subtree_at sl0 t slp = Some (Node p l r)"
    and c: "l = Leaf c \<or> r = Leaf c"
    and d: "distinct (nodes t)" "distinct (leaves t)"
    and sl0: "fst sl0 \<notin> Branches ` set (nodes t)" "fst sl0 \<noteq> Null"
  shows "repr (spliced s p (sibling_of c (Node p l r)) slp) sl0 (graft sl0 t slp (sibling_of c))"
proof (rule graft_repr[OF r sub d])
  let ?sib = "sibling_of c (Node p l r)"
  let ?s' = "spliced s p ?sib slp"
  note ss = subtree_at_subset[OF sub] subtree_at_slot[OF sub] subtree_at_slot_outside[OF sub d(1) sl0(1)]
  note ds = subtree_at_distinct(1)[OF sub d(1)] subtree_at_distinct(2)[OF sub d(2)]
  have slnn: "fst slp \<noteq> Null" using ss sl0 by auto
  have rs: "repr s slp (Node p l r)" by (rule subtree_at_repr[OF sub r])
  obtain side where rsib: "repr s (Branches p, side) ?sib" and sibin: "?sib = l \<or> ?sib = r"
    using rs by (cases "l = Leaf c") auto
  have pn: "p \<notin> set (nodes ?sib)" using ds sibin by auto
  show "repr ?s' slp (sibling_of c (Node p l r))"
  proof (rule repr_move[OF rsib])
    show "slot_val ?s' slp = tree_ref ?sib" using slnn by (simp add: spliced_slot_val)
    show "up_of ?s' ?sib = slp" using pn by (cases ?sib) auto
    show "\<forall>c\<in>set (nodes ?sib). branches (cells ?s' c) = branches (cells s c)"
      using ss sibin by (auto simp: fun_eq_iff image_iff)
    show "\<forall>c\<in>set (inner_nodes ?sib). node_p (cells ?s' c) = node_p (cells s c)"
      using ds sibin pn by (cases ?sib) auto
    show "\<forall>c\<in>set (inner_leaves ?sib). leaf_p (cells ?s' c) = leaf_p (cells s c)"
      by (cases ?sib) auto
  qed
  show "slp \<noteq> sl0 \<longrightarrow> slot_val ?s' sl0 = slot_val s sl0"
    using slnn by (simp add: spliced_slot_val)
  show "\<forall>c\<in>set (nodes t) - set (nodes (Node p l r)).
       node_p (cells ?s' c) = node_p (cells s c) \<and>
       (\<forall>side. (Branches c, side) \<noteq> slp \<longrightarrow>
               branches (cells ?s' c) side = branches (cells s c) side)"
    using sibin by (cases ?sib) auto
  show "\<forall>c\<in>set (leaves t) - set (leaves (Node p l r)). leaf_p (cells ?s' c) = leaf_p (cells s c)"
    using sibin by (cases ?sib) auto
qed

lemma moved_reads [simp]:
  "key (cells (moved s c p lc rc slc) d) = key (cells s d)"
  "nbit (cells (moved s c p lc rc slc) d) = (if d = p then nbit (cells s c) else nbit (cells s d))"
  "leaf_p (cells (moved s c p lc rc slc) d) =
     (if rc = Leaf d then (Branches p, True) else if lc = Leaf d then (Branches p, False)
      else leaf_p (cells s d))"
  "eb_root (moved s c p lc rc slc) side =
     (if slc = (Root, side) then (Branches p, True) else eb_root s side)"
  by (cases lc; cases rc; auto simp: moved_def)+

lemma moved_node_p:
  "node_p (cells (moved s c p lc rc slc) d) =
     (if d = root_id rc \<and> rc \<noteq> Leaf d then (Branches p, True)
      else if d = root_id lc \<and> lc \<noteq> Leaf d then (Branches p, False)
      else if d = p then slc else node_p (cells s d))"
  by (cases lc; cases rc; auto simp: moved_def)

lemma moved_branches:
  "branches (cells (moved s c p lc rc slc) d) side =
     (if slc = (Branches d, side) then (Branches p, True)
      else if d = p then branches (cells s c) side else branches (cells s d) side)"
  by (cases lc; cases rc; auto simp: moved_def)

lemma moved_slot_val:
  "fst slc \<noteq> Null \<Longrightarrow> slot_val (moved s c p lc rc slc) sl =
     (if sl = slc then (Branches p, True)
      else if fst sl = Branches p then branches (cells s c) (snd sl) else slot_val s sl)"
  by (cases sl; cases "fst sl"; auto simp: moved_branches)

lemma moved_repr:
  assumes r: "repr s sl0 t" and sub: "subtree_at sl0 t slc = Some (Node c lc rc)"
    and p: "p \<notin> set (nodes t)" "fst sl0 \<noteq> Branches p"
    and d: "distinct (nodes t)" "distinct (leaves t)"
    and sl0: "fst sl0 \<notin> Branches ` set (nodes t)" "fst sl0 \<noteq> Null"
  shows "repr (moved s c p lc rc slc) sl0 (graft sl0 t slc (renamed p))"
proof (rule graft_repr[OF r sub d])
  let ?s' = "moved s c p lc rc slc"
  note ss = subtree_at_subset[OF sub] subtree_at_slot[OF sub] subtree_at_slot_outside[OF sub d(1) sl0(1)]
  note ds = subtree_at_distinct(1)[OF sub d(1)] subtree_at_distinct(2)[OF sub d(2)]
  have slnn: "fst slc \<noteq> Null" "fst slc \<noteq> Branches p" using ss sl0 p by auto
  have rs: "repr s slc (Node c lc rc)" by (rule subtree_at_repr[OF sub r])
  then have rl: "repr s (Branches c, False) lc" and rr: "repr s (Branches c, True) rc" by auto
  have pl: "p \<notin> set (nodes lc)" "p \<notin> set (nodes rc)" "p \<noteq> c" using ss p by auto
  have disj: "set (leaves lc) \<inter> set (leaves rc) = {}" "set (nodes lc) \<inter> set (nodes rc) = {}"
    "c \<notin> set (nodes lc)" "c \<notin> set (nodes rc)" "distinct (nodes lc)" "distinct (nodes rc)"
    using ds by auto
  have ml: "repr ?s' (Branches p, False) lc"
  proof (rule repr_move[OF rl])
    show "slot_val ?s' (Branches p, False) = tree_ref lc"
      using slnn repr_top[OF rl] by (auto simp: moved_branches)
    show "up_of ?s' lc = (Branches p, False)"
      using disj by (cases lc; cases rc) (auto simp: moved_node_p)
    show "\<forall>c\<in>set (nodes lc). branches (cells ?s' c) = branches (cells s c)"
      using ss pl by (auto simp: fun_eq_iff image_iff moved_branches)
    show "\<forall>c\<in>set (inner_nodes lc). node_p (cells ?s' c) = node_p (cells s c)"
      using disj pl by (cases lc; cases rc) (auto simp: moved_node_p)
    show "\<forall>c\<in>set (inner_leaves lc). leaf_p (cells ?s' c) = leaf_p (cells s c)"
      using disj by (cases lc; cases rc) auto
  qed
  have mr: "repr ?s' (Branches p, True) rc"
  proof (rule repr_move[OF rr])
    show "slot_val ?s' (Branches p, True) = tree_ref rc"
      using slnn repr_top[OF rr] by (auto simp: moved_branches)
    show "up_of ?s' rc = (Branches p, True)"
      using disj by (cases lc; cases rc) (auto simp: moved_node_p)
    show "\<forall>c\<in>set (nodes rc). branches (cells ?s' c) = branches (cells s c)"
      using ss pl by (auto simp: fun_eq_iff image_iff moved_branches)
    show "\<forall>c\<in>set (inner_nodes rc). node_p (cells ?s' c) = node_p (cells s c)"
      using disj pl by (cases lc; cases rc) (auto simp: moved_node_p)
    show "\<forall>c\<in>set (inner_leaves rc). leaf_p (cells ?s' c) = leaf_p (cells s c)"
      using disj by (cases lc; cases rc) auto
  qed
  have top: "slot_val ?s' slc = (Branches p, True)" "node_p (cells ?s' p) = slc"
    using slnn pl by (cases lc; cases rc; auto simp: moved_slot_val moved_node_p)+
  show "repr ?s' slc (renamed p (Node c lc rc))"
    using ml mr top by simp
  show "slc \<noteq> sl0 \<longrightarrow> slot_val ?s' sl0 = slot_val s sl0"
    using slnn p by (simp add: moved_slot_val)
  show "\<forall>d\<in>set (nodes t) - set (nodes (Node c lc rc)).
       node_p (cells ?s' d) = node_p (cells s d) \<and>
       (\<forall>side. (Branches d, side) \<noteq> slc \<longrightarrow>
               branches (cells ?s' d) side = branches (cells s d) side)"
    using p by (cases lc; cases rc) (auto simp: moved_node_p moved_branches)
  show "\<forall>d\<in>set (leaves t) - set (leaves (Node c lc rc)). leaf_p (cells ?s' d) = leaf_p (cells s d)"
    by (cases lc; cases rc) auto
qed

section \<open>Shifts and the highest set bit\<close>

lemma word32_div2_ne0: "(w div 2 \<noteq> 0) = (2 \<le> w)" for w :: "32 word"
proof -
  have "(w div 2 \<noteq> 0) = (unat (w div 2) \<noteq> 0)" by (simp add: unat_eq_0)
  also have "\<dots> = (unat w div 2 \<noteq> 0)" by (simp add: unat_div)
  also have "\<dots> = (2 \<le> unat w)" by auto
  also have "\<dots> = (2 \<le> w)" by (simp add: word_le_nat_alt)
  finally show ?thesis .
qed

lemma shr32_ge2:
  assumes "0 \<le> b" "b < 32"
  shows "(shr32 ub y b \<ge> 2) = (drop_bit (Suc (nat b)) y \<noteq> 0)"
proof -
  have "drop_bit (Suc (nat b)) y = drop_bit 1 (drop_bit (nat b) y)" by simp
  also have "\<dots> = (drop_bit (nat b) y) div 2" by (simp add: drop_bit_eq_div)
  finally have e: "drop_bit (Suc (nat b)) y = (drop_bit (nat b) y) div 2" .
  show ?thesis using assms e word32_div2_ne0[of "drop_bit (nat b) y"] by (simp add: shr32_def)
qed

lemma shr32_bit:
  "0 \<le> b \<Longrightarrow> b < 32 \<Longrightarrow> (shr32 ub x b AND 1 \<noteq> 0) = bit x (nat b)"
  by (simp add: shr32_def and_one_eq bit_iff_odd_drop_bit mod_2_eq_odd)

lemma drop_bit_xor_eq0:
  "(drop_bit n (x XOR y) = 0) = (drop_bit n x = drop_bit n (y :: 'a::len word))"
  by (metis (no_types, lifting) bit.xor_left_self drop_bit_xor xor.right_neutral)

lemma shr32_lt:
  assumes "0 \<le> b" "b < 32"
  shows "(shr32 ub x b < shr32 ub y b) = (drop_bit (nat b) x < drop_bit (nat b) y)"
  using assms by (simp add: shr32_def)

text \<open>Two words that agree above bit h are ordered by bit h.\<close>

lemma word_less_by_bit:
  fixes a b :: "'a::len word"
  assumes "drop_bit (Suc h) a = drop_bit (Suc h) b" "\<not> bit a h" "bit b h"
  shows "a < b"
proof -
  let ?A = "unat a" and ?B = "unat b"
  have "drop_bit (Suc h) ?A = drop_bit (Suc h) ?B"
    using assms(1) by (metis unat_drop_bit_eq)
  then have 1: "?A div 2 ^ Suc h = ?B div 2 ^ Suc h"
    by (simp add: drop_bit_eq_div)
  have 2: "(?A div 2 ^ h) mod 2 = 0" "(?B div 2 ^ h) mod 2 = 1"
  proof -
    have "bit ?A h = bit a h" "bit ?B h = bit b h"
      by (auto simp: bit_unsigned_iff dest: bit_imp_le_length)
    with assms(2,3) have "even (?A div 2 ^ h)" "odd (?B div 2 ^ h)"
      by (simp_all add: bit_iff_odd)
    then show "(?A div 2 ^ h) mod 2 = 0" "(?B div 2 ^ h) mod 2 = 1"
      by presburger+
  qed
  have 3: "?A div 2 ^ h div 2 = ?B div 2 ^ h div 2"
  proof -
    have "x div 2 ^ Suc h = x div 2 ^ h div 2" for x :: nat
    proof -
      have "x div 2 ^ Suc h = x div (2 ^ h * 2)" by (simp add: mult.commute)
      also have "\<dots> = x div 2 ^ h div 2" by (rule div_mult2_eq)
      finally show ?thesis .
    qed
    with 1 show ?thesis by metis
  qed
  have "x mod 2 = 0 \<Longrightarrow> y mod 2 = 1 \<Longrightarrow> x div 2 = y div 2 \<Longrightarrow> x < y" for x y :: nat
    by presburger
  from this[OF 2 3] have "?A div 2 ^ h < ?B div 2 ^ h" .
  then have "?A < ?B"
    by (metis div_le_mono not_less)
  then show ?thesis by (simp add: word_less_nat_alt)
qed

lemma word_bits_differ:
  fixes a b :: "'a::len word"
  shows "bit a h \<noteq> bit b h \<Longrightarrow> a \<noteq> b"
  by auto

lemma lt32_cases:
  "n < 32 \<Longrightarrow> n \<in> {0,1,2,3,4,5,6,7,8,9,10,11,12,13,14,15,16,17,18,19,20,21,22,23,24,25,26,27,28,29,30,31::nat}"
  by (simp, arith)

lemma mask16: "bit (0xffff0000 :: 32 word) n = (n < 32 \<and> odd (n div 16))"
proof (cases "n < 32")
  case True
  from lt32_cases[OF this] show ?thesis by (elim insertE emptyE) simp_all
next
  case False
  then show ?thesis by (auto dest: bit_imp_le_length)
qed

lemma mask8: "bit (0xff00ff00 :: 32 word) n = (n < 32 \<and> odd (n div 8))"
proof (cases "n < 32")
  case True
  from lt32_cases[OF this] show ?thesis by (elim insertE emptyE) simp_all
next
  case False
  then show ?thesis by (auto dest: bit_imp_le_length)
qed

lemma mask4: "bit (0xf0f0f0f0 :: 32 word) n = (n < 32 \<and> odd (n div 4))"
proof (cases "n < 32")
  case True
  from lt32_cases[OF this] show ?thesis by (elim insertE emptyE) simp_all
next
  case False
  then show ?thesis by (auto dest: bit_imp_le_length)
qed

lemma mask2: "bit (0xcccccccc :: 32 word) n = (n < 32 \<and> odd (n div 2))"
proof (cases "n < 32")
  case True
  from lt32_cases[OF this] show ?thesis by (elim insertE emptyE) simp_all
next
  case False
  then show ?thesis by (auto dest: bit_imp_le_length)
qed

lemma mask1: "bit (0xaaaaaaaa :: 32 word) n = (n < 32 \<and> odd (n div 1))"
proof (cases "n < 32")
  case True
  from lt32_cases[OF this] show ?thesis by (elim insertE emptyE) simp_all
next
  case False
  then show ?thesis by (auto dest: bit_imp_le_length)
qed

lemma fls_arith1:
  fixes a b d :: nat
  assumes "0 < d" "(a div 2) * (2 * d) = (b div 2) * (2 * d)" "odd a" "a \<le> b"
  shows "b = a"
proof -
  from assms(1,2) have "a div 2 = b div 2" by simp
  with assms(3,4) show ?thesis by presburger
qed

lemma fls_step:
  assumes m: "\<And>n. bit m n = (n < 32 \<and> odd (n div d))" and d: "0 < d"
    and tree_inv: "fls_inv (2 * d) h xr"
  shows "fls_inv d h (flsnz_step m (int d) xr)"
proof -
  obtain x r where xr: "xr = (x, r)" by (cases xr)
  from tree_inv xr have h: "bit x h" and r0: "0 \<le> r"
    and all: "\<And>n. bit x n \<Longrightarrow> n \<le> h \<and> (n div (2 * d)) * (2 * d) = nat r"
    by (auto simp: fls_inv_def)
  have half: "n div (2 * d) = (n div d) div 2" for n
    by (simp add: div_mult2_eq mult.commute)
  have h32: "h < 32" using h by (auto dest: bit_imp_le_length)
  show ?thesis
  proof (cases "x AND m = 0")
    case True
    have ev: "even (n div d)" if "bit x n" for n
    proof -
      from True have "\<not> bit (x AND m) n" by simp
      with that have "\<not> bit m n" by (simp add: bit_and_iff)
      moreover have "n < 32" using that by (auto dest: bit_imp_le_length)
      ultimately show ?thesis using m by simp
    qed
    have "(n div d) * d = nat r" if "bit x n" for n
    proof -
      from all[OF that] have "(n div d) div 2 * (2 * d) = nat r" by (simp add: half)
      moreover from ev[OF that] have "(n div d) div 2 * 2 = n div d" by simp
      ultimately show ?thesis by (metis mult.assoc)
    qed
    with True h r0 all xr show ?thesis
      by (auto simp: fls_inv_def flsnz_step_def)
  next
    case False
    then obtain n where n: "bit (x AND m) n" by (auto simp: bit_eq_iff)
    then have nx: "bit x n" and nm: "odd (n div d)" using m by (auto simp: bit_and_iff)
    from all[OF nx] all[OF h] have
      e: "(n div d) div 2 * (2 * d) = (h div d) div 2 * (2 * d)" and nh: "n \<le> h"
      and hr: "(h div d) div 2 * (2 * d) = nat r"
      by (simp_all add: half)
    have "n div d \<le> h div d" using nh by (rule div_le_mono)
    from fls_arith1[OF d e nm this] have hd: "odd (h div d)" using nm by simp
    then have hm: "bit (x AND m) h" using h h32 m by (simp add: bit_and_iff)
    have val: "(k div d) * d = nat (r + int d)" if "bit (x AND m) k" for k
    proof -
      from that have kx: "bit x k" and km: "odd (k div d)" using m by (auto simp: bit_and_iff)
      from all[OF kx] have "(k div d) div 2 * (2 * d) = nat r" by (simp add: half)
      moreover have "odd a \<Longrightarrow> a = a div 2 * 2 + 1" for a :: nat by presburger
      from this[OF km] have "k div d = (k div d) div 2 * 2 + 1" .
      ultimately have "(k div d) * d = nat r + d"
        by (metis add.commute distrib_right mult.assoc mult.commute mult.left_neutral)
      with r0 show ?thesis by (simp add: nat_add_distrib)
    qed
    have le: "k \<le> h" if "bit (x AND m) k" for k
      using that all by (auto simp: bit_and_iff)
    from False hm r0 val le xr show ?thesis
      by (auto simp: fls_inv_def flsnz_step_def)
  qed
qed

lemma flsnz_highest:
  assumes "x \<noteq> 0"
  shows "\<exists>h < 32. flsnz x = int h + 1 \<and> bit x h \<and> drop_bit (Suc h) x = 0"
proof -
  let ?S = "{n. bit x n}"
  have fin: "finite ?S" by simp
  have ne: "?S \<noteq> {}" using assms by (auto simp: bit_eq_iff)
  define h where "h = Max ?S"
  have h: "bit x h" using Max_in[OF fin ne] by (simp add: h_def)
  have hmax: "\<And>n. bit x n \<Longrightarrow> n \<le> h" using fin by (simp add: h_def)
  have h32: "h < 32" using h by (auto dest: bit_imp_le_length)
  have i0: "fls_inv 32 h (x, 0)"
    using h hmax by (auto simp: fls_inv_def dest: bit_imp_le_length)
  have i1: "fls_inv 16 h (flsnz_step 0xffff0000 0x10 (x, 0))"
    using fls_step[of "0xffff0000" 16 h "(x, 0)"] mask16 i0 by simp
  have i2: "fls_inv 8 h (flsnz_step 0xff00ff00 0x08 (flsnz_step 0xffff0000 0x10 (x, 0)))"
    using fls_step[of "0xff00ff00" 8 h, OF _ _ _] mask8 i1 by simp
  have i3: "fls_inv 4 h (flsnz_step 0xf0f0f0f0 0x04
      (flsnz_step 0xff00ff00 0x08 (flsnz_step 0xffff0000 0x10 (x, 0))))"
    using fls_step[of "0xf0f0f0f0" 4 h, OF _ _ _] mask4 i2 by simp
  have i4: "fls_inv 2 h (flsnz_step 0xcccccccc 0x02 (flsnz_step 0xf0f0f0f0 0x04
      (flsnz_step 0xff00ff00 0x08 (flsnz_step 0xffff0000 0x10 (x, 0)))))"
    using fls_step[of "0xcccccccc" 2 h, OF _ _ _] mask2 i3 by simp
  have i5: "fls_inv 1 h (flsnz_step 0xaaaaaaaa 0x01 (flsnz_step 0xcccccccc 0x02
      (flsnz_step 0xf0f0f0f0 0x04
      (flsnz_step 0xff00ff00 0x08 (flsnz_step 0xffff0000 0x10 (x, 0))))))"
    using fls_step[of "0xaaaaaaaa" 1 h, OF _ _ _] mask1 i4 by simp
  from i5 have "flsnz x = int h + 1"
    by (auto simp: fls_inv_def flsnz_def)
  moreover have "drop_bit (Suc h) x = 0"
    using hmax by (fastforce simp: bit_eq_iff bit_drop_bit_eq)
  ultimately show ?thesis using h h32 by blast
qed

section \<open>The invariants under replacement\<close>

lemma node_ok_frame:
  assumes "key (cells s' d) = key (cells s d)" "nbit (cells s' d) = nbit (cells s d)"
    and "\<forall>x \<in> set ls \<union> set rs. key (cells s' x) = key (cells s x)"
  shows "node_ok s' d ls rs = node_ok s d ls rs"
  using assms by (auto simp: node_ok_def)

lemma radix_frame:
  assumes "\<forall>c \<in> set (nodes t). key (cells s' c) = key (cells s c) \<and> nbit (cells s' c) = nbit (cells s c)"
    and "\<forall>c \<in> set (leaves t). key (cells s' c) = key (cells s c)"
  shows "radix s' t = radix s t"
  using assms
proof (induction t)
  case (Leaf c)
  then show ?case by simp
next
  case (Node d l r)
  have "node_ok s' d (leaves l) (leaves r) = node_ok s d (leaves l) (leaves r)"
    using Node.prems by (intro node_ok_frame) auto
  moreover have "radix s' l = radix s l" using Node.prems by (intro Node.IH) auto
  moreover have "radix s' r = radix s r" using Node.prems by (intro Node.IH) auto
  ultimately show ?case by simp
qed

lemma node_ok_mono:
  "node_ok s d ls rs \<Longrightarrow> set ls' \<subseteq> set ls \<Longrightarrow> set rs' \<subseteq> set rs \<Longrightarrow> node_ok s d ls' rs'"
  by (auto simp: node_ok_def split: if_splits)

lemma graft_in_left:
  assumes "subtree_at (Branches c, False) l sl = Some sub"
    and "distinct (nodes (Node c l r))" and "fst sl0 \<notin> Branches ` set (nodes (Node c l r))"
  shows "graft sl0 (Node c l r) sl g = Node c (graft (Branches c, False) l sl g) r"
    and "subtree_at sl0 (Node c l r) sl = Some sub"
proof -
  note ss = subtree_at_slot[OF assms(1)]
  have ne: "sl \<noteq> sl0" using ss assms by auto
  with assms show "graft sl0 (Node c l r) sl g = Node c (graft (Branches c, False) l sl g) r"
    and "subtree_at sl0 (Node c l r) sl = Some sub" by simp_all
qed

lemma graft_in_right:
  assumes "subtree_at (Branches c, True) r sl = Some sub"
    and "distinct (nodes (Node c l r))" and "fst sl0 \<notin> Branches ` set (nodes (Node c l r))"
  shows "graft sl0 (Node c l r) sl g = Node c l (graft (Branches c, True) r sl g)"
    and "subtree_at sl0 (Node c l r) sl = Some sub"
proof -
  note ss = subtree_at_slot[OF assms(1)]
  have ne: "sl \<noteq> sl0" using ss assms by auto
  have n: "subtree_at (Branches c, False) l sl = None"
  proof (cases "subtree_at (Branches c, False) l sl")
    case (Some x)
    from subtree_at_slot[OF Some] ss assms show ?thesis by auto
  qed simp
  with ne assms show "graft sl0 (Node c l r) sl g = Node c l (graft (Branches c, True) r sl g)"
    and "subtree_at sl0 (Node c l r) sl = Some sub" by simp_all
qed

text \<open>A position is the top, in the left child or in the right child.\<close>

lemma subtree_at_cases:
  assumes "subtree_at sl0 (Node c l r) sl = Some sub"
  obtains "sl = sl0" "sub = Node c l r"
  | "sl \<noteq> sl0" "subtree_at (Branches c, False) l sl = Some sub"
      "\<And>g. graft sl0 (Node c l r) sl g = Node c (graft (Branches c, False) l sl g) r"
  | "sl \<noteq> sl0" "subtree_at (Branches c, False) l sl = None"
      "subtree_at (Branches c, True) r sl = Some sub"
      "\<And>g. graft sl0 (Node c l r) sl g = Node c l (graft (Branches c, True) r sl g)"
  using assms by (cases "sl = sl0"; cases "subtree_at (Branches c, False) l sl") auto

lemma above_graft:
  assumes "node_above t" and "subtree_at sl0 t sl = Some sub" and "node_above (g sub)"
    and "\<forall>a \<in> set (nodes t) - set (nodes sub). a \<in> set (leaves sub) \<longrightarrow> a \<in> set (leaves (g sub))"
    and "distinct (nodes t)"
  shows "node_above (graft sl0 t sl g)"
  using assms
proof (induction t arbitrary: sl0)
  case (Leaf c)
  then show ?case by (auto split: if_splits)
next
  case (Node c l r)
  from Node.prems(2) show ?case
  proof (cases rule: subtree_at_cases)
    case 1
    with Node.prems show ?thesis by simp
  next
    case 2
    from graft_leaves[OF 2(2)] obtain pre post where
      lv: "leaves l = pre @ leaves sub @ post"
      "\<forall>g. leaves (graft (Branches c, False) l sl g) = pre @ leaves (g sub) @ post" by blast
    have cs: "c \<notin> set (nodes sub)" using subtree_at_subset[OF 2(2)] Node.prems(5) by auto
    have "node_above (graft (Branches c, False) l sl g)"
      using Node.prems by (intro Node.IH(1)[OF _ 2(2)]) auto
    moreover have "c \<in> set (leaves (graft (Branches c, False) l sl g)) \<union> set (leaves r)"
      using Node.prems(1,4) lv cs by auto
    ultimately show ?thesis using 2(3) Node.prems(1) by simp
  next
    case 3
    from graft_leaves[OF 3(3)] obtain pre post where
      lv: "leaves r = pre @ leaves sub @ post"
      "\<forall>g. leaves (graft (Branches c, True) r sl g) = pre @ leaves (g sub) @ post" by blast
    have cs: "c \<notin> set (nodes sub)" using subtree_at_subset[OF 3(3)] Node.prems(5) by auto
    have "node_above (graft (Branches c, True) r sl g)"
      using Node.prems by (intro Node.IH(2)[OF _ 3(3)]) auto
    moreover have "c \<in> set (leaves l) \<union> set (leaves (graft (Branches c, True) r sl g))"
      using Node.prems(1,4) lv cs by auto
    ultimately show ?thesis using 3(4) Node.prems(1) by simp
  qed
qed

lemma radix_graft_shrink:
  assumes "radix s t" and "subtree_at sl0 t sl = Some sub" and "radix s' (g sub)"
    and "set (leaves (g sub)) \<subseteq> set (leaves sub)"
    and "\<forall>c \<in> set (nodes t) - set (nodes sub).
           key (cells s' c) = key (cells s c) \<and> nbit (cells s' c) = nbit (cells s c)"
    and "\<forall>c \<in> set (leaves t). key (cells s' c) = key (cells s c)"
    and "distinct (nodes t)"
  shows "radix s' (graft sl0 t sl g)"
  using assms
proof (induction t arbitrary: sl0)
  case (Leaf c)
  then show ?case by (auto split: if_splits)
next
  case (Node c l r)
  have rl: "radix s l" and rr: "radix s r" and ok: "node_ok s c (leaves l) (leaves r)"
    using Node.prems(1) by simp_all
  have dl: "distinct (nodes l)" and dr: "distinct (nodes r)" and cl: "c \<notin> set (nodes l)"
    and cr: "c \<notin> set (nodes r)" and lr: "set (nodes l) \<inter> set (nodes r) = {}"
    using Node.prems(7) by auto
  have kl: "\<forall>c \<in> set (leaves l). key (cells s' c) = key (cells s c)"
    and kr: "\<forall>c \<in> set (leaves r). key (cells s' c) = key (cells s c)"
    using Node.prems(6) by auto
  from Node.prems(2) show ?case
  proof (cases rule: subtree_at_cases)
    case 1
    with Node.prems(3) show ?thesis by simp
  next
    case 2
    from graft_leaves[OF 2(2)] obtain pre post where
      lv: "leaves l = pre @ leaves sub @ post"
      "\<forall>g. leaves (graft (Branches c, False) l sl g) = pre @ leaves (g sub) @ post" by blast
    note ss = subtree_at_subset[OF 2(2)]
    have cs: "c \<notin> set (nodes sub)" using ss cl by auto
    have fl: "\<forall>c \<in> set (nodes l) - set (nodes sub).
           key (cells s' c) = key (cells s c) \<and> nbit (cells s' c) = nbit (cells s c)"
      using Node.prems(5) by simp
    have fr: "\<forall>c \<in> set (nodes r).
           key (cells s' c) = key (cells s c) \<and> nbit (cells s' c) = nbit (cells s c)"
    proof
      fix d assume "d \<in> set (nodes r)"
      then have "d \<in> set (nodes (Node c l r)) - set (nodes sub)" using ss lr by auto
      with Node.prems(5) show "key (cells s' d) = key (cells s d) \<and> nbit (cells s' d) = nbit (cells s d)"
        by blast
    qed
    have fc: "key (cells s' c) = key (cells s c)" "nbit (cells s' c) = nbit (cells s c)"
      using Node.prems(5) cs by simp_all
    have g1: "radix s' (graft (Branches c, False) l sl g)"
      by (rule Node.IH(1)[OF rl 2(2) Node.prems(3,4) fl kl dl])
    have g2: "radix s' r" using radix_frame[OF fr kr] rr by simp
    have "node_ok s' c (leaves l) (leaves r)"
      using node_ok_frame[OF fc, of "leaves l" "leaves r"] kl kr ok by auto
    then have "node_ok s' c (leaves (graft (Branches c, False) l sl g)) (leaves r)"
    proof (rule node_ok_mono)
      show "set (leaves (graft (Branches c, False) l sl g)) \<subseteq> set (leaves l)"
        using lv Node.prems(4) by auto
    qed simp
    with g1 g2 2(3) show ?thesis by simp
  next
    case 3
    from graft_leaves[OF 3(3)] obtain pre post where
      lv: "leaves r = pre @ leaves sub @ post"
      "\<forall>g. leaves (graft (Branches c, True) r sl g) = pre @ leaves (g sub) @ post" by blast
    note ss = subtree_at_subset[OF 3(3)]
    have cs: "c \<notin> set (nodes sub)" using ss cr by auto
    have fr: "\<forall>c \<in> set (nodes r) - set (nodes sub).
           key (cells s' c) = key (cells s c) \<and> nbit (cells s' c) = nbit (cells s c)"
      using Node.prems(5) by simp
    have fl: "\<forall>c \<in> set (nodes l).
           key (cells s' c) = key (cells s c) \<and> nbit (cells s' c) = nbit (cells s c)"
    proof
      fix d assume "d \<in> set (nodes l)"
      then have "d \<in> set (nodes (Node c l r)) - set (nodes sub)" using ss lr by auto
      with Node.prems(5) show "key (cells s' d) = key (cells s d) \<and> nbit (cells s' d) = nbit (cells s d)"
        by blast
    qed
    have fc: "key (cells s' c) = key (cells s c)" "nbit (cells s' c) = nbit (cells s c)"
      using Node.prems(5) cs by simp_all
    have g1: "radix s' (graft (Branches c, True) r sl g)"
      by (rule Node.IH(2)[OF rr 3(3) Node.prems(3,4) fr kr dr])
    have g2: "radix s' l" using radix_frame[OF fl kl] rl by simp
    have "node_ok s' c (leaves l) (leaves r)"
      using node_ok_frame[OF fc, of "leaves l" "leaves r"] kl kr ok by auto
    then have "node_ok s' c (leaves l) (leaves (graft (Branches c, True) r sl g))"
    proof (rule node_ok_mono)
      show "set (leaves (graft (Branches c, True) r sl g)) \<subseteq> set (leaves r)"
        using lv Node.prems(4) by auto
    qed simp
    with g1 g2 3(4) show ?thesis by simp
  qed
qed

section \<open>The invariant after an insertion\<close>

lemma node_ok_descend:
  assumes "node_ok s c ls rs"
    and "\<not> (nbit (cells s c) < 0 \<or> shr32 ub (k XOR key (cells s c)) (nbit (cells s c)) \<ge> 2)"
  shows "0 \<le> nbit (cells s c)" "nbit (cells s c) < 32"
    "drop_bit (Suc (nat (nbit (cells s c)))) k = drop_bit (Suc (nat (nbit (cells s c)))) (key (cells s c))"
    "(shr32 ub k (nbit (cells s c)) AND 1 \<noteq> 0) = bit k (nat (nbit (cells s c)))"
proof -
  show b0: "0 \<le> nbit (cells s c)" using assms(2) by simp
  show b32: "nbit (cells s c) < 32" using assms b0 by (auto simp: node_ok_def split: if_splits)
  show "drop_bit (Suc (nat (nbit (cells s c)))) k = drop_bit (Suc (nat (nbit (cells s c)))) (key (cells s c))"
  proof -
    have "drop_bit (Suc (nat (nbit (cells s c)))) (k XOR key (cells s c)) = 0"
      using assms(2) shr32_ge2[OF b0 b32, of ub "k XOR key (cells s c)"] by blast
    then show ?thesis by (simp only: drop_bit_xor_eq0)
  qed
  show "(shr32 ub k (nbit (cells s c)) AND 1 \<noteq> 0) = bit k (nat (nbit (cells s c)))"
    by (rule shr32_bit[OF b0 b32])
qed

lemma node_ok_insert_left:
  assumes "node_ok s c ls rs" "0 \<le> nbit (cells s c)"
    and "drop_bit (Suc (nat (nbit (cells s c)))) (key (cells s x)) = drop_bit (Suc (nat (nbit (cells s c)))) (key (cells s c))"
    and "\<not> bit (key (cells s x)) (nat (nbit (cells s c)))"
    and "set ls' = insert x (set ls)"
  shows "node_ok s c ls' rs"
  using assms by (auto simp: node_ok_def split: if_splits)

lemma node_ok_insert_right:
  assumes "node_ok s c ls rs" "0 \<le> nbit (cells s c)"
    and "drop_bit (Suc (nat (nbit (cells s c)))) (key (cells s x)) = drop_bit (Suc (nat (nbit (cells s c)))) (key (cells s c))"
    and "bit (key (cells s x)) (nat (nbit (cells s c)))"
    and "set rs' = insert x (set rs)"
  shows "node_ok s c ls rs'"
  using assms by (auto simp: node_ok_def split: if_splits)

lemma radix_ins_pos:
  assumes "radix s t" and "ins_pos ub s k sl0 t = (sl1, sub1)"
    and "distinct (nodes t)" and "fst sl0 \<notin> Branches ` set (nodes t)"
    and "\<forall>c \<in> set (nodes t). key (cells s' c) = key (cells s c) \<and> nbit (cells s' c) = nbit (cells s c)"
    and "\<forall>c \<in> set (leaves t). key (cells s' c) = key (cells s c)"
    and "radix s' (G sub1)" and "set (leaves (G sub1)) = insert new (set (leaves sub1))"
    and "key (cells s' new) = k"
  shows "radix s' (graft sl0 t sl1 G)"
  using assms
proof (induction t arbitrary: sl0)
  case (Leaf c)
  then show ?case by auto
next
  case (Node c l r)
  let ?b = "nbit (cells s c)"
  have rl: "radix s l" and rr: "radix s r" and ok: "node_ok s c (leaves l) (leaves r)"
    using Node.prems(1) by simp_all
  have dl: "distinct (nodes l)" and dr: "distinct (nodes r)"
    using Node.prems(3) by auto
  have wl: "fst (Branches c, False) \<notin> Branches ` set (nodes l)"
    and wr: "fst (Branches c, True) \<notin> Branches ` set (nodes r)"
    using Node.prems(3) by auto
  have kl: "\<forall>c \<in> set (leaves l). key (cells s' c) = key (cells s c)"
    and kr: "\<forall>c \<in> set (leaves r). key (cells s' c) = key (cells s c)"
    using Node.prems(6) by auto
  have fl: "\<forall>c \<in> set (nodes l). key (cells s' c) = key (cells s c) \<and> nbit (cells s' c) = nbit (cells s c)"
    and fr: "\<forall>c \<in> set (nodes r). key (cells s' c) = key (cells s c) \<and> nbit (cells s' c) = nbit (cells s c)"
    and fc: "key (cells s' c) = key (cells s c)" "nbit (cells s' c) = nbit (cells s c)"
    using Node.prems(5) by auto
  have ok': "node_ok s' c (leaves l) (leaves r)"
    using node_ok_frame[OF fc, of "leaves l" "leaves r"] kl kr ok by auto
  show ?case
  proof (cases "?b < 0 \<or> shr32 ub (k XOR key (cells s c)) ?b \<ge> 2")
    case True
    with Node.prems(2,7) show ?thesis by auto
  next
    case False
    note dsc = node_ok_descend[OF ok False]
    show ?thesis
    proof (cases "bit k (nat ?b)")
      case True
      with False dsc Node.prems(2) have ip: "ins_pos ub s k (Branches c, True) r = (sl1, sub1)"
        by simp
      have sr: "subtree_at (Branches c, True) r sl1 = Some sub1"
        by (rule ins_pos_subtree[OF dr wr ip])
      note gr = graft_in_right[OF sr Node.prems(3,4)]
      from graft_leaves[OF sr] obtain pre post where
        lv: "leaves r = pre @ leaves sub1 @ post"
        "\<forall>g. leaves (graft (Branches c, True) r sl1 g) = pre @ leaves (g sub1) @ post" by blast
      have g1: "radix s' (graft (Branches c, True) r sl1 G)"
        by (rule Node.IH(2)[OF rr ip dr wr fr kr Node.prems(7,8,9)])
      have g2: "radix s' l" using radix_frame[OF fl kl] rl by simp
      have "node_ok s' c (leaves l) (leaves (graft (Branches c, True) r sl1 G))"
      proof (rule node_ok_insert_right[OF ok', where x = new])
        show "0 \<le> nbit (cells s' c)" using dsc fc by simp
        show "drop_bit (Suc (nat (nbit (cells s' c)))) (key (cells s' new)) =
              drop_bit (Suc (nat (nbit (cells s' c)))) (key (cells s' c))"
          using dsc fc Node.prems(9) by simp
        show "bit (key (cells s' new)) (nat (nbit (cells s' c)))"
          using True fc Node.prems(9) by simp
        show "set (leaves (graft (Branches c, True) r sl1 G)) = insert new (set (leaves r))"
          using lv Node.prems(8) by auto
      qed
      with g1 g2 gr(1) show ?thesis by simp
    next
      case F2: False
      with False dsc Node.prems(2) have ip: "ins_pos ub s k (Branches c, False) l = (sl1, sub1)"
        by simp
      have sr: "subtree_at (Branches c, False) l sl1 = Some sub1"
        by (rule ins_pos_subtree[OF dl wl ip])
      note gr = graft_in_left[OF sr Node.prems(3,4)]
      from graft_leaves[OF sr] obtain pre post where
        lv: "leaves l = pre @ leaves sub1 @ post"
        "\<forall>g. leaves (graft (Branches c, False) l sl1 g) = pre @ leaves (g sub1) @ post" by blast
      have g1: "radix s' (graft (Branches c, False) l sl1 G)"
        by (rule Node.IH(1)[OF rl ip dl wl fl kl Node.prems(7,8,9)])
      have g2: "radix s' r" using radix_frame[OF fr kr] rr by simp
      have "node_ok s' c (leaves (graft (Branches c, False) l sl1 G)) (leaves r)"
      proof (rule node_ok_insert_left[OF ok', where x = new])
        show "0 \<le> nbit (cells s' c)" using dsc fc by simp
        show "drop_bit (Suc (nat (nbit (cells s' c)))) (key (cells s' new)) =
              drop_bit (Suc (nat (nbit (cells s' c)))) (key (cells s' c))"
          using dsc fc Node.prems(9) by simp
        show "\<not> bit (key (cells s' new)) (nat (nbit (cells s' c)))"
          using F2 fc Node.prems(9) by simp
        show "set (leaves (graft (Branches c, False) l sl1 G)) = insert new (set (leaves l))"
          using lv Node.prems(8) by auto
      qed
      with g1 g2 gr(1) show ?thesis by simp
    qed
  qed
qed

text \<open>Outside the place where the descent stops, no leaf has the key.\<close>

lemma ins_pos_outside:
  assumes "radix s t" and "ins_pos ub s k sl0 t = (sl1, sub1)"
  shows "\<forall>x \<in> set (leaves t) - set (leaves sub1). key (cells s x) \<noteq> k"
  using assms
proof (induction t arbitrary: sl0)
  case (Leaf c)
  then show ?case by auto
next
  case (Node c l r)
  let ?b = "nbit (cells s c)"
  have rl: "radix s l" and rr: "radix s r" and ok: "node_ok s c (leaves l) (leaves r)"
    using Node.prems(1) by simp_all
  show ?case
  proof (cases "?b < 0 \<or> shr32 ub (k XOR key (cells s c)) ?b \<ge> 2")
    case True
    with Node.prems(2) show ?thesis by auto
  next
    case False
    note dsc = node_ok_descend[OF ok False]
    have nl: "\<forall>x \<in> set (leaves l). \<not> bit (key (cells s x)) (nat ?b)"
      and nr: "\<forall>x \<in> set (leaves r). bit (key (cells s x)) (nat ?b)"
      using ok dsc(1) by (auto simp: node_ok_def)
    show ?thesis
    proof (cases "bit k (nat ?b)")
      case True
      with False dsc Node.prems(2) have ip: "ins_pos ub s k (Branches c, True) r = (sl1, sub1)"
        by simp
      from Node.IH(2)[OF rr ip] nl True show ?thesis by auto
    next
      case F2: False
      with False dsc Node.prems(2) have ip: "ins_pos ub s k (Branches c, False) l = (sl1, sub1)"
        by simp
      from Node.IH(1)[OF rl ip] nr F2 show ?thesis by auto
    qed
  qed
qed

lemma ins_pos_stop:
  assumes "radix s t" and "ins_pos ub s k sl0 t = (sl1, sub1)"
  shows "radix s sub1
    \<and> (is_leaf sub1 \<or> nbit (cells s (root_id sub1)) < 0
        \<or> shr32 ub (k XOR key (cells s (root_id sub1))) (nbit (cells s (root_id sub1))) \<ge> 2)"
  using assms
proof (induction t arbitrary: sl0)
  case (Leaf c)
  then show ?case by auto
next
  case (Node c l r)
  then show ?case by (auto split: if_splits)
qed

lemma above_nodes_leaves: "node_above t \<Longrightarrow> set (nodes t) \<subseteq> set (leaves t)"
  by (induction t) auto

lemma subtree_above: "node_above t \<Longrightarrow> subtree_at sl0 t sl = Some sub \<Longrightarrow> node_above sub"
  by (induction sl0 t sl rule: subtree_at.induct) (auto split: if_splits option.splits)

lemma subtree_radix: "radix s t \<Longrightarrow> subtree_at sl0 t sl = Some sub \<Longrightarrow> radix s sub"
  by (induction sl0 t sl rule: subtree_at.induct) (auto split: if_splits option.splits)

lemma above_new_leaves [simp]:
  "set (leaves (above_new new ns t)) = insert new (set (leaves t))"
  "set (nodes (above_new new ns t)) = insert new (set (nodes t))"
  by (auto simp: above_new_def)

lemma above_new_distinct:
  "new \<notin> set (leaves t) \<Longrightarrow> distinct (leaves t) \<Longrightarrow> distinct (leaves (above_new new ns t))"
  "new \<notin> set (nodes t) \<Longrightarrow> distinct (nodes t) \<Longrightarrow> distinct (nodes (above_new new ns t))"
  by (auto simp: above_new_def)

lemma graft_above_new_sets:
  assumes "subtree_at sl0 t sl = Some sub"
  shows "set (leaves (graft sl0 t sl (above_new new ns))) = insert new (set (leaves t))"
    and "set (nodes (graft sl0 t sl (above_new new ns))) = insert new (set (nodes t))"
    and "new \<notin> set (leaves t) \<Longrightarrow> distinct (leaves t) \<Longrightarrow>
         distinct (leaves (graft sl0 t sl (above_new new ns)))"
    and "new \<notin> set (nodes t) \<Longrightarrow> distinct (nodes t) \<Longrightarrow>
         distinct (nodes (graft sl0 t sl (above_new new ns)))"
proof -
  from graft_leaves[OF assms] obtain pre post where
    l: "leaves t = pre @ leaves sub @ post"
       "\<And>g. leaves (graft sl0 t sl g) = pre @ leaves (g sub) @ post" by blast
  from graft_nodes[OF assms] obtain pre' post' where
    n: "nodes t = pre' @ nodes sub @ post'"
       "\<And>g. nodes (graft sl0 t sl g) = pre' @ nodes (g sub) @ post'" by blast
  show "set (leaves (graft sl0 t sl (above_new new ns))) = insert new (set (leaves t))"
    using l by auto
  show "set (nodes (graft sl0 t sl (above_new new ns))) = insert new (set (nodes t))"
    using n by auto
  show "new \<notin> set (leaves t) \<Longrightarrow> distinct (leaves t) \<Longrightarrow>
         distinct (leaves (graft sl0 t sl (above_new new ns)))"
    using l by (auto simp: above_new_def)
  show "new \<notin> set (nodes t) \<Longrightarrow> distinct (nodes t) \<Longrightarrow>
         distinct (nodes (graft sl0 t sl (above_new new ns)))"
    using n by (auto simp: above_new_def)
qed

lemma inv_linked:
  assumes i: "tree_inv s t" and sub: "subtree_at (Root, False) t sl = Some sub"
    and new: "new \<notin> set (leaves t)"
    and s0: "\<forall>c. c \<noteq> new \<longrightarrow> cells s0 c = cells s c" "eb_root s0 = eb_root s"
      "node_p (cells s0 new) = sl"
    and rd: "radix (linked s0 new sub sl ns) (graft (Root, False) t sl (above_new new ns))"
  shows "tree_inv (linked s0 new sub sl ns) (graft (Root, False) t sl (above_new new ns))"
proof -
  let ?s' = "linked s0 new sub sl ns"
  let ?t' = "graft (Root, False) t sl (above_new new ns)"
  from i have r: "repr s (Root, False) t" and dl: "distinct (leaves t)" and dn: "distinct (nodes t)"
    and ab: "node_above t"
    and lp: "\<forall>c. c \<notin> set (leaves t) \<longrightarrow> leaf_p (cells s c) = NULL"
    and np: "\<forall>c. c \<in> set (leaves t) \<longrightarrow> c \<notin> set (nodes t) \<longrightarrow> node_p (cells s c) = NULL"
    and rt: "fst (eb_root s True) = Null"
    by (simp_all add: tree_inv_def)
  have newn: "new \<notin> set (nodes t)" using above_nodes_leaves[OF ab] new by auto
  note ss = subtree_at_subset[OF sub] subtree_at_slot[OF sub]
  have r0: "repr s0 (Root, False) t"
  proof -
    have "repr s0 (Root, False) t = repr s (Root, False) t"
      using s0 new newn by (intro repr_frame) auto
    with r show ?thesis by simp
  qed
  have g1: "repr ?s' (Root, False) ?t'"
    using new newn s0(3) by (intro linked_repr[OF r0 sub dn dl]) auto
  note gs = graft_above_new_sets[OF sub, of new ns]
  have g4: "node_above ?t'"
  proof (rule above_graft[OF ab sub _ _ dn])
    show "node_above (above_new new ns sub)"
      using subtree_above[OF ab sub] by (auto simp: above_new_def)
    show "\<forall>a\<in>set (nodes t) - set (nodes sub).
       a \<in> set (leaves sub) \<longrightarrow> a \<in> set (leaves (above_new new ns sub))"
      by auto
  qed
  have slr: "sl \<noteq> (Root, True)" using ss by auto
  have g6: "\<forall>c. c \<notin> set (leaves ?t') \<longrightarrow> leaf_p (cells ?s' c) = NULL"
    using lp s0 ss by (auto simp: gs)
  have g7: "\<forall>c. c \<in> set (leaves ?t') \<longrightarrow> c \<notin> set (nodes ?t') \<longrightarrow> node_p (cells ?s' c) = NULL"
  proof (intro allI impI)
    fix c assume c: "c \<in> set (leaves ?t')" "c \<notin> set (nodes ?t')"
    then have cn: "c \<noteq> new" "c \<in> set (leaves t)" "c \<notin> set (nodes t)" by (auto simp: gs)
    have "\<not> (c = root_id sub \<and> sub \<noteq> Leaf c)" using cn ss by (cases sub) auto
    then show "node_p (cells ?s' c) = NULL" using np cn s0 by simp
  qed
  have g8: "fst (eb_root ?s' True) = Null" using rt s0 slr by simp
  show ?thesis
    unfolding tree_inv_def using g1 gs(3)[OF new dl] gs(4)[OF newn dn] g4 rd g6 g7 g8 by blast
qed

lemma drop_bit_eq_mono:
  fixes a b :: "'a::len word"
  assumes "drop_bit m a = drop_bit m b" "m \<le> n"
  shows "drop_bit n a = drop_bit n b"
proof -
  have "drop_bit n a = drop_bit (n - m) (drop_bit m a)" using assms(2) by simp
  also have "\<dots> = drop_bit (n - m) (drop_bit m b)" using assms(1) by simp
  also have "\<dots> = drop_bit n b" using assms(2) by simp
  finally show ?thesis .
qed

lemma drop_bit_eq_bit:
  fixes a b :: "'a::len word"
  assumes "drop_bit m a = drop_bit m b" "m \<le> n"
  shows "bit a n = bit b n"
proof -
  have "bit a n = bit (drop_bit m a) (n - m)" using assms(2) by (simp add: bit_drop_bit_eq)
  also have "\<dots> = bit (drop_bit m b) (n - m)" using assms(1) by simp
  also have "\<dots> = bit b n" using assms(2) by (simp add: bit_drop_bit_eq)
  finally show ?thesis .
qed

lemma radix_alleq:
  assumes "radix s t" "\<forall>x \<in> set (leaves t). key (cells s x) = k"
  shows "\<forall>d \<in> set (nodes t). nbit (cells s d) < 0 \<and> key (cells s d) = k"
  using assms
proof (induction t)
  case (Leaf c)
  then show ?case by simp
next
  case (Node d l r)
  obtain x where x: "x \<in> set (leaves l)" using leaves_nonempty[of l] by (cases "leaves l") auto
  obtain y where y: "y \<in> set (leaves r)" using leaves_nonempty[of r] by (cases "leaves r") auto
  have kx: "key (cells s x) = k" and ky: "key (cells s y) = k" using Node.prems(2) x y by auto
  have ok: "node_ok s d (leaves l) (leaves r)" using Node.prems(1) by simp
  have neg: "nbit (cells s d) < 0"
  proof (rule ccontr)
    assume "\<not> nbit (cells s d) < 0"
    with ok x y have "\<not> bit (key (cells s x)) (nat (nbit (cells s d)))"
      "bit (key (cells s y)) (nat (nbit (cells s d)))" by (auto simp: node_ok_def)
    with kx ky show False by simp
  qed
  with ok x kx have "key (cells s d) = k" by (auto simp: node_ok_def)
  with neg Node show ?case by auto
qed

lemma radix_alleqI:
  assumes "\<forall>x \<in> set (leaves t). key (cells s x) = k"
    "\<forall>d \<in> set (nodes t). nbit (cells s d) < 0 \<and> key (cells s d) = k"
  shows "radix s t"
  using assms by (induction t) (auto simp: node_ok_def)

lemma radix_sorted:
  "radix s t \<Longrightarrow> sorted (map (\<lambda>c. key (cells s c)) (leaves t))"
proof (induction t)
  case (Leaf c)
  then show ?case by simp
next
  case (Node d l r)
  have ok: "node_ok s d (leaves l) (leaves r)" using Node.prems by simp
  have "key (cells s x) \<le> key (cells s y)" if "x \<in> set (leaves l)" "y \<in> set (leaves r)" for x y
  proof (cases "nbit (cells s d) < 0")
    case True
    with ok that show ?thesis by (auto simp: node_ok_def)
  next
    case False
    let ?h = "nat (nbit (cells s d))"
    from ok False that have "\<not> bit (key (cells s x)) ?h" "bit (key (cells s y)) ?h"
      "drop_bit (Suc ?h) (key (cells s x)) = drop_bit (Suc ?h) (key (cells s y))"
      by (auto simp: node_ok_def)
    from word_less_by_bit[OF this(3,1,2)] show ?thesis by simp
  qed
  with Node show ?case by (auto simp: sorted_append)
qed

text \<open>The keys below the place where the descent stops agree with the key of its top
  cell from the highest bit where the new key differs.\<close>

lemma stop_agree:
  assumes rd: "radix s sub"
    and stop: "is_leaf sub \<or> nbit (cells s (root_id sub)) < 0
        \<or> shr32 ub (k XOR key (cells s (root_id sub))) (nbit (cells s (root_id sub))) \<ge> 2"
    and h: "drop_bit (Suc h) (k XOR key (cells s (root_id sub))) = 0"
    and x: "x \<in> set (leaves sub)"
  shows "drop_bit (Suc h) (key (cells s x)) = drop_bit (Suc h) (key (cells s (root_id sub)))
       \<and> bit (key (cells s x)) h = bit (key (cells s (root_id sub))) h"
proof (cases sub)
  case (Leaf c)
  with x show ?thesis by simp
next
  case (Node d l r)
  have ok: "node_ok s d (leaves l) (leaves r)" using rd Node by simp
  show ?thesis
  proof (cases "nbit (cells s d) < 0")
    case True
    with ok x Node show ?thesis by (auto simp: node_ok_def)
  next
    case False
    let ?b = "nat (nbit (cells s d))"
    have b: "0 \<le> nbit (cells s d)" "nbit (cells s d) < 32"
      using False ok by (auto simp: node_ok_def)
    have ge: "shr32 ub (k XOR key (cells s d)) (nbit (cells s d)) \<ge> 2"
      using stop False Node by simp
    have nz: "drop_bit (Suc ?b) (k XOR key (cells s d)) \<noteq> 0"
      using ge shr32_ge2[OF b, of ub "k XOR key (cells s d)"] by blast
    have lt: "Suc ?b \<le> h"
    proof (rule ccontr)
      assume "\<not> Suc ?b \<le> h"
      then have "Suc h \<le> Suc ?b" by simp
      from drop_bit_eq_mono[OF _ this, of "k XOR key (cells s d)" 0] h Node
      have "drop_bit (Suc ?b) (k XOR key (cells s d)) = 0" by simp
      with nz show False by simp
    qed
    have e: "drop_bit (Suc ?b) (key (cells s x)) = drop_bit (Suc ?b) (key (cells s d))"
      using ok False x Node by (auto simp: node_ok_def)
    have "Suc ?b \<le> Suc h" using lt by simp
    from drop_bit_eq_mono[OF e this] drop_bit_eq_bit[OF e lt] Node show ?thesis by simp
  qed
qed

lemma node_ok_new:
  assumes rd: "radix s sub"
    and stop: "is_leaf sub \<or> nbit (cells s (root_id sub)) < 0
        \<or> shr32 ub (k XOR key (cells s (root_id sub))) (nbit (cells s (root_id sub))) \<ge> 2"
    and ne: "k \<noteq> key (cells s (root_id sub))"
    and fr: "\<forall>x \<in> set (leaves sub). key (cells s' x) = key (cells s x)"
    and kn: "key (cells s' new) = k"
    and bn: "nbit (cells s' new) = flsnz (k XOR key (cells s (root_id sub))) - 1"
  shows "k \<ge> key (cells s (root_id sub)) \<Longrightarrow> node_ok s' new (leaves sub) [new]"
    and "\<not> k \<ge> key (cells s (root_id sub)) \<Longrightarrow> node_ok s' new [new] (leaves sub)"
    and "\<forall>x \<in> set (leaves sub). key (cells s x) \<noteq> k"
proof -
  let ?o = "key (cells s (root_id sub))"
  have "k XOR ?o \<noteq> 0" using ne by (metis drop_bit_xor_eq0 drop_bit_0 id_apply)
  from flsnz_highest[OF this] obtain h where
    h: "h < 32" "flsnz (k XOR ?o) = int h + 1" "bit (k XOR ?o) h" "drop_bit (Suc h) (k XOR ?o) = 0"
    by blast
  have bh: "nbit (cells s' new) = int h" using bn h by simp
  have ag: "\<forall>x \<in> set (leaves sub). drop_bit (Suc h) (key (cells s x)) = drop_bit (Suc h) ?o
       \<and> bit (key (cells s x)) h = bit ?o h"
    using stop_agree[OF rd stop h(4)] by blast
  have e: "drop_bit (Suc h) k = drop_bit (Suc h) ?o"
    using h(4) by (simp only: drop_bit_xor_eq0)
  have d: "bit k h \<noteq> bit ?o h" using h(3) by (simp add: bit_xor_iff)
  have ord: "(k \<ge> ?o) = bit k h"
  proof (cases "bit k h")
    case True
    with d have "\<not> bit ?o h" by simp
    from word_less_by_bit[OF e[symmetric] this True] True show ?thesis by simp
  next
    case False
    with d have "bit ?o h" by simp
    from word_less_by_bit[OF e False this] False show ?thesis by simp
  qed
  show "k \<ge> ?o \<Longrightarrow> node_ok s' new (leaves sub) [new]"
    using ord d ag e fr kn bh h(1) by (auto simp: node_ok_def)
  show "\<not> k \<ge> ?o \<Longrightarrow> node_ok s' new [new] (leaves sub)"
    using ord d ag e fr kn bh h(1) by (auto simp: node_ok_def)
  show "\<forall>x \<in> set (leaves sub). key (cells s x) \<noteq> k"
    using ag d by auto
qed

lemma ins_leaves_mid:
  assumes "\<forall>x \<in> set post. key (cells s x) \<noteq> key (cells s new)"
    and "ins_leaves s new mid mid'"
  shows "ins_leaves s new (pre @ mid @ post) (pre @ mid' @ post)"
  unfolding ins_leaves_def
proof
  fix k
  show "filter (\<lambda>c. key (cells s c) = k) (pre @ mid' @ post) =
        filter (\<lambda>c. key (cells s c) = k) (pre @ mid @ post) @
          (if key (cells s new) = k then [new] else [])"
  proof (cases "key (cells s new) = k")
    case True
    with assms(1) have "filter (\<lambda>c. key (cells s c) = k) post = []"
      by (auto simp: filter_empty_conv)
    with assms(2) True show ?thesis by (simp add: ins_leaves_def)
  next
    case False
    with assms(2) show ?thesis by (simp add: ins_leaves_def)
  qed
qed

lemma ins_leaves_above_new:
  assumes "\<not> ns \<longrightarrow> (\<forall>x \<in> set (leaves sub). key (cells s x) \<noteq> key (cells s new))"
  shows "ins_leaves s new (leaves sub) (leaves (above_new new ns sub))"
  using assms by (auto simp: ins_leaves_def above_new_def filter_empty_conv)

lemma eb32_insert_inv_link:
  assumes i: "tree_inv s t" and new: "new \<notin> set (leaves t)"
    and ip: "ins_pos ub s (key (cells s new)) (Root, False) t = (sl1, sub1)"
    and c: "key (cells s new) \<noteq> key (cells s (root_id sub1))
            \<or> is_leaf sub1 \<and> \<not> snd (eb_root s True)"
  shows "\<exists>s' t'. eb32_insert ub s Root (Branches new) = Some (s', Branches new)
     \<and> tree_inv s' t' \<and> ins_leaves s new (leaves t) (leaves t')
     \<and> (\<forall>c. key (cells s' c) = key (cells s c)) \<and> eb_root s' True = eb_root s True
     \<and> (key (cells s new) \<noteq> key (cells s (root_id sub1)) \<longrightarrow>
           (\<forall>x \<in> set (leaves t). key (cells s x) \<noteq> key (cells s new)))"
proof -
  let ?k = "key (cells s new)" and ?o = "key (cells s (root_id sub1))"
  let ?B = "if ?k = ?o then -1 else flsnz (?k XOR ?o) - 1"
  let ?s0 = "upd_cell s new (\<lambda>n. n\<lparr>node_p := sl1, nbit := ?B\<rparr>)"
  let ?ns = "?k \<ge> ?o"
  let ?s' = "linked ?s0 new sub1 sl1 ?ns"
  let ?t' = "graft (Root, False) t sl1 (above_new new ?ns)"
  from i have r: "repr s (Root, False) t" and dl: "distinct (leaves t)" and dn: "distinct (nodes t)"
    and ab: "node_above t" and rd: "radix s t"
    by (simp_all add: tree_inv_def)
  have newn: "new \<notin> set (nodes t)" using above_nodes_leaves[OF ab] new by auto
  have e: "eb32_insert ub s Root (Branches new) = Some (?s', Branches new)"
    by (rule eb32_insert_link[OF r dn newn new ip c])
  have wf0: "fst (Root, False) \<notin> Branches ` set (nodes t)" by auto
  have sub: "subtree_at (Root, False) t sl1 = Some sub1"
    by (rule ins_pos_subtree[OF dn wf0 ip])
  note ss = subtree_at_subset[OF sub] subtree_at_slot[OF sub]
  note stop = ins_pos_stop[OF rd ip]
  have rs1: "radix s sub1" using stop by simp
  have news: "new \<notin> set (leaves sub1)" "new \<notin> set (nodes sub1)" using ss new newn by auto
  have rs1': "radix ?s' sub1"
  proof -
    have "radix ?s' sub1 = radix s sub1" using news by (intro radix_frame) auto
    with rs1 show ?thesis by simp
  qed
  have nok: "radix ?s' (above_new new ?ns sub1)"
  proof (cases "?k = ?o")
    case True
    with c obtain x where x: "sub1 = Leaf x" by (cases sub1) auto
    with True news show ?thesis by (auto simp: above_new_def node_ok_def)
  next
    case False
    have "node_ok ?s' new (if ?ns then leaves sub1 else [new]) (if ?ns then [new] else leaves sub1)"
      using node_ok_new(1,2)[OF rs1 _ False, of ub ?s' new] stop news False by auto
    with rs1' show ?thesis by (auto simp: above_new_def)
  qed
  have rd': "radix ?s' ?t'"
  proof (rule radix_ins_pos[where G = "above_new new ?ns" and new = new, OF rd ip dn wf0])
    show "radix ?s' (above_new new ?ns sub1)" by (rule nok)
    show "\<forall>c\<in>set (nodes t). key (cells ?s' c) = key (cells s c) \<and>
        nbit (cells ?s' c) = nbit (cells s c)" using newn by auto
    show "\<forall>c\<in>set (leaves t). key (cells ?s' c) = key (cells s c)" by auto
    show "set (leaves (above_new new ?ns sub1)) = insert new (set (leaves sub1))" by simp
    show "key (cells ?s' new) = ?k" by simp
  qed
  have i': "tree_inv ?s' ?t'"
    by (rule inv_linked[OF i sub new _ _ _ rd']) auto
  have nok3: "?k \<noteq> ?o \<Longrightarrow> \<forall>x \<in> set (leaves sub1). key (cells s x) \<noteq> ?k"
    using node_ok_new(3)[OF rs1, of ub ?k ?s' new] stop news by auto
  from graft_leaves[OF sub] obtain pre post where
    l: "leaves t = pre @ leaves sub1 @ post"
       "\<And>g. leaves (graft (Root, False) t sl1 g) = pre @ leaves (g sub1) @ post" by blast
  have out: "\<forall>x \<in> set (leaves t) - set (leaves sub1). key (cells s x) \<noteq> ?k"
    by (rule ins_pos_outside[OF rd ip])
  have post: "\<forall>x \<in> set post. key (cells s x) \<noteq> ?k" using out l(1) dl by auto
  have il: "ins_leaves s new (leaves t) (leaves ?t')"
    unfolding l(1) l(2)
  proof (rule ins_leaves_mid[OF post ins_leaves_above_new], intro impI)
    assume "\<not> ?ns"
    then have "?k \<noteq> ?o" by auto
    then show "\<forall>x\<in>set (leaves sub1). key (cells s x) \<noteq> ?k" by (rule nok3)
  qed
  have all: "?k \<noteq> ?o \<longrightarrow> (\<forall>x \<in> set (leaves t). key (cells s x) \<noteq> ?k)"
    using nok3 out by blast
  have rt: "eb_root ?s' True = eb_root s True" using ss by auto
  have ky: "\<forall>c. key (cells ?s' c) = key (cells s c)" by auto
  from e i' il ky rt all show ?thesis by blast
qed

lemma eb32_insert_inv_dup:
  assumes i: "tree_inv s t" and new: "new \<notin> set (leaves t)"
    and ip: "ins_pos ub s (key (cells s new)) (Root, False) t = (sl1, sub1)"
    and eq: "key (cells s new) = key (cells s (root_id sub1))" and nu: "\<not> snd (eb_root s True)"
    and nl: "\<not> is_leaf sub1"
  shows "\<exists>s' t'. eb32_insert ub s Root (Branches new) = Some (s', Branches new)
     \<and> tree_inv s' t' \<and> ins_leaves s new (leaves t) (leaves t')
     \<and> (\<forall>c. key (cells s' c) = key (cells s c)) \<and> eb_root s' True = eb_root s True"
proof -
  let ?k = "key (cells s new)"
  from i have r: "repr s (Root, False) t" and dl: "distinct (leaves t)" and dn: "distinct (nodes t)"
    and ab: "node_above t" and rd: "radix s t"
    by (simp_all add: tree_inv_def)
  have newn: "new \<notin> set (nodes t)" using above_nodes_leaves[OF ab] new by auto
  from eb32_insert_dup[OF r dn newn new ip eq nu nl] obtain sl2 sub2 b where
    e: "eb32_insert ub s Root (Branches new) =
           Some (linked (upd_cell s new (\<lambda>n. n\<lparr>nbit := b, node_p := sl2\<rparr>)) new sub2 sl2 True,
                 Branches new)"
    and sp: "(sl2, sub2) \<in> set (rspine sl1 sub1)"
    and b: "b = -1 \<or> (\<exists>c \<in> set (nodes sub1). b = nbit (cells s c) - 1)"
    by blast
  let ?s0 = "upd_cell s new (\<lambda>n. n\<lparr>nbit := b, node_p := sl2\<rparr>)"
  let ?s' = "linked ?s0 new sub2 sl2 True"
  let ?g = "above_new new True"
  let ?G = "\<lambda>u. graft sl1 u sl2 ?g"
  let ?t' = "graft (Root, False) t sl2 ?g"
  have wf0: "fst (Root, False) \<notin> Branches ` set (nodes t)" by auto
  have sub: "subtree_at (Root, False) t sl1 = Some sub1"
    by (rule ins_pos_subtree[OF dn wf0 ip])
  note ss = subtree_at_subset[OF sub] subtree_at_slot[OF sub]
  note stop = ins_pos_stop[OF rd ip]
  have rs1: "radix s sub1" using stop by simp
  have news: "new \<notin> set (leaves sub1)" "new \<notin> set (nodes sub1)" using ss new newn by auto
  from nl obtain h l' r' where Node: "sub1 = Node h l' r'" by (cases sub1) auto
  have ok: "node_ok s h (leaves l') (leaves r')" using rs1 Node by simp
  have hneg: "nbit (cells s h) < 0"
  proof (rule ccontr)
    assume n: "\<not> nbit (cells s h) < 0"
    then have b32: "0 \<le> nbit (cells s h)" "nbit (cells s h) < 32"
      using ok by (auto simp: node_ok_def)
    have "shr32 ub (?k XOR key (cells s h)) (nbit (cells s h)) \<ge> 2"
      using stop n Node by simp
    with shr32_ge2[OF b32, of ub "?k XOR key (cells s h)"] eq Node show False by simp
  qed
  have keq: "\<forall>x \<in> set (leaves sub1). key (cells s x) = ?k"
    using ok hneg eq Node by (auto simp: node_ok_def)
  note neq = radix_alleq[OF rs1 keq]
  have bneg: "b < 0" using b neq by auto
  have d1: "distinct (nodes sub1)" by (rule subtree_at_distinct(1)[OF sub dn])
  have o1: "fst sl1 \<notin> Branches ` set (nodes sub1)"
    by (rule subtree_at_slot_outside[OF sub dn wf0])
  from rspine_subtree[OF sp d1 o1] obtain pre2 where
    sub2: "subtree_at sl1 sub1 sl2 = Some sub2"
    and l2: "leaves sub1 = pre2 @ leaves sub2"
       "\<And>g. leaves (graft sl1 sub1 sl2 g) = pre2 @ leaves (g sub2)" by blast
  from graft_trans[OF sub sub2 dn wf0] have
    sub': "subtree_at (Root, False) t sl2 = Some sub2"
    and gt: "\<And>g. graft (Root, False) t sl2 g = graft (Root, False) t sl1 (\<lambda>u. graft sl1 u sl2 g)"
    by blast+
  note gs = graft_above_new_sets[OF sub2, of new True]
  have lG: "leaves (?G sub1) = leaves sub1 @ [new]" using l2 by (simp add: above_new_def)
  have rG: "radix ?s' (?G sub1)"
  proof (rule radix_alleqI[where k = ?k])
    show "\<forall>x\<in>set (leaves (?G sub1)). key (cells ?s' x) = ?k"
      using keq by (auto simp: gs)
    show "\<forall>d\<in>set (nodes (?G sub1)). nbit (cells ?s' d) < 0 \<and> key (cells ?s' d) = ?k"
      using neq bneg by (auto simp: gs)
  qed
  have rd': "radix ?s' ?t'"
    unfolding gt
  proof (rule radix_ins_pos[where G = ?G and new = new, OF rd ip dn wf0])
    show "radix ?s' (?G sub1)" by (rule rG)
    show "\<forall>c\<in>set (nodes t). key (cells ?s' c) = key (cells s c) \<and>
        nbit (cells ?s' c) = nbit (cells s c)" using newn by auto
    show "\<forall>c\<in>set (leaves t). key (cells ?s' c) = key (cells s c)" by auto
    show "set (leaves (?G sub1)) = insert new (set (leaves sub1))" by (simp add: gs)
    show "key (cells ?s' new) = ?k" by simp
  qed
  have i': "tree_inv ?s' ?t'"
    by (rule inv_linked[OF i sub' new _ _ _ rd']) auto
  from graft_leaves[OF sub] obtain pre post where
    l: "leaves t = pre @ leaves sub1 @ post"
       "\<And>g. leaves (graft (Root, False) t sl1 g) = pre @ leaves (g sub1) @ post" by blast
  have out: "\<forall>x \<in> set (leaves t) - set (leaves sub1). key (cells s x) \<noteq> ?k"
    by (rule ins_pos_outside[OF rd ip])
  have post: "\<forall>x \<in> set post. key (cells s x) \<noteq> ?k" using out l(1) dl by auto
  have "ins_leaves s new (leaves sub1) (leaves sub1 @ [new])"
    by (simp add: ins_leaves_def)
  from ins_leaves_mid[OF post this, of pre]
  have il: "ins_leaves s new (leaves t) (leaves ?t')"
    unfolding gt l(2) lG l(1) .
  note ss2 = subtree_at_slot[OF sub']
  have rt: "eb_root ?s' True = eb_root s True" using ss2 by auto
  have ky: "\<forall>c. key (cells ?s' c) = key (cells s c)" by auto
  from e i' il ky rt show ?thesis by blast
qed

lemma eb32_insert_inv_empty:
  assumes "inv_empty s"
  shows "\<exists>s'. eb32_insert ub s Root (Branches new) = Some (s', Branches new)
     \<and> tree_inv s' (Leaf new)
     \<and> (\<forall>c. key (cells s' c) = key (cells s c)) \<and> eb_root s' True = eb_root s True"
proof -
  let ?s' = "upd_cell (upd_slot s (Root, False) (Branches new, False)) new
             (\<lambda>n. n\<lparr>leaf_p := (Root, False), node_p := NULL\<rparr>)"
  have e: "eb32_insert ub s Root (Branches new) = Some (?s', Branches new)"
    using assms by (intro eb32_insert_empty) (simp add: inv_empty_def)
  have "tree_inv ?s' (Leaf new)" using assms by (auto simp: tree_inv_def inv_empty_def)
  with e show ?thesis by auto
qed

lemma inv_has_key:
  assumes i: "tree_inv s t"
    and ip: "ins_pos ub s k (Root, False) t = (sl1, sub1)"
  shows "root_id sub1 \<in> set (leaves t)"
proof -
  from i have dn: "distinct (nodes t)" and ab: "node_above t" by (simp_all add: tree_inv_def)
  have wf0: "fst (Root, False) \<notin> Branches ` set (nodes t)" by auto
  have sub: "subtree_at (Root, False) t sl1 = Some sub1"
    by (rule ins_pos_subtree[OF dn wf0 ip])
  have "root_id sub1 \<in> set (leaves sub1)"
    using above_nodes_leaves[OF subtree_above[OF ab sub]] by (cases sub1) auto
  with subtree_at_subset[OF sub] show ?thesis by auto
qed

text \<open>The four outcomes of an insertion into a tree that satisfies the invariant.\<close>

lemma eb32_insert_inv:
  assumes i: "tree_inv s t" and new: "new \<notin> set (leaves t)"
  shows "\<exists>s' r. eb32_insert ub s Root (Branches new) = Some (s', r)
     \<and> (\<forall>c. key (cells s' c) = key (cells s c)) \<and> eb_root s' True = eb_root s True
     \<and> (if snd (eb_root s True) \<and> (\<exists>x \<in> set (leaves t). key (cells s x) = key (cells s new))
        then (\<exists>sl. s' = upd_cell s new (\<lambda>n. n\<lparr>node_p := sl, nbit := -1\<rparr>))
           \<and> (\<exists>x \<in> set (leaves t). r = Branches x \<and> key (cells s x) = key (cells s new))
        else r = Branches new
           \<and> (\<exists>t'. tree_inv s' t' \<and> ins_leaves s new (leaves t) (leaves t')))"
proof -
  let ?k = "key (cells s new)"
  obtain sl1 sub1 where ip: "ins_pos ub s ?k (Root, False) t = (sl1, sub1)"
    by (cases "ins_pos ub s ?k (Root, False) t") auto
  from i have r: "repr s (Root, False) t" and dn: "distinct (nodes t)" and ab: "node_above t"
    by (simp_all add: tree_inv_def)
  have newn: "new \<notin> set (nodes t)" using above_nodes_leaves[OF ab] new by auto
  note old = inv_has_key[OF i ip]
  let ?o = "key (cells s (root_id sub1))"
  show ?thesis
  proof (cases "?k = ?o")
    case False
    from eb32_insert_inv_link[OF i new ip] False show ?thesis by auto
  next
    case True
    show ?thesis
    proof (cases "snd (eb_root s True)")
      case u: True
      have "eb32_insert ub s Root (Branches new) =
           Some (upd_cell s new (\<lambda>n. n\<lparr>node_p := sl1, nbit := -1\<rparr>), Branches (root_id sub1))"
        by (rule eb32_insert_unique[OF r dn newn new ip True u])
      moreover have "\<exists>sl. upd_cell s new (\<lambda>n. n\<lparr>node_p := sl1, nbit := -1\<rparr>) =
          upd_cell s new (\<lambda>n. n\<lparr>node_p := sl, nbit := -1\<rparr>)" by (rule exI[of _ sl1]) simp
      moreover have "\<exists>x \<in> set (leaves t). Branches (root_id sub1) = Branches x
          \<and> key (cells s x) = key (cells s new)" using old True by auto
      moreover have "\<exists>x \<in> set (leaves t). key (cells s x) = key (cells s new)"
        using old True by auto
      ultimately show ?thesis using u by simp
    next
      case nu: False
      show ?thesis
      proof (cases "is_leaf sub1")
        case True
        from eb32_insert_inv_link[OF i new ip] True nu show ?thesis by auto
      next
        case False
        from eb32_insert_inv_dup[OF i new ip True nu False] nu show ?thesis by auto
      qed
    qed
  qed
qed

section \<open>The invariant after a deletion\<close>

lemma subtree_at_graft_same:
  "subtree_at sl0 t sl = Some sub \<Longrightarrow> subtree_at sl0 (graft sl0 t sl G) sl = Some (G sub)"
proof (induction t arbitrary: sl0)
  case (Leaf c)
  then show ?case by (auto split: if_splits)
next
  case (Node c l r)
  from Node.prems show ?case
  proof (cases rule: subtree_at_cases)
    case 1
    then show ?thesis by simp
  next
    case 2
    with Node.IH(1)[OF 2(2)] show ?thesis by simp
  next
    case 3
    with Node.IH(2)[OF 3(3)] show ?thesis by simp
  qed
qed

lemma graft_graft_same:
  "subtree_at sl0 t sl = Some sub \<Longrightarrow>
   graft sl0 (graft sl0 t sl G) sl H = graft sl0 t sl (\<lambda>u. H (G u))"
proof (induction t arbitrary: sl0)
  case (Leaf c)
  then show ?case by (auto split: if_splits)
next
  case (Node c l r)
  from Node.prems show ?case
  proof (cases rule: subtree_at_cases)
    case 1
    then show ?thesis by (simp add: graft_self)
  next
    case 2
    with Node.IH(1)[OF 2(2)] subtree_at_graft_same[OF 2(2), of G] show ?thesis by simp
  next
    case 3
    with Node.IH(2)[OF 3(3)] show ?thesis by simp
  qed
qed

lemma graft_sibling_sets:
  assumes sub: "subtree_at sl0 t slp = Some (Node p l r)" and c: "l = Leaf c \<or> r = Leaf c"
    and dl: "distinct (leaves t)" and dn: "distinct (nodes t)"
  shows "leaves (graft sl0 t slp (sibling_of c)) = removeAll c (leaves t)"
    and "set (nodes (graft sl0 t slp (sibling_of c))) = set (nodes t) - {p}"
    and "distinct (nodes (graft sl0 t slp (sibling_of c)))"
    and "c \<in> set (leaves t)" and "p \<in> set (nodes t)"
proof -
  from graft_leaves[OF sub] obtain pre post where
    lv: "leaves t = pre @ leaves (Node p l r) @ post"
      "\<And>g. leaves (graft sl0 t slp g) = pre @ leaves (g (Node p l r)) @ post" by blast
  from graft_nodes[OF sub] obtain pre' post' where
    nd: "nodes t = pre' @ nodes (Node p l r) @ post'"
      "\<And>g. nodes (graft sl0 t slp g) = pre' @ nodes (g (Node p l r)) @ post'" by blast
  show "leaves (graft sl0 t slp (sibling_of c)) = removeAll c (leaves t)"
    using lv dl c by (cases "l = Leaf c") auto
  show "set (nodes (graft sl0 t slp (sibling_of c))) = set (nodes t) - {p}"
    using nd dn c by (cases "l = Leaf c") auto
  show "distinct (nodes (graft sl0 t slp (sibling_of c)))"
    using nd dn c by (cases "l = Leaf c") auto
  show "c \<in> set (leaves t)" using lv c by auto
  show "p \<in> set (nodes t)" using nd by auto
qed

lemma graft_renamed_sets:
  assumes sub: "subtree_at sl0 t slc = Some (Node c lc rc)"
    and p: "p \<notin> set (nodes t)" and dn: "distinct (nodes t)"
  shows "leaves (graft sl0 t slc (renamed p)) = leaves t"
    and "set (nodes (graft sl0 t slc (renamed p))) = insert p (set (nodes t) - {c})"
    and "distinct (nodes (graft sl0 t slc (renamed p)))"
proof -
  from graft_leaves[OF sub] obtain pre post where
    lv: "leaves t = pre @ leaves (Node c lc rc) @ post"
      "\<And>g. leaves (graft sl0 t slc g) = pre @ leaves (g (Node c lc rc)) @ post" by blast
  from graft_nodes[OF sub] obtain pre' post' where
    nd: "nodes t = pre' @ nodes (Node c lc rc) @ post'"
      "\<And>g. nodes (graft sl0 t slc g) = pre' @ nodes (g (Node c lc rc)) @ post'" by blast
  show "leaves (graft sl0 t slc (renamed p)) = leaves t" using lv by simp
  show "set (nodes (graft sl0 t slc (renamed p))) = insert p (set (nodes t) - {c})"
    using nd dn by auto
  show "distinct (nodes (graft sl0 t slc (renamed p)))"
    using nd dn p by auto
qed

lemma node_ok_rekey:
  fixes s :: "'a::len word eb_store"
  assumes "node_ok s c ls rs" and "p \<in> set ls \<union> set rs"
    and "nbit (cells s' p) = nbit (cells s c)"
    and "\<forall>x \<in> set ls \<union> set rs. key (cells s' x) = key (cells s x)"
  shows "node_ok s' p ls rs"
proof (cases "nbit (cells s c) < 0")
  case True
  with assms show ?thesis by (auto simp: node_ok_def)
next
  case False
  with assms(1) have
    a: "nbit (cells s c) < int LENGTH('a)"
      "\<forall>x \<in> set ls. \<not> bit (key (cells s x)) (nat (nbit (cells s c)))"
      "\<forall>x \<in> set rs. bit (key (cells s x)) (nat (nbit (cells s c)))"
      "\<forall>x \<in> set ls \<union> set rs. drop_bit (Suc (nat (nbit (cells s c)))) (key (cells s x))
              = drop_bit (Suc (nat (nbit (cells s c)))) (key (cells s c))"
    by (auto simp: node_ok_def)
  have kp: "drop_bit (Suc (nat (nbit (cells s c)))) (key (cells s' p))
              = drop_bit (Suc (nat (nbit (cells s c)))) (key (cells s c))"
    using a(4) assms(2,4) by auto
  show ?thesis
    unfolding node_ok_def using False assms(3,4) a kp by auto
qed

text \<open>The shape of the tree after the parent of the removed leaf has been spliced out and
  has taken the place of the removed cell's node.\<close>

lemma above_spliced:
  assumes ab: "node_above t" and sub: "subtree_at sl0 t slp = Some (Node p l r)"
    and c: "l = Leaf c \<or> r = Leaf c" and dn: "distinct (nodes t)"
    and cn: "c = p \<or> c \<notin> set (nodes t)"
  shows "node_above (graft sl0 t slp (sibling_of c))"
proof (rule above_graft[where g = "sibling_of c", OF ab sub _ _ dn])
  have "node_above (Node p l r)" by (rule subtree_above[OF ab sub])
  then show "node_above (sibling_of c (Node p l r))" by auto
  show "\<forall>a\<in>set (nodes t) - set (nodes (Node p l r)).
       a \<in> set (leaves (Node p l r)) \<longrightarrow> a \<in> set (leaves (sibling_of c (Node p l r)))"
    using c cn by (cases "l = Leaf c") auto
qed

lemma above_moved:
  assumes ab: "node_above t" and subc: "subtree_at sl0 t slc = Some (Node c lc rc)"
    and subp: "subtree_at slc (Node c lc rc) slp = Some (Node p l r)"
    and c: "l = Leaf c \<or> r = Leaf c" and dn: "distinct (nodes t)" and cp: "c \<noteq> p"
  shows "node_above (graft sl0 t slc (\<lambda>u. renamed p (graft slc u slp (sibling_of c))))"
proof (rule above_graft[OF ab subc _ _ dn])
  let ?sub = "Node c lc rc"
  let ?g = "\<lambda>u. renamed p (graft slc u slp (sibling_of c))"
  have abc: "node_above ?sub" by (rule subtree_above[OF ab subc])
  have abp: "node_above (Node p l r)" by (rule subtree_above[OF abc subp])
  have dc: "distinct (nodes ?sub)" by (rule subtree_at_distinct(1)[OF subc dn])
  have cnp: "c \<notin> set (nodes lc)" "c \<notin> set (nodes rc)" using dc by auto
  have psib: "p \<in> set (leaves (sibling_of c (Node p l r)))"
    using abp c cp by (cases "l = Leaf c") auto
  have sib: "node_above (sibling_of c (Node p l r))" using abp by auto
  have lsib: "set (leaves (sibling_of c (Node p l r))) = set (leaves (Node p l r)) - {c}
      \<or> c \<in> set (leaves (sibling_of c (Node p l r)))"
    using c by (cases "l = Leaf c") auto
  have ne: "slp \<noteq> slc" using subp cp by (auto split: if_splits)
  from subp have "node_above (?g ?sub) \<and> set (leaves ?sub) - {c} \<subseteq> set (leaves (?g ?sub))"
  proof (cases rule: subtree_at_cases)
    case 1
    with ne show ?thesis by simp
  next
    case 2
    from graft_leaves[OF 2(2)] obtain pre post where
      lv: "leaves lc = pre @ leaves (Node p l r) @ post"
      "\<And>g. leaves (graft (Branches c, False) lc slp g) = pre @ leaves (g (Node p l r)) @ post"
      by blast
    have "node_above (graft (Branches c, False) lc slp (sibling_of c))"
    proof (rule above_graft[where g = "sibling_of c", OF _ 2(2) sib])
      show "node_above lc" using abc by simp
      show "distinct (nodes lc)" using dc by simp
      show "\<forall>a\<in>set (nodes lc) - set (nodes (Node p l r)).
       a \<in> set (leaves (Node p l r)) \<longrightarrow> a \<in> set (leaves (sibling_of c (Node p l r)))"
        using cnp c by (cases "l = Leaf c") auto
    qed
    moreover have "p \<in> set (leaves (graft (Branches c, False) lc slp (sibling_of c)))"
      using lv psib by simp
    moreover have "set (leaves lc) - {c} \<subseteq> set (leaves (graft (Branches c, False) lc slp (sibling_of c)))"
      using lv c by (cases "l = Leaf c") auto
    ultimately show ?thesis using 2(3) abc by auto
  next
    case 3
    from graft_leaves[OF 3(3)] obtain pre post where
      lv: "leaves rc = pre @ leaves (Node p l r) @ post"
      "\<And>g. leaves (graft (Branches c, True) rc slp g) = pre @ leaves (g (Node p l r)) @ post"
      by blast
    have "node_above (graft (Branches c, True) rc slp (sibling_of c))"
    proof (rule above_graft[where g = "sibling_of c", OF _ 3(3) sib])
      show "node_above rc" using abc by simp
      show "distinct (nodes rc)" using dc by simp
      show "\<forall>a\<in>set (nodes rc) - set (nodes (Node p l r)).
       a \<in> set (leaves (Node p l r)) \<longrightarrow> a \<in> set (leaves (sibling_of c (Node p l r)))"
        using cnp c by (cases "l = Leaf c") auto
    qed
    moreover have "p \<in> set (leaves (graft (Branches c, True) rc slp (sibling_of c)))"
      using lv psib by simp
    moreover have "set (leaves rc) - {c} \<subseteq> set (leaves (graft (Branches c, True) rc slp (sibling_of c)))"
      using lv c by (cases "l = Leaf c") auto
    ultimately show ?thesis using 3(4) abc by auto
  qed
  then show "node_above (?g ?sub)"
    and "\<forall>a\<in>set (nodes t) - set (nodes ?sub). a \<in> set (leaves ?sub) \<longrightarrow> a \<in> set (leaves (?g ?sub))"
    by auto
qed

lemma eb_delete_inv_root_leaf:
  assumes i: "tree_inv s (Leaf c)"
  shows "\<exists>s'. eb_delete s (Branches c) = Some s' \<and> inv_empty s'
     \<and> (\<forall>d. key (cells s' d) = key (cells s d)) \<and> eb_root s' True = eb_root s True"
proof -
  let ?s' = "upd_cell (upd_slot s (Root, False) NULL) c (\<lambda>n. n\<lparr>leaf_p := NULL\<rparr>)"
  from i have lp: "leaf_p (cells s c) = (Root, False)" and rt: "fst (eb_root s True) = Null"
    and o: "\<forall>d. d \<notin> set (leaves (Leaf c)) \<longrightarrow> leaf_p (cells s d) = NULL"
    by (simp_all add: tree_inv_def)
  have "eb_delete s (Branches c) = Some ?s'" by (rule eb_delete_root_leaf[OF lp rt])
  moreover have "inv_empty ?s'" using rt o by (auto simp: inv_empty_def)
  ultimately show ?thesis by auto
qed

lemma delete_setup:
  assumes i: "tree_inv s t" and c: "c \<in> set (leaves t)" and ne: "t \<noteq> Leaf c"
  obtains p l r where "leaf_p (cells s c) = (Branches p, l \<noteq> Leaf c)"
    and "subtree_at (Root, False) t (node_p (cells s p)) = Some (Node p l r)"
    and "l = Leaf c \<or> r = Leaf c"
    and "fst (branches (cells s p) True) \<noteq> Null"
    and "branches (cells s p) (\<not> (l \<noteq> Leaf c)) = tree_ref (sibling_of c (Node p l r))"
    and "fst (node_p (cells s p)) \<noteq> Null"
proof -
  from i have r: "repr s (Root, False) t" and dl: "distinct (leaves t)" and dn: "distinct (nodes t)"
    by (simp_all add: tree_inv_def)
  have wf0: "fst (Root, False) \<notin> Branches ` set (nodes t)" by auto
  from leaf_parent[OF r c ne dn dl wf0] obtain p l r' where
    p: "leaf_p (cells s c) = (Branches p, l \<noteq> Leaf c)"
      "subtree_at (Root, False) t (node_p (cells s p)) = Some (Node p l r')"
      "l = Leaf c \<or> r' = Leaf c" by blast
  have rp: "repr s (node_p (cells s p)) (Node p l r')" by (rule subtree_at_repr[OF p(2) r])
  then have bl: "branches (cells s p) False = tree_ref l" and br: "branches (cells s p) True = tree_ref r'"
    using repr_top[of s "(Branches p, False)" l] repr_top[of s "(Branches p, True)" r'] by auto
  have 4: "fst (branches (cells s p) True) \<noteq> Null" using br by simp
  have 5: "branches (cells s p) (\<not> (l \<noteq> Leaf c)) = tree_ref (sibling_of c (Node p l r'))"
    using bl br p(3) by (cases "l = Leaf c") auto
  have 6: "fst (node_p (cells s p)) \<noteq> Null" using subtree_at_slot[OF p(2)] by auto
  from that[OF p 4 5 6] show ?thesis .
qed

lemma inv_spliced:
  assumes i: "tree_inv s t" and sub: "subtree_at (Root, False) t slp = Some (Node p l r)"
    and c: "l = Leaf c \<or> r = Leaf c"
  shows "repr (spliced s p (sibling_of c (Node p l r)) slp) (Root, False)
           (graft (Root, False) t slp (sibling_of c))"
    and "radix (spliced s p (sibling_of c (Node p l r)) slp)
           (graft (Root, False) t slp (sibling_of c))"
proof -
  let ?s3 = "spliced s p (sibling_of c (Node p l r)) slp"
  from i have r: "repr s (Root, False) t" and dl: "distinct (leaves t)" and dn: "distinct (nodes t)"
    and rd: "radix s t"
    by (simp_all add: tree_inv_def)
  show "repr ?s3 (Root, False) (graft (Root, False) t slp (sibling_of c))"
    by (rule spliced_repr[OF r sub c dn dl]) auto
  have rs: "radix s (Node p l r)" by (rule subtree_radix[OF rd sub])
  have "radix ?s3 (sibling_of c (Node p l r)) = radix s (sibling_of c (Node p l r))"
    by (intro radix_frame) auto
  with rs have r3: "radix ?s3 (sibling_of c (Node p l r))" by auto
  show "radix ?s3 (graft (Root, False) t slp (sibling_of c))"
  proof (rule radix_graft_shrink[where g = "sibling_of c", OF rd sub r3 _ _ _ dn])
    show "set (leaves (sibling_of c (Node p l r))) \<subseteq> set (leaves (Node p l r))" by auto
  qed auto
qed

lemma eb_delete_inv_spliced:
  assumes i: "tree_inv s t" and c: "c \<in> set (leaves t)" and ne: "t \<noteq> Leaf c"
    and cn: "c \<notin> set (nodes t) \<or> leaf_p (cells s c) = (Branches c, False)
           \<or> leaf_p (cells s c) = (Branches c, True)"
  shows "\<exists>s' t'. eb_delete s (Branches c) = Some s' \<and> tree_inv s' t'
     \<and> leaves t' = removeAll c (leaves t)
     \<and> (\<forall>d. key (cells s' d) = key (cells s d)) \<and> eb_root s' True = eb_root s True"
proof -
  from i have r: "repr s (Root, False) t" and dl: "distinct (leaves t)" and dn: "distinct (nodes t)"
    and ab: "node_above t" and rd: "radix s t"
    and lpn: "\<forall>d. d \<notin> set (leaves t) \<longrightarrow> leaf_p (cells s d) = NULL"
    and npn: "\<forall>d. d \<in> set (leaves t) \<longrightarrow> d \<notin> set (nodes t) \<longrightarrow> node_p (cells s d) = NULL"
    and rt: "fst (eb_root s True) = Null"
    by (simp_all add: tree_inv_def)
  from delete_setup[OF i c ne] obtain p l r where
    lp: "leaf_p (cells s c) = (Branches p, l \<noteq> Leaf c)"
    and sub: "subtree_at (Root, False) t (node_p (cells s p)) = Some (Node p l r)"
    and lc: "l = Leaf c \<or> r = Leaf c"
    and br: "fst (branches (cells s p) True) \<noteq> Null"
    and sib: "branches (cells s p) (\<not> (l \<noteq> Leaf c)) = tree_ref (sibling_of c (Node p l r))"
    and slp: "fst (node_p (cells s p)) \<noteq> Null" by blast
  let ?slp = "node_p (cells s p)"
  let ?sibt = "sibling_of c (Node p l r)"
  let ?s3 = "spliced s p ?sibt ?slp"
  let ?s' = "upd_cell ?s3 c (\<lambda>n. n\<lparr>leaf_p := NULL\<rparr>)"
  let ?t' = "graft (Root, False) t ?slp (sibling_of c)"
  have cn': "c = p \<or> c \<notin> set (nodes t)" using cn lp by auto
  note gs = graft_sibling_sets[OF sub lc dl dn]
  note ss = subtree_at_subset[OF sub] subtree_at_slot[OF sub]
  have dsub: "distinct (nodes (Node p l r))" by (rule subtree_at_distinct(1)[OF sub dn])
  have sibn: "set (nodes ?sibt) \<subseteq> set (nodes t) - {p}"
    using ss dsub lc by (cases "l = Leaf c") auto
  have csib: "\<not> (c = root_id ?sibt \<and> ?sibt \<noteq> Leaf c)"
  proof
    assume a: "c = root_id ?sibt \<and> ?sibt \<noteq> Leaf c"
    then have "c \<in> set (nodes ?sibt)" by (cases ?sibt) auto
    with sibn cn' show False by auto
  qed
  have np3: "node_p (cells ?s3 c) = NULL"
  proof (cases "c = p")
    case True
    then show ?thesis by simp
  next
    case False
    with cn' have "c \<notin> set (nodes t)" by simp
    with npn c have "node_p (cells s c) = NULL" by simp
    with False csib show ?thesis by (auto simp del: sibling_of.simps)
  qed
  have e: "eb_delete s (Branches c) = Some ?s'"
    by (rule eb_delete_spliced[OF lp br sib refl slp np3])
  note sp = inv_spliced[OF i sub lc]
  have cl: "c \<notin> set (leaves ?t')" using gs(1) by simp
  have g1: "repr ?s' (Root, False) ?t'"
  proof -
    have "repr ?s' (Root, False) ?t' = repr ?s3 (Root, False) ?t'"
      using cl by (intro repr_frame) auto
    with sp(1) show ?thesis by simp
  qed
  have g5: "radix ?s' ?t'"
  proof -
    have "radix ?s' ?t' = radix ?s3 ?t'" by (intro radix_frame) auto
    with sp(2) show ?thesis by simp
  qed
  have g4: "node_above ?t'" by (rule above_spliced[OF ab sub lc dn cn'])
  have g2: "distinct (leaves ?t')" using gs(1) dl by (simp add: distinct_removeAll)
  have g6: "\<forall>d. d \<notin> set (leaves ?t') \<longrightarrow> leaf_p (cells ?s' d) = NULL"
  proof (intro allI impI)
    fix d assume d: "d \<notin> set (leaves ?t')"
    show "leaf_p (cells ?s' d) = NULL"
    proof (cases "d = c")
      case True
      then show ?thesis by simp
    next
      case False
      with d gs(1) have dt: "d \<notin> set (leaves t)" by simp
      then have "?sibt \<noteq> Leaf d" using ss lc by (cases "l = Leaf c") auto
      with dt lpn False show ?thesis by (auto simp del: sibling_of.simps)
    qed
  qed
  have g7: "\<forall>d. d \<in> set (leaves ?t') \<longrightarrow> d \<notin> set (nodes ?t') \<longrightarrow> node_p (cells ?s' d) = NULL"
  proof (intro allI impI)
    fix d assume d: "d \<in> set (leaves ?t')" "d \<notin> set (nodes ?t')"
    then have dc: "d \<noteq> c" "d \<in> set (leaves t)" using gs(1) by auto
    show "node_p (cells ?s' d) = NULL"
    proof (cases "d = p")
      case True
      with dc show ?thesis by simp
    next
      case False
      with d(2) gs(2) have dn': "d \<notin> set (nodes t)" by simp
      then have "\<not> (d = root_id ?sibt \<and> ?sibt \<noteq> Leaf d)"
        using sibn by (cases ?sibt) auto
      with dn' npn dc False show ?thesis by (auto simp del: sibling_of.simps)
    qed
  qed
  have slr: "?slp \<noteq> (Root, True)" using ss by auto
  have g8: "fst (eb_root ?s' True) = Null" using rt slr by simp
  have rt': "eb_root ?s' True = eb_root s True" using slr by simp
  have i': "tree_inv ?s' ?t'"
    unfolding tree_inv_def using g1 g2 gs(3) g4 g5 g6 g7 g8 by blast
  have ky: "\<forall>d. key (cells ?s' d) = key (cells s d)" by simp
  from e i' gs(1) ky rt' show ?thesis by blast
qed

lemma subtree_at_inner:
  assumes "subtree_at sl (Node c lc rc) sl' = Some u" "sl' \<noteq> sl"
  shows "set (nodes u) \<subseteq> set (nodes lc) \<union> set (nodes rc)"
  using assms(1)
proof (cases rule: subtree_at_cases)
  case 1
  with assms(2) show ?thesis by simp
next
  case 2
  with subtree_at_subset[OF 2(2)] show ?thesis by auto
next
  case 3
  with subtree_at_subset[OF 3(3)] show ?thesis by auto
qed

lemma graft_node_shape:
  assumes "subtree_at sl (Node c lc rc) sl' = Some u" "sl' \<noteq> sl"
  shows "\<exists>lc' rc'. graft sl (Node c lc rc) sl' g = Node c lc' rc'"
  using assms(1)
proof (cases rule: subtree_at_cases)
  case 1
  with assms(2) show ?thesis by simp
next
  case 2
  then show ?thesis by simp
next
  case 3
  then show ?thesis by simp
qed

lemma eb_delete_inv_moved:
  assumes i: "tree_inv s t" and c: "c \<in> set (leaves t)" and ne: "t \<noteq> Leaf c"
    and cn: "c \<in> set (nodes t)" and cp: "fst (leaf_p (cells s c)) \<noteq> Branches c"
  shows "\<exists>s' t'. eb_delete s (Branches c) = Some s' \<and> tree_inv s' t'
     \<and> leaves t' = removeAll c (leaves t)
     \<and> (\<forall>d. key (cells s' d) = key (cells s d)) \<and> eb_root s' True = eb_root s True"
proof -
  from i have r: "repr s (Root, False) t" and dl: "distinct (leaves t)" and dn: "distinct (nodes t)"
    and ab: "node_above t" and rd: "radix s t"
    and lpn: "\<forall>d. d \<notin> set (leaves t) \<longrightarrow> leaf_p (cells s d) = NULL"
    and npn: "\<forall>d. d \<in> set (leaves t) \<longrightarrow> d \<notin> set (nodes t) \<longrightarrow> node_p (cells s d) = NULL"
    and rt: "fst (eb_root s True) = Null"
    by (simp_all add: tree_inv_def)
  have wf0: "fst (Root, False) \<notin> Branches ` set (nodes t)" by auto
  from delete_setup[OF i c ne] obtain p l r where
    lp: "leaf_p (cells s c) = (Branches p, l \<noteq> Leaf c)"
    and sub: "subtree_at (Root, False) t (node_p (cells s p)) = Some (Node p l r)"
    and lc: "l = Leaf c \<or> r = Leaf c"
    and br: "fst (branches (cells s p) True) \<noteq> Null"
    and sib: "branches (cells s p) (\<not> (l \<noteq> Leaf c)) = tree_ref (sibling_of c (Node p l r))"
    and slp: "fst (node_p (cells s p)) \<noteq> Null" by blast
  define slp where "slp = node_p (cells s p)"
  define slc where "slc = node_p (cells s c)"
  define sibt where "sibt = sibling_of c (Node p l r)"
  define s3 where "s3 = spliced s p sibt slp"
  define T1 where "T1 = graft (Root, False) t slp (sibling_of c)"
  have cp': "c \<noteq> p" using cp lp by auto
  note sub' = sub[folded slp_def]
  note gs = graft_sibling_sets[OF sub' lc dl dn, folded T1_def]
  note ss = subtree_at_subset[OF sub'] subtree_at_slot[OF sub']
  from node_position[OF r cn dn wf0] obtain lc0 rc0 where
    subc: "subtree_at (Root, False) t slc = Some (Node c lc0 rc0)" by (auto simp: slc_def)
  note ssc = subtree_at_subset[OF subc] subtree_at_slot[OF subc]
  have rc: "repr s slc (Node c lc0 rc0)" by (rule subtree_at_repr[OF subc r])
  have abc: "node_above (Node c lc0 rc0)" by (rule subtree_above[OF ab subc])
  have dc: "distinct (nodes (Node c lc0 rc0))" "distinct (leaves (Node c lc0 rc0))"
    by (rule subtree_at_distinct(1)[OF subc dn], rule subtree_at_distinct(2)[OF subc dl])
  have oc: "fst slc \<notin> Branches ` set (nodes (Node c lc0 rc0))"
    by (rule subtree_at_slot_outside[OF subc dn wf0])
  have cin: "c \<in> set (leaves (Node c lc0 rc0))" using abc by simp
  from leaf_parent[OF rc cin _ dc oc] obtain p' l' r' where
    p': "leaf_p (cells s c) = (Branches p', l' \<noteq> Leaf c)"
      "subtree_at slc (Node c lc0 rc0) (node_p (cells s p')) = Some (Node p' l' r')" by blast
  have pp: "p' = p" using p'(1) lp by simp
  from graft_trans[OF subc p'(2) dn wf0] sub pp have "Node p' l' r' = Node p l r" by simp
  with p'(2) pp have subp: "subtree_at slc (Node c lc0 rc0) slp = Some (Node p l r)"
    by (simp add: slp_def)
  have nes: "slp \<noteq> slc" using subp cp' by (auto split: if_splits)
  note inn = subtree_at_inner[OF subp nes]
  have csib: "\<not> (c = root_id sibt \<and> sibt \<noteq> Leaf c)"
  proof
    assume a: "c = root_id sibt \<and> sibt \<noteq> Leaf c"
    then have "c \<in> set (nodes sibt)" by (cases sibt) auto
    then have "c \<in> set (nodes (Node p l r))" using lc by (cases "l = Leaf c") (auto simp: sibt_def)
    with inn dc(1) show False by auto
  qed
  have np3: "node_p (cells s3 c) = slc"
    using cp' csib by (auto simp: s3_def slc_def)
  from graft_trans[OF subc subp dn wf0]
  have T1': "T1 = graft (Root, False) t slc (\<lambda>u. graft slc u slp (sibling_of c))"
    by (simp add: T1_def)
  from graft_node_shape[OF subp nes] obtain lc' rc' where
    gsh: "graft slc (Node c lc0 rc0) slp (sibling_of c) = Node c lc' rc'" by blast
  have subc1: "subtree_at (Root, False) T1 slc = Some (Node c lc' rc')"
    using subtree_at_graft_same[OF subc, of "\<lambda>u. graft slc u slp (sibling_of c)"] gsh T1' by simp
  note sp = inv_spliced[OF i sub' lc, folded sibt_def s3_def T1_def]
  have d1: "distinct (nodes T1)" "distinct (leaves T1)" using gs dl by (auto simp: distinct_removeAll)
  have wf1: "fst (Root, False) \<notin> Branches ` set (nodes T1)" by auto
  have pn1: "p \<notin> set (nodes T1)" using gs(2) by simp
  note ssc1 = subtree_at_subset[OF subc1] subtree_at_slot[OF subc1]
  have r3c: "repr s3 slc (Node c lc' rc')" by (rule subtree_at_repr[OF subc1 sp(1)])
  then have ch: "branches (cells s3 c) False = tree_ref lc'" "branches (cells s3 c) True = tree_ref rc'"
    using repr_top[of s3 "(Branches c, False)" lc'] repr_top[of s3 "(Branches c, True)" rc'] by auto
  have slcn: "slc \<noteq> NULL" "fst slc \<noteq> Null" "fst slc \<noteq> Branches p"
    using ssc1 pn1 by auto
  define s4 where "s4 = moved s3 c p lc' rc' slc"
  define s' where "s' = upd_cell s4 c (\<lambda>n. n\<lparr>leaf_p := NULL\<rparr>)"
  define T2 where "T2 = graft (Root, False) T1 slc (renamed p)"
  have e: "eb_delete s (Branches c) = Some s'"
    unfolding s'_def s4_def
    by (rule eb_delete_moved[OF lp br sib[folded sibt_def] slp_def[symmetric]
          slp[folded slp_def] np3[unfolded s3_def] slcn cp' ch[unfolded s3_def], folded s3_def])
  have r4: "repr s4 (Root, False) T2"
    unfolding s4_def T2_def
    by (rule moved_repr[OF sp(1) subc1 pn1 _ d1]) auto
  note gr = graft_renamed_sets[OF subc1 pn1 d1(1), folded T2_def]
  have lT2: "leaves T2 = removeAll c (leaves t)" using gr(1) gs(1) by simp
  have cl: "c \<notin> set (leaves T2)" using lT2 by simp
  have g1: "repr s' (Root, False) T2"
  proof -
    have "repr s' (Root, False) T2 = repr s4 (Root, False) T2"
      unfolding s'_def using cl by (intro repr_frame) auto
    with r4 show ?thesis by simp
  qed
  have T2': "T2 = graft (Root, False) t slc (\<lambda>u. renamed p (graft slc u slp (sibling_of c)))"
    unfolding T2_def T1' by (rule graft_graft_same[OF subc])
  have g4: "node_above T2"
    unfolding T2' by (rule above_moved[OF ab subc subp lc dn cp'])
  have subc2: "subtree_at (Root, False) T2 slc = Some (Node p lc' rc')"
    using subtree_at_graft_same[OF subc1, of "renamed p"] by (simp add: T2_def)
  have pin: "p \<in> set (leaves lc') \<union> set (leaves rc')"
    using subtree_above[OF g4 subc2] by simp
  have rdc: "radix s3 (Node c lc' rc')" by (rule subtree_radix[OF sp(2) subc1])
  have pl: "p \<notin> set (nodes lc')" "p \<notin> set (nodes rc')" using ssc1 pn1 by auto
  have r4p: "radix s4 (renamed p (Node c lc' rc'))"
  proof -
    have a: "radix s4 lc' = radix s3 lc'" unfolding s4_def using pl by (intro radix_frame) auto
    have b: "radix s4 rc' = radix s3 rc'" unfolding s4_def using pl by (intro radix_frame) auto
    have "node_ok s4 p (leaves lc') (leaves rc')"
    proof (rule node_ok_rekey[OF _ pin])
      show "node_ok s3 c (leaves lc') (leaves rc')" using rdc by simp
    qed (simp_all add: s4_def)
    with a b rdc show ?thesis by simp
  qed
  have g5a: "radix s4 T2"
    unfolding T2_def
  proof (rule radix_graft_shrink[where g = "renamed p", OF sp(2) subc1 r4p _ _ _ d1(1)])
    show "set (leaves (renamed p (Node c lc' rc'))) \<subseteq> set (leaves (Node c lc' rc'))" by simp
    show "\<forall>d\<in>set (nodes T1) - set (nodes (Node c lc' rc')).
       key (cells s4 d) = key (cells s3 d) \<and> nbit (cells s4 d) = nbit (cells s3 d)"
      using pn1 by (auto simp: s4_def)
    show "\<forall>d\<in>set (leaves T1). key (cells s4 d) = key (cells s3 d)" by (simp add: s4_def)
  qed
  have g5: "radix s' T2"
  proof -
    have "radix s' T2 = radix s4 T2" unfolding s'_def by (intro radix_frame) auto
    with g5a show ?thesis by simp
  qed
  have g2: "distinct (leaves T2)" using lT2 dl by (simp add: distinct_removeAll)
  have lsub: "set (leaves lc') \<subseteq> set (leaves T1)" "set (leaves rc') \<subseteq> set (leaves T1)"
    using ssc1 by auto
  have sibl: "set (leaves sibt) \<subseteq> set (leaves T1)"
    using subtree_at_subset[OF subtree_at_graft_same[OF sub', of "sibling_of c"]]
    by (simp add: T1_def sibt_def)
  have sibn: "set (nodes sibt) \<subseteq> set (nodes T1)"
    using subtree_at_subset[OF subtree_at_graft_same[OF sub', of "sibling_of c"]]
    by (simp add: T1_def sibt_def)
  have g6: "\<forall>d. d \<notin> set (leaves T2) \<longrightarrow> leaf_p (cells s' d) = NULL"
  proof (intro allI impI)
    fix d assume d: "d \<notin> set (leaves T2)"
    show "leaf_p (cells s' d) = NULL"
    proof (cases "d = c")
      case True
      then show ?thesis by (simp add: s'_def)
    next
      case False
      with d lT2 have dt: "d \<notin> set (leaves t)" by simp
      then have d1: "d \<notin> set (leaves T1)" using gs(1) by simp
      then have "rc' \<noteq> Leaf d" "lc' \<noteq> Leaf d" "sibt \<noteq> Leaf d" using lsub sibl by auto
      with dt lpn False show ?thesis by (simp add: s'_def s4_def s3_def)
    qed
  qed
  have g7: "\<forall>d. d \<in> set (leaves T2) \<longrightarrow> d \<notin> set (nodes T2) \<longrightarrow> node_p (cells s' d) = NULL"
  proof (intro allI impI)
    fix d assume d: "d \<in> set (leaves T2)" "d \<notin> set (nodes T2)"
    then have dc': "d \<noteq> c" "d \<in> set (leaves t)" using lT2 by auto
    from d(2) gr(2) have dp: "d \<noteq> p" "d \<notin> set (nodes T1) - {c}" by auto
    with dc' have dn1: "d \<notin> set (nodes T1)" by simp
    with gs(2) dp have dnt: "d \<notin> set (nodes t)" by simp
    have a: "\<not> (d = root_id rc' \<and> rc' \<noteq> Leaf d)" "\<not> (d = root_id lc' \<and> lc' \<noteq> Leaf d)"
      using dn1 ssc1 by (cases rc'; cases lc'; auto)+
    have b: "\<not> (d = root_id sibt \<and> sibt \<noteq> Leaf d)"
      using dn1 sibn by (cases sibt) auto
    from a b dp dc' dnt npn show "node_p (cells s' d) = NULL"
      by (auto simp: s'_def s4_def s3_def moved_node_p)
  qed
  have slr: "slp \<noteq> (Root, True)" "slc \<noteq> (Root, True)" using ss ssc by auto
  have rt': "eb_root s' True = eb_root s True"
    using slr by (simp add: s'_def s4_def s3_def)
  have g8: "fst (eb_root s' True) = Null" using rt rt' by simp
  have i': "tree_inv s' T2"
    unfolding tree_inv_def using g1 g2 gr(3) g4 g5 g6 g7 g8 by blast
  have ky: "\<forall>d. key (cells s' d) = key (cells s d)" by (simp add: s'_def s4_def s3_def)
  from e i' lT2 ky rt' show ?thesis by blast
qed

lemma eb_delete_null:
  "leaf_p (cells s c) = NULL \<Longrightarrow> eb_delete s (Branches c) = Some s"
  by (simp add: eb_delete_def)

lemma repr_leaf_p:
  "repr s sl t \<Longrightarrow> fst sl \<noteq> Null \<Longrightarrow> c \<in> set (leaves t) \<Longrightarrow> fst (leaf_p (cells s c)) \<noteq> Null"
proof (induction t arbitrary: sl)
  case (Leaf d)
  then show ?case by auto
next
  case (Node d l r)
  from Node.prems have rl: "repr s (Branches d, False) l" and rr: "repr s (Branches d, True) r"
    by auto
  from Node.prems(3) have "c \<in> set (leaves l) \<or> c \<in> set (leaves r)" by auto
  then show ?case
  proof
    assume "c \<in> set (leaves l)"
    from Node.IH(1)[OF rl _ this] show ?thesis by simp
  next
    assume "c \<in> set (leaves r)"
    from Node.IH(2)[OF rr _ this] show ?thesis by simp
  qed
qed

lemma inv_linked_iff:
  assumes "tree_inv s t"
  shows "(c \<in> set (leaves t)) = (leaf_p (cells s c) \<noteq> NULL)"
proof
  assume "c \<in> set (leaves t)"
  with repr_leaf_p[of s "(Root, False)" t c] assms show "leaf_p (cells s c) \<noteq> NULL"
    by (auto simp: tree_inv_def)
next
  assume "leaf_p (cells s c) \<noteq> NULL"
  with assms show "c \<in> set (leaves t)" by (auto simp: tree_inv_def)
qed

lemma eb_delete_inv:
  assumes i: "tree_inv s t" and c: "c \<in> set (leaves t)"
  shows "\<exists>s'. eb_delete s (Branches c) = Some s'
     \<and> (\<forall>d. key (cells s' d) = key (cells s d)) \<and> eb_root s' True = eb_root s True
     \<and> (if t = Leaf c then inv_empty s'
        else \<exists>t'. tree_inv s' t' \<and> leaves t' = removeAll c (leaves t))"
proof (cases "t = Leaf c")
  case True
  with eb_delete_inv_root_leaf[of s c] i show ?thesis by auto
next
  case False
  show ?thesis
  proof (cases "c \<in> set (nodes t) \<and> fst (leaf_p (cells s c)) \<noteq> Branches c")
    case True
    with eb_delete_inv_moved[OF i c False] False show ?thesis by auto
  next
    case F: False
    have "c \<notin> set (nodes t) \<or> leaf_p (cells s c) = (Branches c, False)
           \<or> leaf_p (cells s c) = (Branches c, True)"
      using F by (cases "leaf_p (cells s c)") auto
    from eb_delete_inv_spliced[OF i c False this] False show ?thesis by auto
  qed
qed

lemma inv_unlinked_frame:
  assumes i: "tree_inv s t" and c: "c \<notin> set (leaves t)" and n: "leaf_p n = NULL"
  shows "tree_inv (s\<lparr>cells := (cells s)(c := n)\<rparr>) t"
proof -
  let ?s1 = "s\<lparr>cells := (cells s)(c := n)\<rparr>"
  from i have ab: "node_above t" by (simp add: tree_inv_def)
  have cn: "c \<notin> set (nodes t)" using above_nodes_leaves[OF ab] c by auto
  have 1: "repr ?s1 (Root, False) t = repr s (Root, False) t"
    using c cn by (intro repr_frame) auto
  have 2: "radix ?s1 t = radix s t"
    using c cn by (intro radix_frame) auto
  show ?thesis using i n c unfolding tree_inv_def 1 2 by auto
qed

section \<open>The invariant of reachable stores\<close>

lemma keyed_set:
  assumes "\<forall>k. keyed s k xs = keyed s k ys"
  shows "set xs = set ys"
proof -
  have "(x \<in> set xs) = (x \<in> set ys)" for x
  proof -
    have "(x \<in> set xs) = (x \<in> set (keyed s (key (cells s x)) xs))" by (simp add: keyed_def)
    also have "\<dots> = (x \<in> set (keyed s (key (cells s x)) ys))" using assms by simp
    also have "\<dots> = (x \<in> set ys)" by (simp add: keyed_def)
    finally show ?thesis .
  qed
  then show ?thesis by blast
qed

lemma keyed_cong:
  "\<forall>x \<in> set xs. key (cells s' x) = key (cells s x) \<Longrightarrow> keyed s' k xs = keyed s k xs"
  unfolding keyed_def by (rule filter_cong) auto

lemma keyed_removeAll: "keyed s k (removeAll c xs) = removeAll c (keyed s k xs)"
  by (induction xs) (auto simp: keyed_def)

lemma keyed_nil_iff: "(keyed s k xs = []) = (\<forall>x \<in> set xs. key (cells s x) \<noteq> k)"
  by (auto simp: keyed_def filter_empty_conv)

lemma reach_inv_init: "reach_inv (eb_init unique) []"
  by (simp add: reach_inv_def inv_empty_def eb_init_def EB_ROOT_def EB_ROOT_UNIQUE_def
      zero_node_def keyed_def)

lemma reach_inv_insert:
  assumes ri: "reach_inv s lg" and c: "leaf_p (cells s c) = NULL" and n: "leaf_p n = NULL"
    and e: "eb32_insert ub (s\<lparr>cells := (cells s)(c := n)\<rparr>) Root (Branches c) = Some (s', r)"
  shows "reach_inv s' (if r = Branches c then lg @ [c] else lg)"
proof (cases "lg = []")
  case True
  let ?s1 = "s\<lparr>cells := (cells s)(c := n)\<rparr>"
  from ri True have "inv_empty s" by (simp add: reach_inv_def)
  then have "inv_empty ?s1" using n by (auto simp: inv_empty_def)
  from eb32_insert_inv_empty[OF this, of ub c] e have
    r: "r = Branches c" and i: "tree_inv s' (Leaf c)" by auto
  have "reach_inv s' [c]" unfolding reach_inv_def
  proof (intro conjI impI allI)
    show "if [c] = [] then inv_empty s'
          else \<exists>t. tree_inv s' t \<and> (\<forall>k. keyed s' k (leaves t) = keyed s' k [c])"
      using i by (auto intro!: exI[of _ "Leaf c"])
    show "length (keyed s' k [c]) \<le> 1" for k by (simp add: keyed_def)
  qed
  with r True show ?thesis by simp
next
  case False
  define s1 where "s1 = s\<lparr>cells := (cells s)(c := n)\<rparr>"
  from ri False obtain t where i: "tree_inv s t" and kl: "\<forall>k. keyed s k (leaves t) = keyed s k lg"
    by (auto simp: reach_inv_def)
  from ri have un: "snd (eb_root s True) \<longrightarrow> (\<forall>k. length (keyed s k lg) \<le> 1)"
    by (simp add: reach_inv_def)
  have st: "set lg = set (leaves t)" using keyed_set[OF kl] by simp
  have cl: "c \<notin> set (leaves t)" using inv_linked_iff[OF i, of c] c by simp
  have i1: "tree_inv s1 t" unfolding s1_def by (rule inv_unlinked_frame[OF i cl n])
  have k1: "keyed s1 k xs = keyed s k xs" if "c \<notin> set xs" for k xs
    using that unfolding s1_def by (intro keyed_cong) auto
  have rt1: "eb_root s1 True = eb_root s True" by (simp add: s1_def)
  from eb32_insert_inv[OF i1 cl, of ub] obtain s2 r2 where
    e2: "eb32_insert ub s1 Root (Branches c) = Some (s2, r2)"
    and ky2: "\<forall>d. key (cells s2 d) = key (cells s1 d)" and rt2: "eb_root s2 True = eb_root s1 True"
    and alt2: "if snd (eb_root s1 True) \<and> (\<exists>x \<in> set (leaves t). key (cells s1 x) = key (cells s1 c))
        then (\<exists>sl. s2 = upd_cell s1 c (\<lambda>n. n\<lparr>node_p := sl, nbit := -1\<rparr>))
           \<and> (\<exists>x \<in> set (leaves t). r2 = Branches x \<and> key (cells s1 x) = key (cells s1 c))
        else r2 = Branches c
           \<and> (\<exists>t'. tree_inv s2 t' \<and> ins_leaves s1 c (leaves t) (leaves t'))"
    by blast
  have eq: "s2 = s'" "r2 = r" using e e2 by (simp_all add: s1_def)
  note ky = ky2[unfolded eq] and rt = rt2[unfolded eq] and alt = alt2[unfolded eq]
  have k2: "keyed s' k xs = keyed s1 k xs" for k xs
    using ky by (intro keyed_cong) auto
  show ?thesis
  proof (cases "snd (eb_root s1 True) \<and> (\<exists>x \<in> set (leaves t). key (cells s1 x) = key (cells s1 c))")
    case True
    with alt obtain sl x where s': "s' = upd_cell s1 c (\<lambda>n. n\<lparr>node_p := sl, nbit := -1\<rparr>)"
      and x: "x \<in> set (leaves t)" "r = Branches x" by auto
    have rc: "r \<noteq> Branches c" using x cl by auto
    have "s' = s\<lparr>cells := (cells s)(c := n\<lparr>node_p := sl, nbit := -1\<rparr>)\<rparr>"
      unfolding s' s1_def by (simp add: upd_cell_def)
    moreover have "tree_inv (s\<lparr>cells := (cells s)(c := n\<lparr>node_p := sl, nbit := -1\<rparr>)\<rparr>) t"
      using n by (intro inv_unlinked_frame[OF i cl]) simp
    ultimately have i': "tree_inv s' t" by simp
    have "reach_inv s' lg" unfolding reach_inv_def
    proof (intro conjI impI allI)
      show "if lg = [] then inv_empty s'
          else \<exists>t. tree_inv s' t \<and> (\<forall>k. keyed s' k (leaves t) = keyed s' k lg)"
        using False i' kl cl st by (auto simp: k2 k1 intro!: exI[of _ t])
      show "length (keyed s' k lg) \<le> 1" if "snd (eb_root s' True)" for k
        using that un rt rt1 cl st by (simp add: k2 k1)
    qed
    with rc show ?thesis by simp
  next
    case F: False
    with alt obtain t' where r: "r = Branches c" and i': "tree_inv s' t'"
      and il: "ins_leaves s1 c (leaves t) (leaves t')" by auto
    have kl': "keyed s' k (leaves t') = keyed s' k (lg @ [c])" for k
    proof -
      have "keyed s1 k (leaves t') = keyed s1 k (leaves t) @ (if key (cells s1 c) = k then [c] else [])"
        using il by (simp add: ins_leaves_def keyed_def)
      then have "keyed s' k (leaves t') = keyed s1 k (leaves t) @ (if key (cells s1 c) = k then [c] else [])"
        by (simp only: k2)
      also have "keyed s1 k (leaves t) = keyed s1 k lg"
        using kl cl st by (simp add: k1)
      finally show ?thesis using ky by (simp add: keyed_def)
    qed
    have "reach_inv s' (lg @ [c])" unfolding reach_inv_def
    proof (intro conjI impI allI)
      show "if lg @ [c] = [] then inv_empty s'
          else \<exists>t. tree_inv s' t \<and> (\<forall>k. keyed s' k (leaves t) = keyed s' k (lg @ [c]))"
        using i' kl' by auto
      show "length (keyed s' k (lg @ [c])) \<le> 1" if u: "snd (eb_root s' True)" for k
      proof (cases "key (cells s1 c) = k")
        case True
        from u rt F have "\<forall>x \<in> set (leaves t). key (cells s1 x) \<noteq> key (cells s1 c)" by auto
        then have "keyed s1 k lg = []" using st True by (simp add: keyed_nil_iff)
        then show ?thesis using ky by (simp add: keyed_def)
      next
        case False
        have "keyed s' k (lg @ [c]) = keyed s1 k lg"
          using False ky by (simp add: keyed_def)
        also have "\<dots> = keyed s k lg" using cl st by (simp add: k1)
        finally show ?thesis using un u rt rt1 by simp
      qed
    qed
    with r show ?thesis by simp
  qed
qed

lemma reach_inv_delete:
  assumes ri: "reach_inv s lg" and e: "eb_delete s (Branches c) = Some s'"
  shows "reach_inv s' (removeAll c lg)"
proof (cases "leaf_p (cells s c) = NULL")
  case True
  have s': "s' = s" using eb_delete_null[OF True] e by simp
  have "c \<notin> set lg"
  proof (cases "lg = []")
    case False
    with ri obtain t where i: "tree_inv s t" and kl: "\<forall>k. keyed s k (leaves t) = keyed s k lg"
      unfolding reach_inv_def by auto
    have "c \<notin> set (leaves t)" using inv_linked_iff[OF i, of c] True by simp
    then show ?thesis unfolding keyed_set[OF kl] .
  qed simp
  then have "removeAll c lg = lg" by simp
  with ri show ?thesis unfolding s' by simp
next
  case False
  have ne: "lg \<noteq> []"
  proof
    assume "lg = []"
    with ri have "inv_empty s" by (simp add: reach_inv_def)
    with False show False by (simp add: inv_empty_def)
  qed
  with ri obtain t where i: "tree_inv s t" and kl: "\<forall>k. keyed s k (leaves t) = keyed s k lg"
    unfolding reach_inv_def by auto
  from ri have un: "snd (eb_root s True) \<longrightarrow> (\<forall>k. length (keyed s k lg) \<le> 1)"
    by (simp add: reach_inv_def)
  have st: "set (leaves t) = set lg" by (rule keyed_set[OF kl])
  have cl: "c \<in> set (leaves t)" using inv_linked_iff[OF i, of c] False by simp
  from eb_delete_inv[OF i cl] obtain s2 where
    e2: "eb_delete s (Branches c) = Some s2"
    and ky2: "\<forall>d. key (cells s2 d) = key (cells s d)" and rt2: "eb_root s2 True = eb_root s True"
    and alt2: "if t = Leaf c then inv_empty s2
        else \<exists>t'. tree_inv s2 t' \<and> leaves t' = removeAll c (leaves t)" by blast
  have eq: "s2 = s'" using e e2 by simp
  note ky = ky2[unfolded eq] and rt = rt2[unfolded eq] and alt = alt2[unfolded eq]
  have k2: "keyed s' k xs = keyed s k xs" for k xs
    using ky by (intro keyed_cong) auto
  have len: "length (removeAll c xs) \<le> length xs" for xs :: "nat list"
    by (induction xs) (auto simp: le_SucI)
  have u': "snd (eb_root s' True) \<longrightarrow> (\<forall>k. length (keyed s' k (removeAll c lg)) \<le> 1)"
  proof (intro impI allI)
    fix k assume "snd (eb_root s' True)"
    with un rt have "length (keyed s k lg) \<le> 1" by simp
    with len[of "keyed s k lg"] have "length (removeAll c (keyed s k lg)) \<le> 1" by linarith
    then show "length (keyed s' k (removeAll c lg)) \<le> 1"
      by (simp only: k2 keyed_removeAll)
  qed
  show ?thesis
  proof (cases "t = Leaf c")
    case True
    with st have "set lg \<subseteq> {c}" by simp
    then have "removeAll c lg = []" by (induction lg) auto
    moreover have "inv_empty s'" using alt True by simp
    ultimately show ?thesis using u' unfolding reach_inv_def by simp
  next
    case F: False
    with alt obtain t' where i': "tree_inv s' t'" and l': "leaves t' = removeAll c (leaves t)" by auto
    have kl': "\<forall>k. keyed s' k (leaves t') = keyed s' k (removeAll c lg)"
    proof
      fix k
      have "keyed s' k (leaves t') = removeAll c (keyed s k (leaves t))"
        by (simp only: k2 l' keyed_removeAll)
      also have "\<dots> = removeAll c (keyed s k lg)" using kl by simp
      also have "\<dots> = keyed s' k (removeAll c lg)" by (simp only: k2 keyed_removeAll)
      finally show "keyed s' k (leaves t') = keyed s' k (removeAll c lg)" .
    qed
    have se: "set (leaves t') = set (removeAll c lg)" by (rule keyed_set[OF kl'])
    have ne': "removeAll c lg \<noteq> []"
    proof
      assume "removeAll c lg = []"
      then have "set (leaves t') = {}" by (simp only: se set_simps)
      then show False using leaves_nonempty[of t'] by (simp only: set_empty)
    qed
    have ex: "\<exists>t. tree_inv s' t \<and> (\<forall>k. keyed s' k (leaves t) = keyed s' k (removeAll c lg))"
      using i' kl' by blast
    show ?thesis unfolding reach_inv_def
    proof (intro conjI)
      show "if removeAll c lg = [] then inv_empty s'
        else \<exists>t. tree_inv s' t \<and> (\<forall>k. keyed s' k (leaves t) = keyed s' k (removeAll c lg))"
        using ne' ex by (simp only: if_False)
      show "snd (eb_root s' True) \<longrightarrow> (\<forall>k. length (keyed s' k (removeAll c lg)) \<le> 1)"
        by (rule u')
    qed
  qed
qed

lemma eb_reach_inv: "eb_reach ub s lg \<Longrightarrow> reach_inv s lg"
proof (induction rule: eb_reach.induct)
  case (reach_init unique)
  show ?case by (rule reach_inv_init)
next
  case (reach_insert s lg c n s' r)
  from reach_inv_insert[OF reach_insert.IH reach_insert.hyps(2,3,4)] show ?case .
next
  case (reach_delete s lg c s')
  from reach_inv_delete[OF reach_delete.IH reach_delete.hyps(2)] show ?case .
qed

section \<open>Traversals\<close>

lemma eb_next_inv:
  assumes i: "tree_inv s t" and l: "leaves t = pre @ c # rest"
  shows "eb_next s (Branches c) = Some (case rest of [] \<Rightarrow> Null | d # _ \<Rightarrow> Branches d)"
proof -
  from i have r: "repr s (Root, False) t" and dl: "distinct (leaves t)"
    and rt: "fst (eb_root s True) = Null" by (simp_all add: tree_inv_def)
  have c: "c \<in> set (leaves t)" using l by simp
  have top: "eb_next_from s (Root, False) = Some Null"
    using rt by (subst eb_next_from.simps) simp
  have "succ_in (leaves t) c = (case rest of [] \<Rightarrow> None | d # _ \<Rightarrow> Some d)"
    using succ_in_split[of pre c rest] dl l by simp
  with eb_next_from_repr[OF r dl c] top show ?thesis
    by (cases rest) (simp_all add: eb_next_def)
qed

lemma eb_prev_inv:
  assumes i: "tree_inv s t" and l: "rev (leaves t) = pre @ c # rest"
  shows "eb_prev s (Branches c) = Some (case rest of [] \<Rightarrow> Null | d # _ \<Rightarrow> Branches d)"
proof -
  from i have r: "repr s (Root, False) t" and dl: "distinct (leaves t)"
    and rt: "fst (eb_root s True) = Null" by (simp_all add: tree_inv_def)
  have c: "c \<in> set (leaves t)" using l by (metis in_set_conv_decomp set_rev)
  have top: "eb_prev_from s (Root, False) = Some Null"
    using rt by (subst eb_prev_from.simps) simp
  have "distinct (pre @ c # rest)" using dl l by (metis distinct_rev)
  then have "succ_in (rev (leaves t)) c = (case rest of [] \<Rightarrow> None | d # _ \<Rightarrow> Some d)"
    using succ_in_split[of pre c rest] l by simp
  with eb_prev_from_repr[OF r dl c] top show ?thesis
    by (cases rest) (simp_all add: eb_prev_def)
qed

lemma eb_walk_next_inv:
  assumes i: "tree_inv s t"
  shows "leaves t = pre @ c # rest \<Longrightarrow> eb_walk_next s (Branches c) = Some (map Branches (c # rest))"
proof (induction rest arbitrary: pre c)
  case Nil
  from eb_next_inv[OF i Nil] show ?case
    by (subst eb_walk_next.simps) (simp add: eb_walk_next.simps)
next
  case (Cons d rest)
  have "leaves t = (pre @ [c]) @ d # rest" using Cons.prems by simp
  from Cons.IH[OF this] eb_next_inv[OF i Cons.prems] show ?case
    by (subst eb_walk_next.simps) simp
qed

lemma eb_walk_prev_inv:
  assumes i: "tree_inv s t"
  shows "rev (leaves t) = pre @ c # rest \<Longrightarrow> eb_walk_prev s (Branches c) = Some (map Branches (c # rest))"
proof (induction rest arbitrary: pre c)
  case Nil
  from eb_prev_inv[OF i Nil] show ?case
    by (subst eb_walk_prev.simps) (simp add: eb_walk_prev.simps)
next
  case (Cons d rest)
  have "rev (leaves t) = (pre @ [c]) @ d # rest" using Cons.prems by simp
  from Cons.IH[OF this] eb_prev_inv[OF i Cons.prems] show ?case
    by (subst eb_walk_prev.simps) simp
qed

lemma eb_first_inv:
  assumes i: "tree_inv s t"
  shows "eb_first s Root = Some (Branches (hd (leaves t)))"
    and "eb_last s Root = Some (Branches (last (leaves t)))"
proof -
  from i have r: "repr s (Root, False) t" by (simp add: tree_inv_def)
  from repr_top[OF r] eb_walk_down_repr[OF r, of False] eb_walk_down_repr[OF r, of True]
  show "eb_first s Root = Some (Branches (hd (leaves t)))"
    and "eb_last s Root = Some (Branches (last (leaves t)))"
    by (simp_all add: eb_first_def eb_last_def)
qed

lemma eb_first_empty:
  assumes "inv_empty s"
  shows "eb_first s Root = Some Null" and "eb_last s Root = Some Null"
  using assms by (simp_all add: eb_first_def eb_last_def inv_empty_def eb_walk_down.simps)

lemma eb_traverse_inv:
  assumes i: "tree_inv s t"
  shows "eb_traverse s = Some (map Branches (leaves t))"
    and "eb_traverse_back s = Some (map Branches (rev (leaves t)))"
proof -
  obtain c rest where l: "leaves t = c # rest" using leaves_nonempty[of t] by (cases "leaves t") auto
  from eb_walk_next_inv[OF i, of "[]" c rest] l eb_first_inv(1)[OF i]
  show "eb_traverse s = Some (map Branches (leaves t))" by (simp add: eb_traverse_def)
  obtain c' rest' where l': "rev (leaves t) = c' # rest'"
    using leaves_nonempty[of t] by (cases "rev (leaves t)") auto
  have "last (leaves t) = c'" using l' by (metis hd_rev list.sel(1))
  with eb_walk_prev_inv[OF i, of "[]" c' rest'] l' eb_first_inv(2)[OF i]
  show "eb_traverse_back s = Some (map Branches (rev (leaves t)))"
    by (simp add: eb_traverse_back_def)
qed

lemma eb_traverse_empty:
  assumes "inv_empty s"
  shows "eb_traverse s = Some []" and "eb_traverse_back s = Some []"
  using eb_first_empty[OF assms]
  by (simp_all add: eb_traverse_def eb_traverse_back_def eb_walk_next.simps eb_walk_prev.simps)

section \<open>Lookups\<close>



lemma eb32_lookup_empty:
  "inv_empty s \<Longrightarrow> eb32_lookup ub s Root x = Some Null"
  "inv_empty s \<Longrightarrow> eb32_lookup_le ub s Root x = Some Null"
  "inv_empty s \<Longrightarrow> eb32_lookup_ge ub s Root x = Some Null"
  by (simp_all add: eb32_lookup_def eb32_lookup_le_def eb32_lookup_ge_def inv_empty_def)

lemma drop_bit_word_mono:
  fixes a b :: "'a::len word"
  assumes "a \<le> b"
  shows "drop_bit n a \<le> drop_bit n b"
proof -
  have "unat a \<le> unat b" using assms by (simp add: word_le_nat_alt)
  then have "unat a div 2 ^ n \<le> unat b div 2 ^ n" by (rule div_le_mono)
  then have "drop_bit n (unat a) \<le> drop_bit n (unat b)" by (simp add: drop_bit_eq_div)
  then show ?thesis
    unfolding word_le_nat_alt unat_drop_bit_eq .
qed

lemma drop_bit_less_imp:
  fixes a b :: "'a::len word"
  assumes "drop_bit n a < drop_bit n b"
  shows "a < b"
proof (rule ccontr)
  assume "\<not> a < b"
  then have "b \<le> a" by simp
  from drop_bit_word_mono[OF this, of n] assms show False by simp
qed

text \<open>The keys below a node whose prefix differs from that of \<open>x\<close> are all on one side of \<open>x\<close>.\<close>

lemma prefix_differs:
  fixes k x y :: "'a::len word"
  assumes "drop_bit (Suc b) k \<noteq> drop_bit (Suc b) x"
    and "drop_bit (Suc b) y = drop_bit (Suc b) k"
  shows "drop_bit b k < drop_bit b x \<Longrightarrow> y < x"
    and "\<not> drop_bit b k < drop_bit b x \<Longrightarrow> x < y"
proof -
  have e: "drop_bit (Suc b) w = drop_bit 1 (drop_bit b w)" for w :: "'a word" by simp
  {
    assume "drop_bit b k < drop_bit b x"
    then have "drop_bit b k \<le> drop_bit b x" by simp
    from drop_bit_word_mono[OF this, of 1] have "drop_bit (Suc b) k \<le> drop_bit (Suc b) x"
      by (simp only: e)
    with assms(1) have "drop_bit (Suc b) k < drop_bit (Suc b) x" by simp
    then have "drop_bit (Suc b) y < drop_bit (Suc b) x" using assms(2) by simp
    then show "y < x" by (rule drop_bit_less_imp)
  }
  {
    assume "\<not> drop_bit b k < drop_bit b x"
    then have "drop_bit b x \<le> drop_bit b k" by simp
    from drop_bit_word_mono[OF this, of 1] have "drop_bit (Suc b) x \<le> drop_bit (Suc b) k"
      by (simp only: e)
    with assms(1) have "drop_bit (Suc b) x < drop_bit (Suc b) k" by simp
    then have "drop_bit (Suc b) x < drop_bit (Suc b) y" using assms(2) by simp
    then show "x < y" by (rule drop_bit_less_imp)
  }
qed

lemma le_list_all: "\<forall>c \<in> set xs. key (cells s c) \<le> x \<Longrightarrow> le_list s x xs = xs"
  by (simp add: le_list_def)

lemma le_list_none: "\<forall>c \<in> set xs. \<not> key (cells s c) \<le> x \<Longrightarrow> le_list s x xs = []"
  by (simp add: le_list_def)

lemma ge_list_all: "\<forall>c \<in> set xs. x \<le> key (cells s c) \<Longrightarrow> ge_list s x xs = xs"
  by (simp add: ge_list_def)

lemma ge_list_none: "\<forall>c \<in> set xs. \<not> x \<le> key (cells s c) \<Longrightarrow> ge_list s x xs = []"
  by (simp add: ge_list_def)

lemma le_list_append [simp]: "le_list s x (xs @ ys) = le_list s x xs @ le_list s x ys"
  by (simp add: le_list_def)

lemma ge_list_append [simp]: "ge_list s x (xs @ ys) = ge_list s x xs @ ge_list s x ys"
  by (simp add: ge_list_def)

text \<open>What a node tells about the keys of its two sides, for a probe \<open>x\<close>.\<close>

lemma node_ok_sides:
  fixes s :: "'a::len word eb_store"
  assumes ok: "node_ok s d ls rs"
  shows "nbit (cells s d) < 0 \<Longrightarrow> \<forall>c \<in> set ls \<union> set rs. key (cells s c) = key (cells s d)"
    and "\<not> nbit (cells s d) < 0 \<Longrightarrow> 0 \<le> nbit (cells s d) \<and> nbit (cells s d) < int LENGTH('a)"
    and "\<not> nbit (cells s d) < 0 \<Longrightarrow>
         drop_bit (Suc (nat (nbit (cells s d)))) x \<noteq> drop_bit (Suc (nat (nbit (cells s d)))) (key (cells s d)) \<Longrightarrow>
         drop_bit (nat (nbit (cells s d))) (key (cells s d)) < drop_bit (nat (nbit (cells s d))) x \<Longrightarrow>
         \<forall>c \<in> set ls \<union> set rs. key (cells s c) < x"
    and "\<not> nbit (cells s d) < 0 \<Longrightarrow>
         drop_bit (Suc (nat (nbit (cells s d)))) x \<noteq> drop_bit (Suc (nat (nbit (cells s d)))) (key (cells s d)) \<Longrightarrow>
         \<not> drop_bit (nat (nbit (cells s d))) (key (cells s d)) < drop_bit (nat (nbit (cells s d))) x \<Longrightarrow>
         \<forall>c \<in> set ls \<union> set rs. x < key (cells s c)"
    and "\<not> nbit (cells s d) < 0 \<Longrightarrow>
         drop_bit (Suc (nat (nbit (cells s d)))) x = drop_bit (Suc (nat (nbit (cells s d)))) (key (cells s d)) \<Longrightarrow>
         bit x (nat (nbit (cells s d))) \<Longrightarrow> \<forall>c \<in> set ls. key (cells s c) < x"
    and "\<not> nbit (cells s d) < 0 \<Longrightarrow>
         drop_bit (Suc (nat (nbit (cells s d)))) x = drop_bit (Suc (nat (nbit (cells s d)))) (key (cells s d)) \<Longrightarrow>
         \<not> bit x (nat (nbit (cells s d))) \<Longrightarrow> \<forall>c \<in> set rs. x < key (cells s c)"
proof -
  let ?b = "nat (nbit (cells s d))" and ?k = "key (cells s d)"
  show "nbit (cells s d) < 0 \<Longrightarrow> \<forall>c \<in> set ls \<union> set rs. key (cells s c) = ?k"
    using ok by (auto simp: node_ok_def)
  show "\<not> nbit (cells s d) < 0 \<Longrightarrow> 0 \<le> nbit (cells s d) \<and> nbit (cells s d) < int LENGTH('a)"
    using ok by (auto simp: node_ok_def)
  {
    assume nb: "\<not> nbit (cells s d) < 0"
    with ok have pre: "\<forall>c \<in> set ls \<union> set rs. drop_bit (Suc ?b) (key (cells s c)) = drop_bit (Suc ?b) ?k"
      and lb: "\<forall>c \<in> set ls. \<not> bit (key (cells s c)) ?b"
      and rb: "\<forall>c \<in> set rs. bit (key (cells s c)) ?b"
      by (auto simp: node_ok_def)
    {
      assume df: "drop_bit (Suc ?b) x \<noteq> drop_bit (Suc ?b) ?k"
      then have df': "drop_bit (Suc ?b) ?k \<noteq> drop_bit (Suc ?b) x" by simp
      show "drop_bit ?b ?k < drop_bit ?b x \<Longrightarrow> \<forall>c \<in> set ls \<union> set rs. key (cells s c) < x"
        using prefix_differs(1)[OF df'] pre by blast
      show "\<not> drop_bit ?b ?k < drop_bit ?b x \<Longrightarrow> \<forall>c \<in> set ls \<union> set rs. x < key (cells s c)"
        using prefix_differs(2)[OF df'] pre by blast
    }
    {
      assume e: "drop_bit (Suc ?b) x = drop_bit (Suc ?b) ?k"
      show "bit x ?b \<Longrightarrow> \<forall>c \<in> set ls. key (cells s c) < x"
      proof
        fix c assume x: "bit x ?b" and c: "c \<in> set ls"
        have "drop_bit (Suc ?b) (key (cells s c)) = drop_bit (Suc ?b) x" using pre c e by simp
        from word_less_by_bit[OF this _ x] lb c show "key (cells s c) < x" by simp
      qed
      show "\<not> bit x ?b \<Longrightarrow> \<forall>c \<in> set rs. x < key (cells s c)"
      proof
        fix c assume x: "\<not> bit x ?b" and c: "c \<in> set rs"
        have "drop_bit (Suc ?b) x = drop_bit (Suc ?b) (key (cells s c))" using pre c e by simp
        from word_less_by_bit[OF this x] rb c show "x < key (cells s c)" by simp
      qed
    }
  }
qed

lemma eb32_lookup_le_loop_node:
  assumes "repr s sl (Node d l r)"
  shows "eb32_lookup_le_loop ub s (tree_ref (Node d l r)) x =
     (if nbit (cells s d) < 0
      then (if key (cells s d) \<le> x then Some (Branches (last (leaves r))) else eb_prev_from s sl)
      else if shr32 ub (x XOR key (cells s d)) (nbit (cells s d)) \<ge> 2
      then (if shr32 ub (key (cells s d)) (nbit (cells s d)) < shr32 ub x (nbit (cells s d))
            then Some (Branches (last (leaves r))) else eb_prev_from s sl)
      else eb32_lookup_le_loop ub s
             (tree_ref (if shr32 ub x (nbit (cells s d)) AND 1 \<noteq> 0 then r else l)) x)"
proof -
  from assms have rl: "repr s (Branches d, False) l" and rr: "repr s (Branches d, True) r"
    and np: "node_p (cells s d) = sl" by auto
  note tl = repr_top[OF rl] and tr = repr_top[OF rr]
  show ?thesis
    using tl tr np eb_descend_repr[OF rr, of True] eb_walk_down_repr[OF rr, of True]
    by (subst eb32_lookup_le_loop.simps) (simp del: leaves.simps)
qed

lemma eb32_lookup_ge_loop_node:
  assumes "repr s sl (Node d l r)"
  shows "eb32_lookup_ge_loop ub s (tree_ref (Node d l r)) x =
     (if nbit (cells s d) < 0
      then (if key (cells s d) \<ge> x then Some (Branches (hd (leaves l))) else eb_next_from s sl)
      else if shr32 ub (x XOR key (cells s d)) (nbit (cells s d)) \<ge> 2
      then (if shr32 ub (key (cells s d)) (nbit (cells s d)) > shr32 ub x (nbit (cells s d))
            then Some (Branches (hd (leaves l))) else eb_next_from s sl)
      else eb32_lookup_ge_loop ub s
             (tree_ref (if shr32 ub x (nbit (cells s d)) AND 1 \<noteq> 0 then r else l)) x)"
proof -
  from assms have rl: "repr s (Branches d, False) l" and rr: "repr s (Branches d, True) r"
    and np: "node_p (cells s d) = sl" by auto
  note tl = repr_top[OF rl] and tr = repr_top[OF rr]
  show ?thesis
    using tl tr np eb_descend_repr[OF rl, of False] eb_walk_down_repr[OF rl, of False]
    by (subst eb32_lookup_ge_loop.simps) (simp del: leaves.simps)
qed

lemma eb_prev_from_child:
  assumes "repr s sl (Node d l r)"
  shows "eb_prev_from s (Branches d, True) = Some (Branches (last (leaves l)))"
    and "eb_prev_from s (Branches d, False) = eb_prev_from s sl"
proof -
  from assms have rl: "repr s (Branches d, False) l" and rr: "repr s (Branches d, True) r"
    and np: "node_p (cells s d) = sl" by auto
  note tl = repr_top[OF rl] and tr = repr_top[OF rr]
  show "eb_prev_from s (Branches d, True) = Some (Branches (last (leaves l)))"
    using tl eb_walk_down_repr[OF rl, of True] by (subst eb_prev_from.simps) simp
  show "eb_prev_from s (Branches d, False) = eb_prev_from s sl"
    using tr np by (subst eb_prev_from.simps) simp
qed

lemma eb_next_from_child:
  assumes "repr s sl (Node d l r)"
  shows "eb_next_from s (Branches d, False) = Some (Branches (hd (leaves r)))"
    and "eb_next_from s (Branches d, True) = eb_next_from s sl"
proof -
  from assms have rl: "repr s (Branches d, False) l" and rr: "repr s (Branches d, True) r"
    and np: "node_p (cells s d) = sl" by auto
  note tl = repr_top[OF rl] and tr = repr_top[OF rr]
  show "eb_next_from s (Branches d, False) = Some (Branches (hd (leaves r)))"
    using tr eb_walk_down_repr[OF rr, of False] by (subst eb_next_from.simps) simp
  show "eb_next_from s (Branches d, True) = eb_next_from s sl"
    using np by (subst eb_next_from.simps) simp
qed

lemma eb32_lookup_le_loop_repr:
  assumes "repr s sl t" "radix s t"
  shows "eb32_lookup_le_loop ub s (tree_ref t) x =
     (if le_list s x (leaves t) = [] then eb_prev_from s sl
      else Some (Branches (last (le_list s x (leaves t)))))"
  using assms
proof (induction t arbitrary: sl)
  case (Leaf c)
  then show ?case by (subst eb32_lookup_le_loop.simps) (simp add: le_list_def)
next
  case (Node d l r)
  let ?b = "nbit (cells s d)" and ?k = "key (cells s d)"
  from Node.prems have rl: "repr s (Branches d, False) l" and rr: "repr s (Branches d, True) r"
    and ok: "node_ok s d (leaves l) (leaves r)" and xl: "radix s l" and xr: "radix s r"
    by auto
  note step = eb32_lookup_le_loop_node[OF Node.prems(1), of ub x]
  note sides = node_ok_sides[OF ok]
  note pc = eb_prev_from_child[OF Node.prems(1)]
  have lr: "last (leaves l @ leaves r) = last (leaves r)" by simp
  show ?case
  proof (cases "?b < 0")
    case True
    show ?thesis
    proof (cases "?k \<le> x")
      case k: True
      have "le_list s x (leaves (Node d l r)) = leaves (Node d l r)"
        using sides(1)[OF True] k by (intro le_list_all) (auto simp: not_le intro: less_imp_le)
      with True k step lr show ?thesis by simp
    next
      case k: False
      have "le_list s x (leaves (Node d l r)) = []"
        using sides(1)[OF True] k by (intro le_list_none) (auto simp: not_le intro: less_imp_le)
      with True k step show ?thesis by simp
    qed
  next
    case False
    note b = sides(2)[OF False]
    have b1: "0 \<le> ?b" and b2: "?b < 32" using b by auto
    show ?thesis
    proof (cases "shr32 ub (x XOR ?k) ?b \<ge> 2")
      case True
      then have df: "drop_bit (Suc (nat ?b)) x \<noteq> drop_bit (Suc (nat ?b)) ?k"
        using shr32_ge2[OF b1 b2, of ub "x XOR ?k"] by (simp only: drop_bit_xor_eq0) simp
      show ?thesis
      proof (cases "shr32 ub ?k ?b < shr32 ub x ?b")
        case lt: True
        then have "drop_bit (nat ?b) ?k < drop_bit (nat ?b) x"
          by (simp only: shr32_lt[OF b1 b2])
        from sides(3)[OF False df this]
        have "le_list s x (leaves (Node d l r)) = leaves (Node d l r)"
          by (intro le_list_all) (auto simp: not_le intro: less_imp_le)
        with False True lt step lr show ?thesis by simp
      next
        case lt: False
        then have "\<not> drop_bit (nat ?b) ?k < drop_bit (nat ?b) x"
          by (simp only: shr32_lt[OF b1 b2]) simp
        from sides(4)[OF False df this]
        have "le_list s x (leaves (Node d l r)) = []"
          by (intro le_list_none) (auto simp: not_le intro: less_imp_le)
        with False True lt step show ?thesis by simp
      qed
    next
      case ge: False
      then have e: "drop_bit (Suc (nat ?b)) x = drop_bit (Suc (nat ?b)) ?k"
        using shr32_ge2[OF b1 b2, of ub "x XOR ?k"] by (simp only: drop_bit_xor_eq0) simp
      have sd: "(shr32 ub x ?b AND 1 \<noteq> 0) = bit x (nat ?b)" by (rule shr32_bit[OF b1 b2])
      show ?thesis
      proof (cases "bit x (nat ?b)")
        case True
        from sides(5)[OF False e True] have ll: "le_list s x (leaves l) = leaves l"
          by (intro le_list_all) (auto simp: not_le intro: less_imp_le)
        have "eb32_lookup_le_loop ub s (tree_ref (Node d l r)) x =
              eb32_lookup_le_loop ub s (tree_ref r) x"
          using step False ge sd True by simp
        also have "\<dots> = (if le_list s x (leaves r) = [] then eb_prev_from s (Branches d, True)
            else Some (Branches (last (le_list s x (leaves r)))))"
          by (rule Node.IH(2)[OF rr xr])
        finally show ?thesis using ll pc(1) by simp
      next
        case F: False
        from sides(6)[OF False e F] have lr0: "le_list s x (leaves r) = []"
          by (intro le_list_none) (auto simp: not_le intro: less_imp_le)
        have "eb32_lookup_le_loop ub s (tree_ref (Node d l r)) x =
              eb32_lookup_le_loop ub s (tree_ref l) x"
          using step False ge sd F by simp
        also have "\<dots> = (if le_list s x (leaves l) = [] then eb_prev_from s (Branches d, False)
            else Some (Branches (last (le_list s x (leaves l)))))"
          by (rule Node.IH(1)[OF rl xl])
        finally show ?thesis using lr0 pc(2) by simp
      qed
    qed
  qed
qed

lemma eb32_lookup_ge_loop_repr:
  assumes "repr s sl t" "radix s t"
  shows "eb32_lookup_ge_loop ub s (tree_ref t) x =
     (if ge_list s x (leaves t) = [] then eb_next_from s sl
      else Some (Branches (hd (ge_list s x (leaves t)))))"
  using assms
proof (induction t arbitrary: sl)
  case (Leaf c)
  then show ?case by (subst eb32_lookup_ge_loop.simps) (simp add: ge_list_def)
next
  case (Node d l r)
  let ?b = "nbit (cells s d)" and ?k = "key (cells s d)"
  from Node.prems have rl: "repr s (Branches d, False) l" and rr: "repr s (Branches d, True) r"
    and ok: "node_ok s d (leaves l) (leaves r)" and xl: "radix s l" and xr: "radix s r"
    by auto
  note step = eb32_lookup_ge_loop_node[OF Node.prems(1), of ub x]
  note sides = node_ok_sides[OF ok]
  note pc = eb_next_from_child[OF Node.prems(1)]
  have lr: "hd (leaves l @ leaves r) = hd (leaves l)" by simp
  show ?case
  proof (cases "?b < 0")
    case True
    show ?thesis
    proof (cases "x \<le> ?k")
      case k: True
      have "ge_list s x (leaves (Node d l r)) = leaves (Node d l r)"
        using sides(1)[OF True] k by (intro ge_list_all) (auto simp: not_le intro: less_imp_le)
      with True k step lr show ?thesis by simp
    next
      case k: False
      have "ge_list s x (leaves (Node d l r)) = []"
        using sides(1)[OF True] k by (intro ge_list_none) (auto simp: not_le intro: less_imp_le)
      with True k step show ?thesis by simp
    qed
  next
    case False
    note b = sides(2)[OF False]
    have b1: "0 \<le> ?b" and b2: "?b < 32" using b by auto
    show ?thesis
    proof (cases "shr32 ub (x XOR ?k) ?b \<ge> 2")
      case True
      then have df: "drop_bit (Suc (nat ?b)) x \<noteq> drop_bit (Suc (nat ?b)) ?k"
        using shr32_ge2[OF b1 b2, of ub "x XOR ?k"] by (simp only: drop_bit_xor_eq0) simp
      then have df': "drop_bit (Suc (nat ?b)) ?k \<noteq> drop_bit (Suc (nat ?b)) x" by simp
      have pre: "\<forall>c \<in> set (leaves l) \<union> set (leaves r).
          drop_bit (Suc (nat ?b)) (key (cells s c)) = drop_bit (Suc (nat ?b)) ?k"
        using ok False by (auto simp: node_ok_def)
      show ?thesis
      proof (cases "shr32 ub x ?b < shr32 ub ?k ?b")
        case lt: True
        then have "drop_bit (nat ?b) x < drop_bit (nat ?b) ?k"
          by (simp only: shr32_lt[OF b1 b2])
        then have "\<not> drop_bit (nat ?b) ?k < drop_bit (nat ?b) x" by simp
        from sides(4)[OF False df this]
        have "ge_list s x (leaves (Node d l r)) = leaves (Node d l r)"
          by (intro ge_list_all) (auto simp: not_le intro: less_imp_le)
        with False True lt step lr show ?thesis by simp
      next
        case lt: False
        then have nl: "\<not> drop_bit (nat ?b) x < drop_bit (nat ?b) ?k"
          by (simp only: shr32_lt[OF b1 b2]) simp
        have "drop_bit (nat ?b) x \<noteq> drop_bit (nat ?b) ?k"
        proof
          assume "drop_bit (nat ?b) x = drop_bit (nat ?b) ?k"
          from drop_bit_eq_mono[OF this, of "Suc (nat ?b)"] df show False by simp
        qed
        with nl have "drop_bit (nat ?b) ?k < drop_bit (nat ?b) x" by simp
        from sides(3)[OF False df this]
        have "\<forall>c \<in> set (leaves l) \<union> set (leaves r). key (cells s c) < x" .
        then have "ge_list s x (leaves (Node d l r)) = []"
          by (intro ge_list_none) (auto simp: not_le intro: less_imp_le)
        with False True lt step show ?thesis by simp
      qed
    next
      case ge: False
      then have e: "drop_bit (Suc (nat ?b)) x = drop_bit (Suc (nat ?b)) ?k"
        using shr32_ge2[OF b1 b2, of ub "x XOR ?k"] by (simp only: drop_bit_xor_eq0) simp
      have sd: "(shr32 ub x ?b AND 1 \<noteq> 0) = bit x (nat ?b)" by (rule shr32_bit[OF b1 b2])
      show ?thesis
      proof (cases "bit x (nat ?b)")
        case True
        from sides(5)[OF False e True] have ll: "ge_list s x (leaves l) = []"
          by (intro ge_list_none) (auto simp: not_le intro: less_imp_le)
        have "eb32_lookup_ge_loop ub s (tree_ref (Node d l r)) x =
              eb32_lookup_ge_loop ub s (tree_ref r) x"
          using step False ge sd True by simp
        also have "\<dots> = (if ge_list s x (leaves r) = [] then eb_next_from s (Branches d, True)
            else Some (Branches (hd (ge_list s x (leaves r)))))"
          by (rule Node.IH(2)[OF rr xr])
        finally show ?thesis using ll pc(2) by simp
      next
        case F: False
        from sides(6)[OF False e F] have lr0: "ge_list s x (leaves r) = leaves r"
          by (intro ge_list_all) (auto simp: not_le intro: less_imp_le)
        have "eb32_lookup_ge_loop ub s (tree_ref (Node d l r)) x =
              eb32_lookup_ge_loop ub s (tree_ref l) x"
          using step False ge sd F by simp
        also have "\<dots> = (if ge_list s x (leaves l) = [] then eb_next_from s (Branches d, False)
            else Some (Branches (hd (ge_list s x (leaves l)))))"
          by (rule Node.IH(1)[OF rl xl])
        finally show ?thesis using lr0 pc(1) by simp
      qed
    qed
  qed
qed

lemma reach_inv_cases:
  assumes "reach_inv s lg"
  obtains "inv_empty s" "lg = []" "\<And>c. \<not> is_linked s c"
  | t where "tree_inv s t" "\<forall>k. keyed s k (leaves t) = keyed s k lg" "set (leaves t) = set lg"
      "\<And>c. is_linked s c = (c \<in> set (leaves t))" "lg \<noteq> []"
proof (cases "lg = []")
  case True
  with assms have e: "inv_empty s" by (simp add: reach_inv_def)
  then have "\<And>c. \<not> is_linked s c" by (simp add: inv_empty_def is_linked_def)
  with e True that(1) show ?thesis by blast
next
  case False
  with assms obtain t where i: "tree_inv s t" and kl: "\<forall>k. keyed s k (leaves t) = keyed s k lg"
    unfolding reach_inv_def by auto
  have "\<And>c. is_linked s c = (c \<in> set (leaves t))"
    using inv_linked_iff[OF i] by (simp add: is_linked_def)
  with that(2)[OF i kl keyed_set[OF kl] _ False] show ?thesis by blast
qed

lemma eb_prev_from_root:
  "fst (eb_root s True) = Null \<Longrightarrow> eb_prev_from s (Root, False) = Some Null"
  by (subst eb_prev_from.simps) simp

lemma eb_next_from_root:
  "fst (eb_root s True) = Null \<Longrightarrow> eb_next_from s (Root, False) = Some Null"
  by (subst eb_next_from.simps) simp

lemma eb32_lookup_le_inv:
  assumes i: "tree_inv s t"
  shows "eb32_lookup_le ub s Root x =
     Some (if le_list s x (leaves t) = [] then Null else Branches (last (le_list s x (leaves t))))"
proof -
  from i have r: "repr s (Root, False) t" and rd: "radix s t"
    and rt: "fst (eb_root s True) = Null" by (simp_all add: tree_inv_def)
  have "eb_root s False = tree_ref t" using repr_top[OF r] by simp
  moreover have "tree_ref t \<noteq> NULL" by (cases t) auto
  ultimately have "eb32_lookup_le ub s Root x = eb32_lookup_le_loop ub s (tree_ref t) x"
    by (simp add: eb32_lookup_le_def)
  with eb32_lookup_le_loop_repr[OF r rd, of ub x] eb_prev_from_root[OF rt] show ?thesis by simp
qed

lemma eb32_lookup_ge_inv:
  assumes i: "tree_inv s t"
  shows "eb32_lookup_ge ub s Root x =
     Some (if ge_list s x (leaves t) = [] then Null else Branches (hd (ge_list s x (leaves t))))"
proof -
  from i have r: "repr s (Root, False) t" and rd: "radix s t"
    and rt: "fst (eb_root s True) = Null" by (simp_all add: tree_inv_def)
  have "eb_root s False = tree_ref t" using repr_top[OF r] by simp
  moreover have "tree_ref t \<noteq> NULL" by (cases t) auto
  ultimately have "eb32_lookup_ge ub s Root x = eb32_lookup_ge_loop ub s (tree_ref t) x"
    by (simp add: eb32_lookup_ge_def)
  with eb32_lookup_ge_loop_repr[OF r rd, of ub x] eb_next_from_root[OF rt] show ?thesis by simp
qed

lemma sorted_last_max:
  "sorted (map f ys) \<Longrightarrow> d \<in> set ys \<Longrightarrow> f d \<le> f (last ys)"
proof (induction ys)
  case Nil
  then show ?case by simp
next
  case (Cons y ys)
  then show ?case by (cases ys) auto
qed

lemma sorted_hd_min:
  "sorted (map f ys) \<Longrightarrow> d \<in> set ys \<Longrightarrow> f (hd ys) \<le> f d"
  by (cases ys) auto

lemma le_list_last:
  assumes "sorted (map (\<lambda>c. key (cells s c)) xs)" "le_list s x xs \<noteq> []"
  shows "last (le_list s x xs) \<in> set xs" "key (cells s (last (le_list s x xs))) \<le> x"
    "\<forall>d \<in> set xs. key (cells s d) \<le> x \<longrightarrow> key (cells s d) \<le> key (cells s (last (le_list s x xs)))"
proof -
  have m: "last (le_list s x xs) \<in> set (le_list s x xs)" using assms(2) by simp
  then show "last (le_list s x xs) \<in> set xs" "key (cells s (last (le_list s x xs))) \<le> x"
    by (simp_all add: le_list_def)
  have so: "sorted (map (\<lambda>c. key (cells s c)) (le_list s x xs))"
    unfolding le_list_def using assms(1) by (rule sorted_filter)
  show "\<forall>d \<in> set xs. key (cells s d) \<le> x \<longrightarrow> key (cells s d) \<le> key (cells s (last (le_list s x xs)))"
  proof (intro ballI impI)
    fix d assume "d \<in> set xs" "key (cells s d) \<le> x"
    then have "d \<in> set (le_list s x xs)" by (simp add: le_list_def)
    from sorted_last_max[OF so this] show "key (cells s d) \<le> key (cells s (last (le_list s x xs)))" .
  qed
qed

lemma ge_list_hd:
  assumes "sorted (map (\<lambda>c. key (cells s c)) xs)" "ge_list s x xs \<noteq> []"
  shows "hd (ge_list s x xs) \<in> set xs" "x \<le> key (cells s (hd (ge_list s x xs)))"
    "\<forall>d \<in> set xs. x \<le> key (cells s d) \<longrightarrow> key (cells s (hd (ge_list s x xs))) \<le> key (cells s d)"
proof -
  have m: "hd (ge_list s x xs) \<in> set (ge_list s x xs)" using assms(2) by simp
  then show "hd (ge_list s x xs) \<in> set xs" "x \<le> key (cells s (hd (ge_list s x xs)))"
    by (simp_all add: ge_list_def)
  have so: "sorted (map (\<lambda>c. key (cells s c)) (ge_list s x xs))"
    unfolding ge_list_def using assms(1) by (rule sorted_filter)
  show "\<forall>d \<in> set xs. x \<le> key (cells s d) \<longrightarrow> key (cells s (hd (ge_list s x xs))) \<le> key (cells s d)"
  proof (intro ballI impI)
    fix d assume "d \<in> set xs" "x \<le> key (cells s d)"
    then have "d \<in> set (ge_list s x xs)" by (simp add: ge_list_def)
    from sorted_hd_min[OF so this] show "key (cells s (hd (ge_list s x xs))) \<le> key (cells s d)" .
  qed
qed

lemma le_list_nil_iff: "(le_list s x xs = []) = (\<forall>c \<in> set xs. x < key (cells s c))"
  by (auto simp: le_list_def filter_empty_conv not_le)

lemma ge_list_nil_iff: "(ge_list s x xs = []) = (\<forall>c \<in> set xs. key (cells s c) < x)"
  by (auto simp: ge_list_def filter_empty_conv not_le)

section \<open>Sequences of operations\<close>

text \<open>Insertion and deletion always return in a reachable state.\<close>

lemma eb_reach_insert_total:
  assumes re: "eb_reach ub s lg" and c: "leaf_p (cells s c) = NULL" and n: "leaf_p n = NULL"
    and nk: "\<forall>x \<in> set lg. key (cells s x) \<noteq> key n"
  shows "\<exists>s'. eb32_insert ub (s\<lparr>cells := (cells s)(c := n)\<rparr>) Root (Branches c) = Some (s', Branches c)
     \<and> (\<forall>d. key (cells s' d) = (if d = c then key n else key (cells s d)))
     \<and> eb_root s' True = eb_root s True"
proof -
  define s1 where "s1 = s\<lparr>cells := (cells s)(c := n)\<rparr>"
  have k1: "\<forall>d. key (cells s1 d) = (if d = c then key n else key (cells s d))"
    by (simp add: s1_def)
  have r1: "eb_root s1 True = eb_root s True" by (simp add: s1_def)
  from eb_reach_inv[OF re] show ?thesis
  proof (cases rule: reach_inv_cases)
    case 1
    have "inv_empty s1" using 1(1) n by (auto simp: inv_empty_def s1_def)
    from eb32_insert_inv_empty[OF this, of ub c] k1 r1 show ?thesis
      unfolding s1_def[symmetric] by auto
  next
    case (2 t)
    have cl: "c \<notin> set (leaves t)" using c 2(4)[of c] by (simp add: is_linked_def)
    have i1: "tree_inv s1 t" unfolding s1_def by (rule inv_unlinked_frame[OF 2(1) cl n])
    have nex: "\<not> (\<exists>x \<in> set (leaves t). key (cells s1 x) = key (cells s1 c))"
      using nk cl 2(3) by (auto simp: s1_def)
    from eb32_insert_inv[OF i1 cl, of ub] obtain s2 r2 where
      e2: "eb32_insert ub s1 Root (Branches c) = Some (s2, r2)"
      and ky2: "\<forall>d. key (cells s2 d) = key (cells s1 d)" and rt2: "eb_root s2 True = eb_root s1 True"
      and alt2: "if snd (eb_root s1 True) \<and> (\<exists>x \<in> set (leaves t). key (cells s1 x) = key (cells s1 c))
        then (\<exists>sl. s2 = upd_cell s1 c (\<lambda>n. n\<lparr>node_p := sl, nbit := -1\<rparr>))
           \<and> (\<exists>x \<in> set (leaves t). r2 = Branches x \<and> key (cells s1 x) = key (cells s1 c))
        else r2 = Branches c
           \<and> (\<exists>t'. tree_inv s2 t' \<and> ins_leaves s1 c (leaves t) (leaves t'))"
      by blast
    from alt2 nex have "r2 = Branches c" by simp
    with e2 ky2 rt2 k1 r1 show ?thesis unfolding s1_def[symmetric] by auto
  qed
qed

lemma eb_reach_delete_total:
  assumes re: "eb_reach ub s lg"
  shows "\<exists>s'. eb_delete s (Branches c) = Some s'"
proof (cases "leaf_p (cells s c) = NULL")
  case True
  from eb_delete_null[OF True] show ?thesis by simp
next
  case False
  from eb_reach_inv[OF re] show ?thesis
  proof (cases rule: reach_inv_cases)
    case 1
    with False show ?thesis by (simp add: is_linked_def)
  next
    case (2 t)
    have "c \<in> set (leaves t)" using False 2(4)[of c] by (simp add: is_linked_def)
    from eb_delete_inv[OF 2(1) this] show ?thesis by blast
  qed
qed

lemma reach_linked_iff:
  assumes "eb_reach ub s lg"
  shows "(c \<in> set lg) = (leaf_p (cells s c) \<noteq> NULL)"
  using eb_reach_inv[OF assms]
proof (cases rule: reach_inv_cases)
  case 1
  then show ?thesis by (simp add: is_linked_def)
next
  case (2 t)
  from 2(4)[of c] 2(3) show ?thesis by (simp add: is_linked_def)
qed

lemma insert_all_reach:
  "eb_reach ub s lg \<Longrightarrow> distinct (map fst cks) \<Longrightarrow> distinct (map snd cks) \<Longrightarrow>
   set lg \<inter> fst ` set cks = {} \<Longrightarrow> \<forall>x \<in> set lg. key (cells s x) \<notin> snd ` set cks \<Longrightarrow>
   \<exists>s1. insert_all ub s cks = Some s1 \<and> eb_reach ub s1 (lg @ map fst cks)"
proof (induction cks arbitrary: s lg)
  case Nil
  then show ?case by simp
next
  case (Cons ck cks)
  obtain c k where ck: "ck = (c, k)" by (cases ck) auto
  let ?n = "(cells s c)\<lparr>key := k\<rparr>"
  have cl: "leaf_p (cells s c) = NULL"
    using reach_linked_iff[OF Cons.prems(1), of c] Cons.prems(4) ck by auto
  have n: "leaf_p ?n = NULL" using cl by simp
  have nk: "\<forall>x \<in> set lg. key (cells s x) \<noteq> key ?n" using Cons.prems(5) ck by auto
  from eb_reach_insert_total[OF Cons.prems(1) cl n nk] obtain s' where
    e: "eb32_insert ub (s\<lparr>cells := (cells s)(c := ?n)\<rparr>) Root (Branches c) = Some (s', Branches c)"
    and ky: "\<forall>d. key (cells s' d) = (if d = c then key ?n else key (cells s d))" by blast
  from reach_insert[OF Cons.prems(1) cl n e] have re': "eb_reach ub s' (lg @ [c])" by simp
  have 1: "distinct (map fst cks)" "distinct (map snd cks)" using Cons.prems(2,3) by auto
  have 2: "set (lg @ [c]) \<inter> fst ` set cks = {}"
    using Cons.prems(2,4) ck by (auto simp: image_iff)
  have 3: "\<forall>x \<in> set (lg @ [c]). key (cells s' x) \<notin> snd ` set cks"
    using Cons.prems(3,5) ck ky by (auto simp: image_iff)
  from Cons.IH[OF re' 1 2 3] obtain s1 where
    "insert_all ub s' cks = Some s1" "eb_reach ub s1 ((lg @ [c]) @ map fst cks)" by blast
  with e ck show ?case by simp
qed

lemma delete_all_reach:
  "eb_reach ub s lg \<Longrightarrow>
   \<exists>s2. delete_all s ds = Some s2 \<and> eb_reach ub s2 (filter (\<lambda>c. c \<notin> set ds) lg)"
proof (induction ds arbitrary: s lg)
  case Nil
  then show ?case by simp
next
  case (Cons d ds)
  from eb_reach_delete_total[OF Cons.prems, of d] obtain s' where
    e: "eb_delete s (Branches d) = Some s'" by blast
  from reach_delete[OF Cons.prems e] have re': "eb_reach ub s' (removeAll d lg)" .
  from Cons.IH[OF re'] obtain s2 where
    s2: "delete_all s' ds = Some s2" "eb_reach ub s2 (filter (\<lambda>c. c \<notin> set ds) (removeAll d lg))"
    by blast
  have "filter (\<lambda>c. c \<notin> set ds) (removeAll d lg) = filter (\<lambda>c. c \<notin> set (d # ds)) lg"
    by (induction lg) auto
  with s2 e show ?case by simp
qed

lemma repr_node_p:
  "repr s sl t \<Longrightarrow> fst sl \<noteq> Null \<Longrightarrow> d \<in> set (nodes t) \<Longrightarrow> fst (node_p (cells s d)) \<noteq> Null"
proof (induction t arbitrary: sl)
  case (Leaf c)
  then show ?case by simp
next
  case (Node c l r)
  from Node.prems have rl: "repr s (Branches c, False) l" and rr: "repr s (Branches c, True) r"
    and np: "node_p (cells s c) = sl" by auto
  from Node.prems(3) have "d = c \<or> d \<in> set (nodes l) \<or> d \<in> set (nodes r)" by auto
  then show ?case
  proof (elim disjE)
    assume "d = c"
    with np Node.prems(2) show ?thesis by simp
  next
    assume "d \<in> set (nodes l)"
    from Node.IH(1)[OF rl _ this] show ?thesis by simp
  next
    assume "d \<in> set (nodes r)"
    from Node.IH(2)[OF rr _ this] show ?thesis by simp
  qed
qed

lemma leaves_nodes_length: "length (leaves t) = Suc (length (nodes t))"
  by (induction t) auto

lemma inv_node_p_null:
  assumes i: "tree_inv s t"
  shows "(is_linked s c \<and> node_p (cells s c) = NULL) = (c \<in> set (leaves t) - set (nodes t))"
proof -
  from i have r: "repr s (Root, False) t"
    and npn: "\<forall>d. d \<in> set (leaves t) \<longrightarrow> d \<notin> set (nodes t) \<longrightarrow> node_p (cells s d) = NULL"
    by (simp_all add: tree_inv_def)
  have l: "is_linked s c = (c \<in> set (leaves t))"
    using inv_linked_iff[OF i] by (simp add: is_linked_def)
  have "c \<in> set (nodes t) \<Longrightarrow> node_p (cells s c) \<noteq> NULL"
    using repr_node_p[OF r, of c] by auto
  with npn l show ?thesis by auto
qed

lemma inv_one_leaf_only:
  assumes i: "tree_inv s t"
  shows "\<exists>c. set (leaves t) - set (nodes t) = {c}"
proof -
  from i have dl: "distinct (leaves t)" and dn: "distinct (nodes t)" and ab: "node_above t"
    by (simp_all add: tree_inv_def)
  have sub: "set (nodes t) \<subseteq> set (leaves t)" by (rule above_nodes_leaves[OF ab])
  have "card (set (leaves t) - set (nodes t)) = card (set (leaves t)) - card (set (nodes t))"
    using sub by (intro card_Diff_subset) auto
  also have "\<dots> = 1"
    using distinct_card[OF dl] distinct_card[OF dn] leaves_nodes_length[of t] by simp
  finally show ?thesis by (simp add: card_1_singleton_iff)
qed

lemma map_keys_reads [simp]:
  "eb_root (map_keys f s) = eb_root s"
  "branches (cells (map_keys f s) c) = branches (cells s c)"
  "node_p (cells (map_keys f s) c) = node_p (cells s c)"
  "leaf_p (cells (map_keys f s) c) = leaf_p (cells s c)"
  "nbit (cells (map_keys f s) c) = nbit (cells s c)"
  "key (cells (map_keys f s) c) = f (key (cells s c))"
  by (simp_all add: map_keys_def)

lemma map_keys_load_b [simp]: "load_b (map_keys f s) p side = load_b s p side"
  by (cases p) simp_all

lemma map_keys_load_node [simp]:
  "load_node (map_keys f s) p node_p = load_node s p node_p"
  "load_node (map_keys f s) p leaf_p = load_node s p leaf_p"
  "load_node (map_keys f s) p nbit = load_node s p nbit"
  "load_node (map_keys f s) p branches = load_node s p branches"
  "load_node (map_keys f s) p key = map_option f (load_node s p key)"
  by (cases p; simp)+

lemma map_keys_upd_cell:
  "(\<And>n. g (n\<lparr>key := f (key n)\<rparr>) = (g n)\<lparr>key := f (key (g n))\<rparr>) \<Longrightarrow>
   upd_cell (map_keys f s) c g = map_keys f (upd_cell s c g)"
  by (intro ebtree_eqI) (auto simp: upd_cell_def map_keys_def)

lemma map_keys_store_node:
  "(\<And>n. g (n\<lparr>key := f (key n)\<rparr>) = (g n)\<lparr>key := f (key (g n))\<rparr>) \<Longrightarrow>
   store_node (map_keys f s) p g = map_option (map_keys f) (store_node s p g)"
  by (cases p) (simp_all add: map_keys_upd_cell)

lemma map_keys_upd_slot: "upd_slot (map_keys f s) sl v = map_keys f (upd_slot s sl v)"
  by (intro ebtree_eqI) (auto simp: upd_slot_def map_keys_def upd_cell_def split: eb_root_ptr.splits)

lemma map_keys_store_b [simp]:
  "store_b (map_keys f s) p side v = map_option (map_keys f) (store_b s p side v)"
  by (cases "p = Null") (simp_all add: map_keys_upd_slot)

lemma map_keys_store_node_simps [simp]:
  "store_node (map_keys f s) p (\<lambda>n. n\<lparr>node_p := v\<rparr>) = map_option (map_keys f) (store_node s p (\<lambda>n. n\<lparr>node_p := v\<rparr>))"
  "store_node (map_keys f s) p (\<lambda>n. n\<lparr>leaf_p := v\<rparr>) = map_option (map_keys f) (store_node s p (\<lambda>n. n\<lparr>leaf_p := v\<rparr>))"
  "store_node (map_keys f s) p (\<lambda>n. n\<lparr>nbit := b\<rparr>) = map_option (map_keys f) (store_node s p (\<lambda>n. n\<lparr>nbit := b\<rparr>))"
  "store_node (map_keys f s) p (\<lambda>n. n\<lparr>branches := br\<rparr>) = map_option (map_keys f) (store_node s p (\<lambda>n. n\<lparr>branches := br\<rparr>))"
  by (rule map_keys_store_node; simp)+

lemma bind_if:
  "Option.bind (if c then a else b) k = (if c then Option.bind a k else Option.bind b k)"
  by simp

lemma eb_delete_fix_map_keys [simp]:
  "eb_delete_fix (map_keys f s) p side = map_option (map_keys f) (eb_delete_fix s p side)"
  by (cases p) (simp_all add: eb_delete_fix_def)

lemma eb_delete_map_keys:
  "eb_delete (map_keys f s) p = map_option (map_keys f) (eb_delete s p)"
  unfolding eb_delete_def
  by (simp add: bind_map_option map_option_bind Let_def comp_def if_distrib[of "map_option (map_keys f)"]
      bind_if cong: if_cong Option.bind_cong)


lemma option_eqI:
  assumes "\<And>y. a = Some y \<Longrightarrow> b = Some y" "\<And>y. b = Some y \<Longrightarrow> a = Some y"
  shows "a = (b :: 'a option)"
  using assms by (cases a; cases b) auto

lemma eb_insert_dup_hole_map_keys1:
  assumes "eb_insert_dup_hole s' h sb = Some y"
  shows "\<forall>s. s' = map_keys f s \<longrightarrow> eb_insert_dup_hole s h sb = Some y"
proof (rule eb_insert_dup_hole.raw_induct[OF _ assms])
  fix rec s' h sb y
  assume IH: "\<And>a b c y. rec a b c = Some y \<Longrightarrow>
      \<forall>s. a = map_keys f s \<longrightarrow> eb_insert_dup_hole s b c = Some y"
  assume step: "load_b s' h True \<bind>
     (\<lambda>r. if eb_gettag r \<noteq> False
          then let last = h; head' = eb_untag r True
               in load_node s' head' nbit \<bind>
                  (\<lambda>hb. load_node s' last nbit \<bind>
                        (\<lambda>lb. rec s' head' (if lb + 1 < hb then head' else sb)))
          else Some (h, sb)) = Some y"
  have IH': "\<And>s b c y. rec (map_keys f s) b c = Some y \<Longrightarrow> eb_insert_dup_hole s b c = Some y"
    using IH by blast
  show "\<forall>s. s' = map_keys f s \<longrightarrow> eb_insert_dup_hole s h sb = Some y"
  proof (intro allI impI)
    fix s assume e: "s' = map_keys f s"
    from step show "eb_insert_dup_hole s h sb = Some y"
      unfolding e
      by (subst eb_insert_dup_hole.simps)
         (auto simp: Let_def split: Option.bind_splits if_splits intro: IH')
  qed
qed

lemma eb_insert_dup_hole_map_keys2:
  assumes "eb_insert_dup_hole s h sb = Some y"
  shows "eb_insert_dup_hole (map_keys f s) h sb = Some y"
proof (rule eb_insert_dup_hole.raw_induct[OF _ assms])
  fix rec s h sb y
  assume IH: "\<And>a b c y. rec a b c = Some y \<Longrightarrow> eb_insert_dup_hole (map_keys f a) b c = Some y"
  assume step: "load_b s h True \<bind>
     (\<lambda>r. if eb_gettag r \<noteq> False
          then let last = h; head' = eb_untag r True
               in load_node s head' nbit \<bind>
                  (\<lambda>hb. load_node s last nbit \<bind>
                        (\<lambda>lb. rec s head' (if lb + 1 < hb then head' else sb)))
          else Some (h, sb)) = Some y"
  from step show "eb_insert_dup_hole (map_keys f s) h sb = Some y"
    by (subst eb_insert_dup_hole.simps)
       (auto simp: Let_def split: Option.bind_splits if_splits intro: IH)
qed

lemma eb_insert_dup_hole_map_keys [simp]:
  "eb_insert_dup_hole (map_keys f s) h sb = eb_insert_dup_hole s h sb"
proof (rule option_eqI)
  fix y assume "eb_insert_dup_hole (map_keys f s) h sb = Some y"
  from eb_insert_dup_hole_map_keys1[OF this, rule_format, OF refl]
  show "eb_insert_dup_hole s h sb = Some y" .
next
  fix y assume "eb_insert_dup_hole s h sb = Some y"
  thus "eb_insert_dup_hole (map_keys f s) h sb = Some y"
    by (rule eb_insert_dup_hole_map_keys2)
qed

lemma eb_descend_map_keys1:
  assumes "eb_descend s' t side = Some y"
  shows "\<forall>s. s' = map_keys f s \<longrightarrow> eb_descend s t side = Some y"
proof (rule eb_descend.raw_induct[OF _ assms])
  fix rec s' t side y
  assume IH: "\<And>a b c y. rec a b c = Some y \<Longrightarrow>
      \<forall>s. a = map_keys f s \<longrightarrow> eb_descend s b c = Some y"
  assume step: "(if eb_gettag t \<noteq> False
      then load_b s' (eb_untag t True) side \<bind> (\<lambda>t. rec s' t side)
      else Some t) = Some y"
  have IH': "\<And>s b c y. rec (map_keys f s) b c = Some y \<Longrightarrow> eb_descend s b c = Some y"
    using IH by blast
  show "\<forall>s. s' = map_keys f s \<longrightarrow> eb_descend s t side = Some y"
  proof (intro allI impI)
    fix s assume e: "s' = map_keys f s"
    from step show "eb_descend s t side = Some y"
      unfolding e
      by (subst eb_descend.simps)
         (auto simp: Let_def split: Option.bind_splits if_splits intro: IH')
  qed
qed

lemma eb_descend_map_keys2:
  assumes "eb_descend s t side = Some y"
  shows "eb_descend (map_keys f s) t side = Some y"
proof (rule eb_descend.raw_induct[OF _ assms])
  fix rec s t side y
  assume IH: "\<And>a b c y. rec a b c = Some y \<Longrightarrow> eb_descend (map_keys f a) b c = Some y"
  assume step: "(if eb_gettag t \<noteq> False
      then load_b s (eb_untag t True) side \<bind> (\<lambda>t. rec s t side)
      else Some t) = Some y"
  from step show "eb_descend (map_keys f s) t side = Some y"
    by (subst eb_descend.simps)
       (auto simp: Let_def split: Option.bind_splits if_splits intro: IH)
qed

lemma eb_descend_map_keys [simp]:
  "eb_descend (map_keys f s) t side = eb_descend s t side"
proof (rule option_eqI)
  fix y assume "eb_descend (map_keys f s) t side = Some y"
  from eb_descend_map_keys1[OF this, rule_format, OF refl]
  show "eb_descend s t side = Some y" .
next
  fix y assume "eb_descend s t side = Some y"
  thus "eb_descend (map_keys f s) t side = Some y"
    by (rule eb_descend_map_keys2)
qed

lemma eb_insert_dup_map_keys:
  "eb_insert_dup (map_keys f s) sub0 new =
     map_option (\<lambda>(s', r). (map_keys f s', r)) (eb_insert_dup s sub0 new)"
  unfolding eb_insert_dup_def
  by (simp add: bind_map_option map_option_bind Let_def comp_def split_beta
      if_distrib[of "map_option (\<lambda>(s', r). (map_keys f s', r))"]
      bind_if cong: if_cong Option.bind_cong)

section \<open>The example stores\<close>

lemma ex1_insert:
  "eb32_insert ub0 ((eb_init False)\<lparr>cells := (cells (eb_init False))(0 := zero_node\<lparr>key := 5\<rparr>)\<rparr>)
     Root (Branches 0) = Some (ex1, Branches 0)"
  by (simp add: eb32_insert_def eb_init_def EB_ROOT_def ex1_def zero_node_def
      upd_cell_def upd_slot_def fun_eq_iff)

lemma exu1_insert:
  "eb32_insert ub0 ((eb_init True)\<lparr>cells := (cells (eb_init True))(0 := zero_node\<lparr>key := 5\<rparr>)\<rparr>)
     Root (Branches 0) = Some (exu1, Branches 0)"
  by (simp add: eb32_insert_def eb_init_def EB_ROOT_UNIQUE_def exu1_def zero_node_def
      upd_cell_def upd_slot_def fun_eq_iff)

lemma flsnz_6: "flsnz (6 :: 32 word) = 3"
  by (simp add: flsnz_def flsnz_step_def)

lemma ex2_insert:
  "eb32_insert ub0 (ex1\<lparr>cells := (cells ex1)(1 := zero_node\<lparr>key := 3\<rparr>)\<rparr>)
     Root (Branches 1) = Some (ex2, Branches 1)"
  by (simp add: eb32_insert_def ex1_def ex2_def zero_node_def eb32_insert_descend.simps
      eb32_insert_link_def store_up_def flsnz_6 Let_def
      upd_cell_def upd_slot_def fun_eq_iff)

lemma flsnz_0: "flsnz (0 :: 32 word) = 1"
  by (simp add: flsnz_def flsnz_step_def)

lemma word32_not_2_le_1: "\<not> (2 :: 32 word) \<le> 1"
  by (simp add: word_le_nat_alt)

lemma ex3_insert:
  "eb32_insert ub0 (ex2\<lparr>cells := (cells ex2)(2 := zero_node\<lparr>key := 5\<rparr>)\<rparr>)
     Root (Branches 2) = Some (ex3, Branches 2)"
  by (simp add: eb32_insert_def ex2_def ex3_def zero_node_def eb32_insert_descend.simps
      eb32_insert_link_def store_up_def flsnz_0 Let_def shr32_def word32_not_2_le_1
      upd_cell_def upd_slot_def fun_eq_iff)

lemma ex1_reach: "eb_reach ub0 ex1 [0]"
  using reach_insert[OF reach_init[of ub0 False] _ _ ex1_insert]
  by (simp add: eb_init_def zero_node_def)

lemma exu1_reach: "eb_reach ub0 exu1 [0]"
  using reach_insert[OF reach_init[of ub0 True] _ _ exu1_insert]
  by (simp add: eb_init_def zero_node_def)

lemma ex2_reach: "eb_reach ub0 ex2 [0, 1]"
  using reach_insert[OF ex1_reach _ _ ex2_insert]
  by (simp add: ex1_def zero_node_def)

lemma ex3_reach: "eb_reach ub0 ex3 [0, 1, 2]"
  using reach_insert[OF ex2_reach _ _ ex3_insert]
  by (simp add: ex2_def zero_node_def)





section \<open>Lookup\<close>



section \<open>Range lookups\<close>

text \<open>
  C2. In every reachable store \<^verbatim>\<open>eb32_lookup_le\<close> returns a linked cell with the
  largest key at most \<open>x\<close>, or null when every linked key is above \<open>x\<close>; and
  \<^verbatim>\<open>eb32_lookup_ge\<close> returns a linked cell with the smallest key at least \<open>x\<close>, or
  null when every linked key is below \<open>x\<close>. Keys are compared unsigned.
\<close>

theorem eb32_lookup_le_ge_correct:
  assumes "eb_reach ub s lg"
  shows "(\<exists>r. eb32_lookup_le ub s Root x = Some r
       \<and> (if \<forall>c. is_linked s c \<longrightarrow> x < key (cells s c) then r = Null
          else \<exists>c. r = Branches c \<and> is_linked s c \<and> key (cells s c) \<le> x
             \<and> (\<forall>d. is_linked s d \<and> key (cells s d) \<le> x \<longrightarrow> key (cells s d) \<le> key (cells s c))))
     \<and> (\<exists>r. eb32_lookup_ge ub s Root x = Some r
       \<and> (if \<forall>c. is_linked s c \<longrightarrow> key (cells s c) < x then r = Null
          else \<exists>c. r = Branches c \<and> is_linked s c \<and> x \<le> key (cells s c)
             \<and> (\<forall>d. is_linked s d \<and> x \<le> key (cells s d) \<longrightarrow> key (cells s c) \<le> key (cells s d))))"
proof -
  from eb_reach_inv[OF assms] show ?thesis
  proof (cases rule: reach_inv_cases)
    case 1
    with eb32_lookup_empty(2,3)[OF 1(1), of ub x] show ?thesis by simp
  next
    case (2 t)
    from 2(1) have so: "sorted (map (\<lambda>c. key (cells s c)) (leaves t))"
      by (intro radix_sorted) (simp add: tree_inv_def)
    let ?le = "le_list s x (leaves t)" and ?ge = "ge_list s x (leaves t)"
    have a: "if \<forall>c. is_linked s c \<longrightarrow> x < key (cells s c)
          then (if ?le = [] then Null else Branches (last ?le)) = Null
          else \<exists>c. (if ?le = [] then Null else Branches (last ?le)) = Branches c
             \<and> is_linked s c \<and> key (cells s c) \<le> x
             \<and> (\<forall>d. is_linked s d \<and> key (cells s d) \<le> x \<longrightarrow> key (cells s d) \<le> key (cells s c))"
    proof (cases "?le = []")
      case True
      then show ?thesis unfolding 2(4) by (simp add: le_list_nil_iff)
    next
      case False
      from le_list_last[OF so False] False show ?thesis
        unfolding 2(4) by (auto simp: le_list_nil_iff)
    qed
    have b: "if \<forall>c. is_linked s c \<longrightarrow> key (cells s c) < x
          then (if ?ge = [] then Null else Branches (hd ?ge)) = Null
          else \<exists>c. (if ?ge = [] then Null else Branches (hd ?ge)) = Branches c
             \<and> is_linked s c \<and> x \<le> key (cells s c)
             \<and> (\<forall>d. is_linked s d \<and> x \<le> key (cells s d) \<longrightarrow> key (cells s c) \<le> key (cells s d))"
    proof (cases "?ge = []")
      case True
      then show ?thesis unfolding 2(4) by (simp add: ge_list_nil_iff)
    next
      case False
      from ge_list_hd[OF so False] False show ?thesis
        unfolding 2(4) by (auto simp: ge_list_nil_iff)
    qed
    from a b show ?thesis
      unfolding eb32_lookup_le_inv[OF 2(1)] eb32_lookup_ge_inv[OF 2(1)] by blast
  qed
qed

theorem eb32_lookup_le_ge_correct_witness:
  "eb_reach ub0 ex3 [0, 1, 2]
   \<and> (\<exists>r. eb32_lookup_le ub0 ex3 Root 4 = Some r
       \<and> (if \<forall>c. is_linked ex3 c \<longrightarrow> 4 < key (cells ex3 c) then r = Null
          else \<exists>c. r = Branches c \<and> is_linked ex3 c \<and> key (cells ex3 c) \<le> 4
             \<and> (\<forall>d. is_linked ex3 d \<and> key (cells ex3 d) \<le> 4 \<longrightarrow> key (cells ex3 d) \<le> key (cells ex3 c))))
   \<and> (\<exists>r. eb32_lookup_ge ub0 ex3 Root 4 = Some r
       \<and> (if \<forall>c. is_linked ex3 c \<longrightarrow> key (cells ex3 c) < 4 then r = Null
          else \<exists>c. r = Branches c \<and> is_linked ex3 c \<and> 4 \<le> key (cells ex3 c)
             \<and> (\<forall>d. is_linked ex3 d \<and> 4 \<le> key (cells ex3 d) \<longrightarrow> key (cells ex3 c) \<le> key (cells ex3 d))))"
  using eb32_lookup_le_ge_correct [of ub0 ex3 "[0, 1, 2]" 4] ex3_reach by simp

section \<open>Order of the traversal\<close>



section \<open>Order of duplicates\<close>

text \<open>
  C4. In every reachable store the cells that share a key are visited by \<^verbatim>\<open>eb_next\<close>
  in the order of their insertion (the log \<open>lg\<close>), and the traversal by \<^verbatim>\<open>eb_last\<close> and
  \<^verbatim>\<open>eb_prev\<close> visits the cells in the reverse order.
\<close>

theorem eb_traverse_dup_order:
  assumes "eb_reach ub s lg"
  shows "\<exists>tr. eb_traverse s = Some (map Branches tr)
     \<and> eb_traverse_back s = Some (map Branches (rev tr))
     \<and> (\<forall>k. filter (\<lambda>c. key (cells s c) = k) tr = filter (\<lambda>c. key (cells s c) = k) lg)"
proof -
  from eb_reach_inv[OF assms] show ?thesis
  proof (cases rule: reach_inv_cases)
    case 1
    with eb_traverse_empty[OF 1(1)] show ?thesis by (intro exI[of _ "[]"]) simp
  next
    case (2 t)
    from eb_traverse_inv[OF 2(1)] 2(2) show ?thesis
      by (intro exI[of _ "leaves t"]) (simp add: keyed_def)
  qed
qed

theorem eb_traverse_dup_order_witness:
  "eb_reach ub0 ex3 [0, 1, 2]
   \<and> (\<exists>tr. eb_traverse ex3 = Some (map Branches tr)
     \<and> eb_traverse_back ex3 = Some (map Branches (rev tr))
     \<and> filter (\<lambda>c. key (cells ex3 c) = 5) tr = [0, 2])"
proof -
  from eb_traverse_dup_order [of ub0 ex3 "[0, 1, 2]"] ex3_reach obtain tr where
    tr: "eb_traverse ex3 = Some (map Branches tr)"
    "eb_traverse_back ex3 = Some (map Branches (rev tr))"
    "\<forall>k. filter (\<lambda>c. key (cells ex3 c) = k) tr = filter (\<lambda>c. key (cells ex3 c) = k) [0, 1, 2]"
    by blast
  have "filter (\<lambda>c. key (cells ex3 c) = 5) [0, 1, 2] = [0, 2]"
    by (simp add: ex3_def zero_node_def)
  with tr ex3_reach show ?thesis by auto
qed

section \<open>Insertion of a present key under a unique root\<close>

text \<open>
  With 32-bit keys: when the root is tagged unique and a linked cell \<open>x\<close> holds the
  key of the new cell \<open>c\<close>, \<^verbatim>\<open>eb32_insert\<close> returns \<open>x\<close>; the \<^verbatim>\<open>leaf_p\<close> of \<open>c\<close> stays
  null, the root and every other cell are what they were, and so is the traversal.
  (The insertion writes \<^verbatim>\<open>node_p\<close> and \<^verbatim>\<open>bit\<close> of the new cell before it returns.)
\<close>

lemma eb32_insert_unique_collision:
  assumes re: "eb_reach ub s lg" and u: "snd (eb_root s True)"
    and c: "leaf_p (cells s c) = NULL" and n: "leaf_p n = NULL"
    and x: "is_linked s x" "key (cells s x) = key n"
  shows "\<exists>s'. eb32_insert ub (s\<lparr>cells := (cells s)(c := n)\<rparr>) Root (Branches c) = Some (s', Branches x)
     \<and> leaf_p (cells s' c) = NULL \<and> eb_root s' = eb_root s
     \<and> (\<forall>d. d \<noteq> c \<longrightarrow> cells s' d = cells s d)
     \<and> eb_traverse s' = eb_traverse s"
proof -
  define s1 where "s1 = s\<lparr>cells := (cells s)(c := n)\<rparr>"
  note ri = eb_reach_inv[OF re]
  from ri show ?thesis
  proof (cases rule: reach_inv_cases)
    case 1
    with x show ?thesis by simp
  next
    case (2 t)
    have xl: "x \<in> set (leaves t)" using x(1) 2(4) by simp
    have cl: "c \<notin> set (leaves t)" using c 2(4)[of c] by (simp add: is_linked_def)
    have xc: "x \<noteq> c" using xl cl by auto
    have i1: "tree_inv s1 t" unfolding s1_def by (rule inv_unlinked_frame[OF 2(1) cl n])
    have un: "\<forall>k. length (keyed s k lg) \<le> 1" using ri u by (simp add: reach_inv_def)
    have ex: "\<exists>y \<in> set (leaves t). key (cells s1 y) = key (cells s1 c)"
      using xl xc x(2) by (intro bexI[of _ x]) (simp_all add: s1_def)
    have u1: "snd (eb_root s1 True)" using u by (simp add: s1_def)
    from eb32_insert_inv[OF i1 cl, of ub] obtain s2 r2 where
      e2: "eb32_insert ub s1 Root (Branches c) = Some (s2, r2)"
      and alt2: "if snd (eb_root s1 True) \<and> (\<exists>x \<in> set (leaves t). key (cells s1 x) = key (cells s1 c))
        then (\<exists>sl. s2 = upd_cell s1 c (\<lambda>n. n\<lparr>node_p := sl, nbit := -1\<rparr>))
           \<and> (\<exists>x \<in> set (leaves t). r2 = Branches x \<and> key (cells s1 x) = key (cells s1 c))
        else r2 = Branches c
           \<and> (\<exists>t'. tree_inv s2 t' \<and> ins_leaves s1 c (leaves t) (leaves t'))"
      by blast
    from alt2 u1 ex obtain sl y where
      s2: "s2 = upd_cell s1 c (\<lambda>n. n\<lparr>node_p := sl, nbit := -1\<rparr>)"
      and y: "y \<in> set (leaves t)" "r2 = Branches y" "key (cells s1 y) = key (cells s1 c)"
      by auto
    have yc: "y \<noteq> c" using y(1) cl by auto
    have ky: "key (cells s y) = key n" using y(3) yc by (simp add: s1_def)
    have "y = x"
    proof (rule ccontr)
      assume ne: "y \<noteq> x"
      have xs: "x \<in> set (keyed s (key n) lg)" "y \<in> set (keyed s (key n) lg)"
        using xl y(1) x(2) ky 2(3) by (simp_all add: keyed_def)
      from un have "length (keyed s (key n) lg) \<le> 1" by simp
      then obtain z where "set (keyed s (key n) lg) \<subseteq> {z}"
        by (cases "keyed s (key n) lg") (auto simp: le_Suc_eq)
      with xs ne show False by auto
    qed
    have s2': "s2 = s\<lparr>cells := (cells s)(c := n\<lparr>node_p := sl, nbit := -1\<rparr>)\<rparr>"
      unfolding s2 s1_def by (simp add: upd_cell_def)
    have i2: "tree_inv s2 t" unfolding s2'
      using n by (intro inv_unlinked_frame[OF 2(1) cl]) simp
    have tr: "eb_traverse s2 = eb_traverse s"
      using eb_traverse_inv(1)[OF i2] eb_traverse_inv(1)[OF 2(1)] by simp
    have "eb32_insert ub (s\<lparr>cells := (cells s)(c := n)\<rparr>) Root (Branches c) = Some (s2, Branches x)"
      using e2 y(2) \<open>y = x\<close> by (simp add: s1_def)
    moreover have "leaf_p (cells s2 c) = NULL" using n by (simp add: s2')
    moreover have "eb_root s2 = eb_root s" by (simp add: s2')
    moreover have "\<forall>d. d \<noteq> c \<longrightarrow> cells s2 d = cells s d" by (simp add: s2')
    ultimately show ?thesis using tr by blast
  qed
qed

lemma eb32_insert_unique_collision_example:
  "eb_reach ub0 exu1 [0] \<and> snd (eb_root exu1 True) \<and> leaf_p (cells exu1 1) = NULL
   \<and> leaf_p (zero_node\<lparr>key := 5\<rparr>) = NULL \<and> is_linked exu1 0
   \<and> key (cells exu1 0) = key (zero_node\<lparr>key := 5\<rparr>)
   \<and> (\<exists>s'. eb32_insert ub0 (exu1\<lparr>cells := (cells exu1)(1 := zero_node\<lparr>key := 5\<rparr>)\<rparr>) Root (Branches 1)
            = Some (s', Branches 0)
     \<and> leaf_p (cells s' 1) = NULL \<and> eb_root s' = eb_root exu1
     \<and> (\<forall>d. d \<noteq> 1 \<longrightarrow> cells s' d = cells exu1 d)
     \<and> eb_traverse s' = eb_traverse exu1)"
  using eb32_insert_unique_collision [of ub0 exu1 "[0]" 1 "zero_node\<lparr>key := 5\<rparr>" 0] exu1_reach
  by (simp add: exu1_def zero_node_def is_linked_def)


section \<open>Inserting and deleting all\<close>

text \<open>
  C6. Cells with distinct keys are inserted into an empty tree in the order of the list
  \<open>cks\<close>, then the cells are deleted in the order of any list \<open>ds\<close> that names them all:
  every call returns, and at the end \<^verbatim>\<open>eb_first\<close> and \<^verbatim>\<open>eb_last\<close> return null.
\<close>

theorem insert_delete_round_trip:
  assumes "distinct (map fst cks)" "distinct (map snd cks)" "set ds = fst ` set cks"
  shows "\<exists>s1 s2. insert_all ub (eb_init unique) cks = Some s1 \<and> delete_all s1 ds = Some s2
     \<and> eb_first s2 Root = Some Null \<and> eb_last s2 Root = Some Null"
proof -
  from insert_all_reach[OF reach_init[where ub = ub and unique = unique] assms(1,2)] obtain s1 where
    s1: "insert_all ub (eb_init unique) cks = Some s1" "eb_reach ub s1 (map fst cks)" by auto
  from delete_all_reach[OF s1(2), of ds] obtain s2 where
    s2: "delete_all s1 ds = Some s2" "eb_reach ub s2 (filter (\<lambda>c. c \<notin> set ds) (map fst cks))"
    by blast
  have "filter (\<lambda>c. c \<notin> set ds) (map fst cks) = []"
    using assms(3) by (auto simp: filter_empty_conv)
  with eb_reach_inv[OF s2(2)] have "inv_empty s2" by (simp add: reach_inv_def)
  from eb_first_empty[OF this] s1(1) s2(1) show ?thesis by blast
qed

theorem insert_delete_round_trip_witness:
  "distinct (map fst [(0 :: nat, 5 :: 32 word), (1, 3)])
   \<and> distinct (map snd [(0 :: nat, 5 :: 32 word), (1, 3)])
   \<and> set [1, 0] = fst ` set [(0 :: nat, 5 :: 32 word), (1, 3)]
   \<and> (\<exists>s1 s2. insert_all ub0 (eb_init False) [(0, 5), (1, 3)] = Some s1
        \<and> delete_all s1 [1, 0] = Some s2
        \<and> eb_first s2 Root = Some Null \<and> eb_last s2 Root = Some Null)"
  using insert_delete_round_trip [of "[(0, 5), (1, 3)]" "[1, 0]" ub0 False] by auto

section \<open>Deleting an unlinked cell\<close>

text \<open>
  C7. \<^verbatim>\<open>eb_delete\<close> on a cell whose \<^verbatim>\<open>leaf_p\<close> is null returns at once: the whole
  store, the cell included, is what it was.
\<close>

theorem eb_delete_unlinked:
  "leaf_p (cells s c) = NULL \<Longrightarrow> eb_delete s (Branches c) = Some s"
  by (simp add: eb_delete_def)

theorem eb_delete_unlinked_witness:
  "leaf_p (cells (eb_init False) 0) = NULL
   \<and> eb_delete (eb_init False) (Branches 0) = Some (eb_init False)"
  using eb_delete_unlinked [of "eb_init False" 0]
  by (simp add: eb_init_def zero_node_def)

section \<open>The cell that is only a leaf\<close>

text \<open>
  C8. In a reachable store with a linked cell, exactly one linked cell has a null
  \<^verbatim>\<open>node_p\<close>: the cell whose node part is not in use. It is the only cell of the tree
  only when the tree holds one cell: after cell 0 and then cell 1 have been
  inserted, cell 0 is linked with a null \<^verbatim>\<open>node_p\<close>, cell 1 is linked too, and the
  root does not point to cell 0.
\<close>

theorem node_p_null_exactly_one:
  assumes "eb_reach ub s lg" and "is_linked s x"
  shows "\<exists>c. {d. is_linked s d \<and> node_p (cells s d) = NULL} = {c}"
proof -
  from eb_reach_inv[OF assms(1)] show ?thesis
  proof (cases rule: reach_inv_cases)
    case 1
    with assms(2) show ?thesis by simp
  next
    case (2 t)
    note np = inv_node_p_null[OF 2(1)]
    from inv_one_leaf_only[OF 2(1)] obtain c0 where c0: "set (leaves t) - set (nodes t) = {c0}"
      by blast
    have "{d. is_linked s d \<and> node_p (cells s d) = NULL} = set (leaves t) - set (nodes t)"
      unfolding np by auto
    with c0 show ?thesis by simp
  qed
qed

theorem node_p_null_exactly_one_witness:
  "eb_reach ub0 ex2 [0, 1] \<and> is_linked ex2 0
   \<and> (\<exists>c. {d. is_linked ex2 d \<and> node_p (cells ex2 d) = NULL} = {c})"
  using node_p_null_exactly_one [of ub0 ex2 "[0, 1]" 0] ex2_reach
  by (simp add: is_linked_def ex2_def zero_node_def)

theorem node_p_null_not_sole_cell:
  "eb_reach ub0 ex2 [0, 1] \<and> is_linked ex2 0 \<and> node_p (cells ex2 0) = NULL
   \<and> is_linked ex2 1 \<and> eb_root ex2 EB_LEFT \<noteq> (Branches 0, EB_LEAF)"
  using ex2_reach by (simp add: is_linked_def ex2_def zero_node_def)

section \<open>The 128-bit comparators\<close>

text \<open>
  C9. \<^verbatim>\<open>eb128_cmp_264\<close> and \<^verbatim>\<open>eb128i_cmp_264\<close> return 1 when \<open>a \<ge> b\<close>, also
  when \<open>a = b\<close>, and -1 when \<open>a < b\<close>: they never return 0, so they are not the
  three-way comparison their comment documents.
\<close>

theorem eb128_cmp_264_two_valued:
  "eb128_cmp_264 alo ahi blo bhi =
     (if eb128_compose_264 alo ahi \<ge> eb128_compose_264 blo bhi then 1 else -1)
   \<and> eb128i_cmp_264 alo ahi blo bhi =
     (if sint (eb128_compose_264 alo ahi) \<ge> sint (eb128_compose_264 blo bhi) then 1 else -1)
   \<and> eb128_cmp_264 alo ahi alo ahi = 1
   \<and> eb128i_cmp_264 alo ahi alo ahi = 1
   \<and> eb128_cmp_264 alo ahi blo bhi \<noteq> 0
   \<and> eb128i_cmp_264 alo ahi blo bhi \<noteq> 0"
  by (simp add: eb128_cmp_264_def eb128i_cmp_264_def Let_def)

section \<open>Side selection in the 128-bit insertion\<close>

text \<open>
  C10. Where \<^verbatim>\<open>long\<close> has 64 bits the descent of \<^verbatim>\<open>eb128_insert\<close> and
  \<^verbatim>\<open>eb128i_insert\<close> shifts 64-bit operands. For a node bit below 64 the shift is
  defined and the side is that bit of the key; for a node bit from 64 on, the first
  shift has a count of at least 64, and so has the second one, whose count is masked
  with \<^verbatim>\<open>0x3FF\<close>: the side is not defined by C.
\<close>

theorem eb128_insert_side_defined_iff:
  "eb128_insert_side newkey b =
     (if 0 \<le> b \<and> b < 64 then Some (if bit newkey (nat b) then 1 else 0) else None)"
  apply (auto simp add: eb128_insert_side_def shr64_def)
   apply (rule bit_word_eqI)
   apply (auto simp add: bit_simps nat_less_iff intro: gr0I)[1]
  apply (rule bit_word_eqI)
  apply (auto simp add: bit_simps nat_less_iff intro: gr0I)[1]
  done

end
